(* ===== verification/Prelude.thy ===== *)
theory Prelude
  imports Main "HOL-Library.Word"
begin

unbundle bit_operations_syntax

text \<open>
  Shared vocabulary of the development: the names of the C integer types, the crash
  outcomes of C code with undefined behaviour, and the generic facts about machine words
  that every component uses.

  The collection \<open>word_nat\<close> turns the order of unsigned words into the order of
  natural numbers, where linear arithmetic applies; \<open>unat_Suc\<close> and
  \<open>unat_pred\<close> read the C expressions \<open>x + 1\<close> and \<open>x - 1\<close> when they do not wrap.
\<close>

type_synonym u8 = "8 word"
type_synonym u32 = "32 word"
type_synonym u64 = "64 word"

named_theorems word_nat \<open>unsigned words read as natural numbers\<close>

section \<open>Crashes\<close>

text \<open>
  What C leaves undefined and the machine answers with a fault or a corrupted heap: a
  NULL pointer is dereferenced, an array is indexed outside its bounds, an integer is
  divided by zero. A function that can do so returns \<open>crash + 'a\<close>, with \<open>Inl\<close> for the
  crash.
\<close>

datatype crash = NullDeref | OutOfBounds | DivByZero

definition bindR :: "(crash + 'a) \<Rightarrow> ('a \<Rightarrow> crash + 'b) \<Rightarrow> crash + 'b" where
  "bindR r f = (case r of Inl c \<Rightarrow> Inl c | Inr x \<Rightarrow> f x)"

lemma bindR_simps [simp]:
  "bindR (Inl c) f = Inl c"
  "bindR (Inr x) f = f x"
  by (simp_all add: bindR_def)

lemma bindR_cong [fundef_cong]:
  "r = r' \<Longrightarrow> (\<And>x. r' = Inr x \<Longrightarrow> f x = f' x) \<Longrightarrow> bindR r f = bindR r' f'"
  by (simp add: bindR_def split: sum.split)

lemma bindR_eq_Inr_iff: "bindR r f = Inr y \<longleftrightarrow> (\<exists>x. r = Inr x \<and> f x = Inr y)"
  by (cases r) auto

section \<open>Unsigned words as natural numbers\<close>

lemma word_le_unat [word_nat]: "x \<le> y \<longleftrightarrow> unat x \<le> unat y" for x y :: "'a::len word"
  by (simp add: word_le_nat_alt)

lemma word_less_unat [word_nat]: "x < y \<longleftrightarrow> unat x < unat y" for x y :: "'a::len word"
  by (simp add: word_less_nat_alt)

lemma word_eq_unat: "x = y \<longleftrightarrow> unat x = unat y" for x y :: "'a::len word"
  by (rule word_unat_eq_iff)

lemma unat_eqI: "unat x = unat y \<Longrightarrow> x = y" for x y :: "'a::len word"
  by (simp add: word_eq_unat)

lemma unat_lt_64: "unat (x :: u64) < 18446744073709551616"
  using unsigned_less [of x] by simp

lemma unat_lt_32: "unat (x :: u32) < 4294967296"
  using unsigned_less [of x] by simp

lemma unat_lt_8: "unat (x :: u8) < 256"
  using unsigned_less [of x] by simp

text \<open>The largest 64-bit value; \<open>x + 1\<close> wraps there and nowhere else.\<close>

lemma unat_u64_max: "unat (- 1 :: u64) = 18446744073709551615"
  by (simp add: unsigned_minus_1_eq_mask mask_eq_exp_minus_1)

lemma unat_Suc: "x \<noteq> - 1 \<Longrightarrow> unat (x + 1) = Suc (unat x)" for x :: u64
  by (simp add: unatSuc add_eq_0_iff add.commute [of x] eq_commute [of _ "- 1"])

lemma less_not_max: "x < y \<Longrightarrow> x \<noteq> - 1" for x y :: u64
  using unat_lt_64 [of y] by (auto simp: word_less_unat unat_u64_max)

lemma unat_pred: "x \<noteq> 0 \<Longrightarrow> unat (x - 1) = unat x - 1" for x :: u64
  by (simp add: unat_minus_one)

lemma unat_diff_le: "y \<le> x \<Longrightarrow> unat (x - y) = unat x - unat y" for x y :: u64
  by (simp add: unat_sub)

lemma unat_range_len:
  fixes b e :: u64
  assumes "b \<noteq> 0" and "b \<le> e"
  shows "unat (e - b + 1) = unat e - unat b + 1"
proof -
  have "unat (e - b) = unat e - unat b"
    using assms(2) by (rule unat_diff_le)
  moreover have "0 < unat b"
    using assms(1) by (simp add: unat_gt_0)
  ultimately have "unat (e - b) < 18446744073709551615"
    using unat_lt_64 [of e] by linarith
  then have "e - b \<noteq> - 1"
    using unat_u64_max by force
  then show ?thesis
    using \<open>unat (e - b) = unat e - unat b\<close> by (simp add: unat_Suc)
qed

lemma unat_add_no_wrap:
  "unat x + unat y < 18446744073709551616 \<Longrightarrow> unat (x + y) = unat x + unat y" for x y :: u64
  by (simp add: unat_word_ariths)

lemma unat_mult_no_wrap:
  "unat x * unat y < 18446744073709551616 \<Longrightarrow> unat (x * y) = unat x * unat y" for x y :: u64
  by (simp add: unat_word_ariths)

lemma unat_of_nat_64 [simp]: "n < 18446744073709551616 \<Longrightarrow> unat (of_nat n :: u64) = n"
  by (simp add: unsigned_of_nat take_bit_eq_mod)

lemma unat_ucast_32_64 [simp]: "unat (ucast (x :: u32) :: u64) = unat x"
  by (simp add: unsigned_ucast_eq take_bit_nat_eq_self_iff less_trans [OF unat_lt_32])

lemma unat_ucast_8_64 [simp]: "unat (ucast (x :: u8) :: u64) = unat x"
  by (simp add: unsigned_ucast_eq take_bit_nat_eq_self_iff less_trans [OF unat_lt_8])

section \<open>Intervals of words\<close>

lemma unat_image_interval:
  fixes b e :: u64
  shows "unat ` {b..e} = {unat b..unat e}"
proof (rule equalityI; rule subsetI)
  fix n assume "n \<in> {unat b..unat e}"
  moreover from this have "n < 18446744073709551616"
    using unat_lt_64 [of e] by (simp only: atLeastAtMost_iff) linarith
  ultimately have "of_nat n \<in> {b..e}" and "unat (of_nat n :: u64) = n"
    by (simp_all add: word_nat)
  then show "n \<in> unat ` {b..e}"
    by (metis image_eqI)
qed (auto simp: word_nat)

lemma card_word_interval:
  fixes b e :: u64
  shows "card {b..e} = unat e + 1 - unat b"
proof -
  have "card {b..e} = card (unat ` {b..e})"
    by (rule card_image [symmetric]) (auto simp: inj_on_def intro: unat_eqI)
  then show ?thesis
    by (simp add: unat_image_interval)
qed

lemma interval_grow_left:
  fixes b e :: u64
  assumes "b \<noteq> 0" and "b \<le> e"
  shows "{b - 1..e} = insert (b - 1) {b..e}"
  using assms unat_pred [OF assms(1)] by (auto simp: word_nat intro!: unat_eqI)

lemma interval_grow_right:
  fixes b e :: u64
  assumes "e \<noteq> - 1" and "b \<le> e"
  shows "{b..e + 1} = insert (e + 1) {b..e}"
  using assms(2) unat_Suc [OF assms(1)] by (auto simp: word_nat intro!: unat_eqI)

lemma interval_shrink_left:
  fixes b e :: u64
  assumes "e \<noteq> - 1" and "b \<le> e"
  shows "{b + 1..e} = {b..e} - {b}"
proof -
  have "b \<noteq> - 1"
    using assms by (metis word_order.extremum_uniqueI)
  then show ?thesis
    using unat_Suc [of b] by (auto simp: word_nat intro!: unat_eqI)
qed

lemma interval_join:
  fixes b v e :: u64
  assumes "v \<noteq> - 1" and "b \<le> v" and "v + 1 \<le> e"
  shows "{b..v} \<union> {v + 1..e} = {b..e}"
  using assms(2,3) unat_Suc [OF assms(1)] by (auto simp: word_nat)

end
