(* ===== verification/Caslist.thy ===== *)
theory Caslist
  imports Prelude
begin

text \<open>
  The list of free identifiers of \<open>src/caslist.c\<close>: a chain of closed ranges of 64-bit
  identifiers, the first range in the list head. Identifier 0 means "none", and the head
  range \<open>[0, 0]\<close> marks the empty list. Every operation of the source takes the list's
  mutex on entry and drops it on exit, so an operation is one atomic step here.

  The theory holds the operations, the invariant \<open>caslist_wf\<close> (ranges ascending, not
  empty, separated by at least one identifier, the counter equal to the number of
  identifiers), the abstraction \<open>caslist_ids\<close> to a set of identifiers, and the contract
  \<open>id_pool\<close> that the allocation code of the store relies on, interpreted on these
  definitions.
\<close>

section \<open>The data structure and its operations\<close>

text \<open>\<open>caslist_link\<close> and \<open>caslist\<close>: the owned chain behind a \<open>next\<close> pointer is a list.\<close>

record caslist_link =
  lk_begin :: u64
  lk_end :: u64

record caslist =
  cl_size :: u64
  cl_begin :: u64
  cl_end :: u64
  cl_next :: "caslist_link list"

text \<open>\<open>caslist_new\<close>; \<open>malloc_ok\<close> tells whether \<open>malloc\<close> returns memory. \<open>None\<close> is NULL.\<close>

definition caslist_new :: "bool \<Rightarrow> u64 \<Rightarrow> u64 \<Rightarrow> caslist option" where
  "caslist_new malloc_ok b e =
     (if b > e \<or> (b = 0 \<and> e > 0) then None
      else if \<not> malloc_ok then None
      else Some \<lparr>cl_size = (if b = 0 \<and> e = 0 then 0 else e - b + 1),
                 cl_begin = b, cl_end = e, cl_next = []\<rparr>)"

text \<open>
  The body of \<open>caslist_pop\<close> between lock and unlock, on a list that is not empty: the
  value taken and the list left.
\<close>

definition caslist_pop_locked :: "caslist \<Rightarrow> u64 \<times> caslist" where
  "caslist_pop_locked l =
     (let v = cl_begin l;
          l1 = l\<lparr>cl_begin := cl_begin l + 1\<rparr>;
          l2 = (if cl_begin l1 > cl_end l1
                then (case cl_next l1 of
                        k # ks \<Rightarrow> l1\<lparr>cl_begin := lk_begin k, cl_end := lk_end k, cl_next := ks\<rparr>
                      | [] \<Rightarrow> l1\<lparr>cl_begin := 0, cl_end := 0\<rparr>)
                else l1)
      in (v, l2\<lparr>cl_size := cl_size l2 - 1\<rparr>))"

text \<open>
  \<open>caslist_pop\<close>: the list pointer may be NULL; the cell behind \<open>val\<close> is \<open>None\<close> for a
  NULL pointer. Returned are the status, the cell and the list.
\<close>

definition caslist_pop :: "caslist option \<Rightarrow> u64 option \<Rightarrow> u8 \<times> u64 option \<times> caslist option" where
  "caslist_pop list val =
     (case (list, val) of
        (Some l, Some _) \<Rightarrow>
          (if cl_begin l = 0 \<and> cl_end l = 0 then (1, Some 0, Some l)
           else (case caslist_pop_locked l of (v, l') \<Rightarrow> (0, Some v, Some l')))
      | _ \<Rightarrow> (1, val, list))"

text \<open>\<open>_caslist_put\<close>: on a link and the chain behind it; the chain returned starts at the link.\<close>

fun caslist_put :: "caslist_link \<Rightarrow> caslist_link list \<Rightarrow> u64 \<Rightarrow> bool \<times> caslist_link list" where
  "caslist_put k ks v =
     (if v \<ge> lk_begin k \<and> v \<le> lk_end k then (False, k # ks)
      else if v = lk_begin k - 1 then (True, k\<lparr>lk_begin := lk_begin k - 1\<rparr> # ks)
      else if v = lk_end k + 1 then
        (let k1 = k\<lparr>lk_end := lk_end k + 1\<rparr>
         in (case ks of
               [] \<Rightarrow> (True, [k1])
             | n # ns \<Rightarrow>
                 (if lk_end k1 + 1 = lk_begin n then (True, k1\<lparr>lk_end := lk_end n\<rparr> # ns)
                  else (True, k1 # n # ns))))
      else (case ks of
              [] \<Rightarrow> (True, [k, \<lparr>lk_begin = v, lk_end = v\<rparr>])
            | n # ns \<Rightarrow>
                (if v < lk_begin n - 1 then (True, k # \<lparr>lk_begin = v, lk_end = v\<rparr> # n # ns)
                 else (case caslist_put n ns v of (r, ks') \<Rightarrow> (r, k # ks')))))"

declare caslist_put.simps [simp del]

text \<open>The body of \<open>caslist_push\<close> between lock and unlock.\<close>

definition caslist_push_locked :: "caslist \<Rightarrow> u64 \<Rightarrow> caslist" where
  "caslist_push_locked l v =
     (if cl_begin l \<le> v \<and> cl_end l \<ge> v then l
      else if cl_begin l = 0 \<and> cl_end l = 0 then
        l\<lparr>cl_begin := v, cl_end := v, cl_size := cl_size l + 1\<rparr>
      else if v = cl_begin l - 1 then
        l\<lparr>cl_begin := cl_begin l - 1, cl_size := cl_size l + 1\<rparr>
      else if v = cl_end l + 1 then
        (let l1 = l\<lparr>cl_end := cl_end l + 1\<rparr>;
             l2 = (case cl_next l1 of
                     [] \<Rightarrow> l1
                   | n # ns \<Rightarrow>
                       (if cl_end l1 + 1 = lk_begin n
                        then l1\<lparr>cl_end := lk_end n, cl_next := ns\<rparr> else l1))
         in l2\<lparr>cl_size := cl_size l2 + 1\<rparr>)
      else if v < cl_begin l - 1 then
        l\<lparr>cl_next := \<lparr>lk_begin = cl_begin l, lk_end = cl_end l\<rparr> # cl_next l,
          cl_begin := v, cl_end := v, cl_size := cl_size l + 1\<rparr>
      else (case cl_next l of
              [] \<Rightarrow> l\<lparr>cl_next := [\<lparr>lk_begin = v, lk_end = v\<rparr>], cl_size := cl_size l + 1\<rparr>
            | n # ns \<Rightarrow>
                (if v < lk_begin n - 1 then
                   l\<lparr>cl_next := \<lparr>lk_begin = v, lk_end = v\<rparr> # n # ns, cl_size := cl_size l + 1\<rparr>
                 else (case caslist_put n ns v of
                         (True, ks) \<Rightarrow> l\<lparr>cl_next := ks, cl_size := cl_size l + 1\<rparr>
                       | (False, ks) \<Rightarrow> l\<lparr>cl_next := ks\<rparr>))))"

definition caslist_push :: "caslist option \<Rightarrow> u64 \<Rightarrow> caslist option" where
  "caslist_push list v =
     (case list of
        None \<Rightarrow> None
      | Some l \<Rightarrow> if v = 0 then Some l else Some (caslist_push_locked l v))"

text \<open>
  \<open>caslist_free\<close>: the loop releases the links one by one, then the head is released; NULL
  is ignored. Returned are the number of heap blocks released and the pointer left.
\<close>

fun free_links :: "caslist_link list \<Rightarrow> nat" where
  "free_links [] = 0"
| "free_links (link # rest) = Suc (free_links rest)"

definition caslist_free :: "caslist option \<Rightarrow> nat \<times> caslist option" where
  "caslist_free list =
     (case list of None \<Rightarrow> (0, None) | Some l \<Rightarrow> (Suc (free_links (cl_next l)), None))"

definition caslist_size :: "caslist option \<Rightarrow> u64" where
  "caslist_size list = (case list of None \<Rightarrow> 0 | Some l \<Rightarrow> cl_size l)"

section \<open>Invariant and abstraction\<close>

definition valid_id :: "u64 \<Rightarrow> bool" where
  "valid_id v \<longleftrightarrow> v \<noteq> 0 \<and> v \<noteq> - 1"

text \<open>\<open>chain_ok lo ks\<close>: ascending ranges, none below \<open>lo\<close>, a gap between any two of them.\<close>

fun chain_ok :: "nat \<Rightarrow> caslist_link list \<Rightarrow> bool" where
  "chain_ok lo [] \<longleftrightarrow> lo \<le> 2 ^ 64"
| "chain_ok lo (k # ks) \<longleftrightarrow>
     lo \<le> unat (lk_begin k) \<and> lk_begin k \<le> lk_end k \<and> chain_ok (unat (lk_end k) + 2) ks"

fun chain_ids :: "caslist_link list \<Rightarrow> u64 set" where
  "chain_ids [] = {}"
| "chain_ids (k # ks) = {lk_begin k..lk_end k} \<union> chain_ids ks"

fun chain_len :: "caslist_link list \<Rightarrow> nat" where
  "chain_len [] = 0"
| "chain_len (k # ks) = (unat (lk_end k) + 1 - unat (lk_begin k)) + chain_len ks"

text \<open>The head and the chain as one chain; the empty list is the empty chain.\<close>

definition caslist_chain :: "caslist \<Rightarrow> caslist_link list" where
  "caslist_chain l =
     (if cl_begin l = 0 \<and> cl_end l = 0 then cl_next l
      else \<lparr>lk_begin = cl_begin l, lk_end = cl_end l\<rparr> # cl_next l)"

definition caslist_ids :: "caslist \<Rightarrow> u64 set" where
  "caslist_ids l = chain_ids (caslist_chain l)"

definition caslist_wf :: "caslist \<Rightarrow> bool" where
  "caslist_wf l \<longleftrightarrow>
     (cl_begin l = 0 \<and> cl_end l = 0 \<longrightarrow> cl_next l = []) \<and>
     chain_ok 1 (caslist_chain l) \<and> unat (cl_size l) = chain_len (caslist_chain l)"

section \<open>Chains\<close>

lemma chain_ok_bound: "chain_ok lo ks \<Longrightarrow> lo \<le> 2 ^ 64"
  using unat_lt_64 [of "lk_begin (hd ks)"] by (cases ks) auto

lemma chain_ok_not_max: "chain_ok (unat e + 2) ks \<Longrightarrow> e \<noteq> - 1" for e :: u64
  using chain_ok_bound [of "unat e + 2" ks] by (auto simp: unat_u64_max)

lemma chain_ok_above: "chain_ok lo ks \<Longrightarrow> x \<in> chain_ids ks \<Longrightarrow> lo \<le> unat x"
  by (induction ks arbitrary: lo) (fastforce simp: word_nat)+

lemma finite_chain_ids [simp]: "finite (chain_ids ks)"
  by (induction ks) auto

lemma card_chain_ids: "chain_ok lo ks \<Longrightarrow> card (chain_ids ks) = chain_len ks"
proof (induction ks arbitrary: lo)
  case (Cons k ks)
  then have "{lk_begin k..lk_end k} \<inter> chain_ids ks = {}"
    by (fastforce simp: word_nat dest: chain_ok_above)
  moreover have "card (chain_ids ks) = chain_len ks"
    using Cons by auto
  ultimately show ?case
    by (simp add: card_Un_disjoint card_word_interval)
qed simp

text \<open>A range that ends at \<open>e\<close> grows by one: either it meets the next range or it may stay before it.\<close>

lemma chain_ok_grow:
  fixes e :: u64
  assumes "chain_ok (unat e + 2) ks" and "e + 1 \<noteq> - 1"
    and "\<forall>n ns. ks = n # ns \<longrightarrow> e + 1 + 1 \<noteq> lk_begin n"
  shows "chain_ok (unat (e + 1) + 2) ks"
proof -
  have e: "unat (e + 1) = Suc (unat e)" "unat (e + 1 + 1) = Suc (Suc (unat e))"
    using unat_Suc [OF chain_ok_not_max [OF assms(1)]] unat_Suc [OF assms(2)] by simp_all
  show ?thesis
  proof (cases ks)
    case Nil
    then show ?thesis
      using e(2) unat_lt_64 [of "e + 1 + 1"] by (simp add: e(1))
  next
    case (Cons n ns)
    then have "unat (lk_begin n) \<noteq> Suc (Suc (unat e))"
      using assms(3) e(2) by (metis unat_eqI)
    then show ?thesis
      using assms(1) Cons by (simp add: e(1))
  qed
qed

lemma chain_ok_gap:
  fixes v :: u64
  assumes ch: "chain_ok lo ks" and v: "v \<noteq> - 1" and nx: "\<forall>n ns. ks = n # ns \<longrightarrow> v < lk_begin n - 1"
    and pos: "0 < lo"
  shows "chain_ok (unat v + 2) ks"
proof (cases ks)
  case Nil
  then show ?thesis
    using unat_Suc [OF v] unat_lt_64 [of "v + 1"] by simp
next
  case (Cons n ns)
  then have "lk_begin n \<noteq> 0"
    using ch pos by auto
  then show ?thesis
    using Cons ch nx unat_pred [of "lk_begin n"] by (simp add: word_nat)
qed

text \<open>
  \<open>put_ok lo ks v r ks'\<close>: \<open>ks'\<close> is the chain \<open>ks\<close> (ranges from \<open>lo\<close> on) with the
  identifier \<open>v\<close> added, and \<open>r\<close> tells whether it was new. One lemma for each way in which
  the code adds an identifier.
\<close>

definition put_ok :: "nat \<Rightarrow> caslist_link list \<Rightarrow> u64 \<Rightarrow> bool \<Rightarrow> caslist_link list \<Rightarrow> bool" where
  "put_ok lo ks v r ks' \<longleftrightarrow> chain_ok lo ks' \<and> chain_ids ks' = insert v (chain_ids ks) \<and>
     (r \<longleftrightarrow> v \<notin> chain_ids ks) \<and> chain_len ks' = chain_len ks + (if r then 1 else 0)"

lemma put_ok_inside:
  assumes "chain_ok lo (k # ks)" and "lk_begin k \<le> v" and "v \<le> lk_end k"
  shows "put_ok lo (k # ks) v False (k # ks)"
  using assms by (auto simp: put_ok_def)

lemma put_ok_left:
  assumes ch: "chain_ok lo (k # ks)" and lo: "lo \<le> unat v" and v: "v = lk_begin k - 1"
    and pos: "0 < lo"
  shows "put_ok lo (k # ks) v True (k\<lparr>lk_begin := v\<rparr> # ks)"
proof -
  have b0: "lk_begin k \<noteq> 0"
    using ch pos by auto
  then have b: "lk_begin k \<noteq> 0" "lk_begin k \<le> lk_end k" "Suc (unat v) = unat (lk_begin k)"
    using ch v unat_pred [OF b0] pos by auto
  have ids: "{v..lk_end k} = insert v {lk_begin k..lk_end k}"
    unfolding v using b by (intro interval_grow_left)
  have new: "v \<notin> chain_ids (k # ks)"
    using b ch by (fastforce simp: word_nat dest: chain_ok_above)
  show ?thesis
    unfolding put_ok_def
  proof (intro conjI)
    show "chain_ids (k\<lparr>lk_begin := v\<rparr> # ks) = insert v (chain_ids (k # ks))"
      by (simp add: ids)
  qed (use b ch lo new in \<open>auto simp: word_nat\<close>)
qed

lemma put_ok_right:
  assumes ch: "chain_ok lo (k # ks)" and v: "v = lk_end k + 1" and "v \<noteq> - 1"
    and next_range: "\<forall>n ns. ks = n # ns \<longrightarrow> v + 1 \<noteq> lk_begin n"
  shows "put_ok lo (k # ks) v True (k\<lparr>lk_end := v\<rparr> # ks)"
proof -
  have ck: "chain_ok (unat (lk_end k) + 2) ks" and b: "lk_begin k \<le> lk_end k"
    using ch by simp_all
  note u = unat_Suc [OF chain_ok_not_max [OF ck], folded v]
  have ids: "{lk_begin k..v} = insert v {lk_begin k..lk_end k}"
    unfolding v using chain_ok_not_max [OF ck] b by (rule interval_grow_right)
  have new: "v \<notin> chain_ids (k # ks)"
    using u ck by (fastforce simp: word_nat dest: chain_ok_above)
  have "chain_ok (unat v + 2) ks"
    unfolding v using ck assms(3) next_range unfolding v by (rule chain_ok_grow)
  show ?thesis
    unfolding put_ok_def
  proof (intro conjI)
    show "chain_ids (k\<lparr>lk_end := v\<rparr> # ks) = insert v (chain_ids (k # ks))"
      by (simp add: ids)
  qed (use b u ch new \<open>chain_ok (unat v + 2) ks\<close> in \<open>auto simp: word_nat\<close>)
qed

lemma put_ok_merge:
  assumes ch: "chain_ok lo (k # n # ns)" and v: "v = lk_end k + 1" and "v \<noteq> - 1"
    and m: "v + 1 = lk_begin n"
  shows "put_ok lo (k # n # ns) v True (k\<lparr>lk_end := lk_end n\<rparr> # ns)"
proof -
  have ck: "chain_ok (unat (lk_end k) + 2) (n # ns)" and b: "lk_begin k \<le> lk_end k"
    using ch by simp_all
  note u = unat_Suc [OF chain_ok_not_max [OF ck], folded v] unat_Suc [OF assms(3), unfolded m]
  have "{lk_begin k..v} \<union> {lk_begin n..lk_end n} = {lk_begin k..lk_end n}"
    unfolding m [symmetric] using b u ck m by (intro interval_join assms(3)) (auto simp: word_nat)
  moreover have "{lk_begin k..v} = insert v {lk_begin k..lk_end k}"
    unfolding v using chain_ok_not_max [OF ck] b by (rule interval_grow_right)
  ultimately have ids: "{lk_begin k..lk_end n} =
      insert v ({lk_begin k..lk_end k} \<union> {lk_begin n..lk_end n})"
    by blast
  have new: "v \<notin> chain_ids (k # n # ns)"
    using u ck by (fastforce simp: word_nat dest: chain_ok_above)
  show ?thesis
    unfolding put_ok_def
  proof (intro conjI)
    show "chain_ids (k\<lparr>lk_end := lk_end n\<rparr> # ns) = insert v (chain_ids (k # n # ns))"
      by (simp add: ids Un_assoc)
  qed (use b u ch new in \<open>auto simp: word_nat\<close>)
qed

lemma put_ok_between:
  assumes ch: "chain_ok lo (k # ks)" and far: "unat (lk_end k) + 2 \<le> unat v" and v: "v \<noteq> - 1"
    and nx: "\<forall>n ns. ks = n # ns \<longrightarrow> v < lk_begin n - 1"
  shows "put_ok lo (k # ks) v True (k # \<lparr>lk_begin = v, lk_end = v\<rparr> # ks)"
proof -
  have cv: "chain_ok (unat v + 2) ks"
    using ch by (intro chain_ok_gap [OF _ v nx, of "unat (lk_end k) + 2"]) auto
  then have "v \<notin> chain_ids (k # ks)"
    using far by (fastforce simp: word_nat dest: chain_ok_above)
  then show ?thesis
    using cv ch far by (simp add: put_ok_def insert_commute Un_commute)
qed

lemma put_ok_Cons:
  assumes "chain_ok lo (k # ks)" and "unat (lk_end k) + 2 \<le> unat v" and "put_ok (unat (lk_end k) + 2) ks v r ks'"
  shows "put_ok lo (k # ks) v r (k # ks')"
  using assms by (auto simp: put_ok_def word_nat)

lemma past_range:
  assumes ch: "chain_ok lo (k # ks)" and ge: "lk_begin k - 1 \<le> v"
    and no: "\<not> (lk_begin k \<le> v \<and> v \<le> lk_end k)" "v \<noteq> lk_begin k - 1" "v \<noteq> lk_end k + 1"
    and pos: "0 < lo"
  shows "unat (lk_end k) + 2 \<le> unat v"
proof -
  have b0: "lk_begin k \<noteq> 0" and ck: "chain_ok (unat (lk_end k) + 2) ks"
    using ch pos by auto
  have "unat v \<noteq> unat (lk_begin k) - 1" and "unat v \<noteq> Suc (unat (lk_end k))"
    using no unat_pred [OF b0] unat_Suc [OF chain_ok_not_max [OF ck]] by (metis unat_eqI)+
  then show ?thesis
    using ge no(1) unat_pred [OF b0] by (auto simp: word_nat)
qed

text \<open>\<open>_caslist_put\<close> adds an identifier that is past the range before the link.\<close>

lemma caslist_put_ok:
  assumes "chain_ok lo (k # ks)" and "lo \<le> unat v" and "v \<noteq> - 1"
    and "lk_begin k - 1 \<le> v" and "caslist_put k ks v = (r, ks')" and "0 < lo"
  shows "put_ok lo (k # ks) v r ks'"
  using assms
proof (induction k ks v arbitrary: lo r ks' rule: caslist_put.induct)
  case (1 k ks v)
  note eq = "1.prems"(5) [symmetric, unfolded caslist_put.simps [of k]]
  consider (inside) "lk_begin k \<le> v \<and> v \<le> lk_end k"
    | (left) "v = lk_begin k - 1" "\<not> (lk_begin k \<le> v \<and> v \<le> lk_end k)"
    | (right) "v = lk_end k + 1" "v \<noteq> lk_begin k - 1" "\<not> (lk_begin k \<le> v \<and> v \<le> lk_end k)"
    | (far) "v \<noteq> lk_end k + 1" "v \<noteq> lk_begin k - 1" "\<not> (lk_begin k \<le> v \<and> v \<le> lk_end k)"
    by blast
  then show ?case
  proof cases
    case inside
    then show ?thesis
      using eq put_ok_inside [OF "1.prems"(1)] by simp
  next
    case left
    then show ?thesis
      using eq put_ok_left [OF "1.prems"(1,2) left(1) "1.prems"(6)] by (auto split: if_splits)
  next
    case right
    then show ?thesis
      using eq put_ok_right [OF "1.prems"(1) right(1) "1.prems"(3)]
        put_ok_merge [OF _ right(1) "1.prems"(3)] "1.prems"(1)
      by (auto simp: Let_def split: list.splits if_splits)
  next
    case far
    then have past: "unat (lk_end k) + 2 \<le> unat v"
      using past_range [OF "1.prems"(1,4) far(3,2,1) "1.prems"(6)] by blast
    show ?thesis
    proof (cases "\<forall>n ns. ks = n # ns \<longrightarrow> v < lk_begin n - 1")
      case True
      then show ?thesis
        using eq far put_ok_between [OF "1.prems"(1) past "1.prems"(3) True]
        by (auto split: list.splits)
    next
      case False
      then obtain n ns where ks: "ks = n # ns" and n: "\<not> v < lk_begin n - 1" by blast
      obtain r2 ks2 where rec: "caslist_put n ns v = (r2, ks2)" by fastforce
      have "put_ok (unat (lk_end k) + 2) (n # ns) v r2 ks2"
        using "1.IH" [OF far(3,2,1) ks n _ past "1.prems"(3) _ rec] "1.prems"(1) ks n
        by (simp add: not_less)
      then show ?thesis
        using put_ok_Cons [OF "1.prems"(1) past] eq far ks n rec by simp
    qed
  qed
qed

lemma put_ok_first:
  assumes ch: "chain_ok lo ks" and "lo \<le> unat v" and v: "v \<noteq> - 1" and pos: "0 < lo"
    and nx: "\<forall>n ns. ks = n # ns \<longrightarrow> v < lk_begin n - 1"
  shows "put_ok lo ks v True (\<lparr>lk_begin = v, lk_end = v\<rparr> # ks)"
proof -
  have "chain_ok (unat v + 2) ks"
    using ch v nx pos by (rule chain_ok_gap)
  moreover from this have "v \<notin> chain_ids ks"
    by (auto dest: chain_ok_above)
  ultimately show ?thesis
    using assms(2) by (simp add: put_ok_def)
qed

lemma chain_len_bound: "chain_ok lo ks \<Longrightarrow> lo + chain_len ks \<le> 2 ^ 64"
  by (induction ks arbitrary: lo) (fastforce simp: word_nat)+

section \<open>The operations keep the invariant and act on the set of identifiers\<close>

text \<open>What one call of \<open>caslist_push\<close> does to the chain and to the counter.\<close>

definition push_ok :: "caslist \<Rightarrow> u64 \<Rightarrow> caslist \<Rightarrow> bool" where
  "push_ok l v l' \<longleftrightarrow> \<not> (cl_begin l' = 0 \<and> cl_end l' = 0) \<and>
     (\<exists>r. put_ok 1 (caslist_chain l) v r (caslist_chain l') \<and>
        cl_size l' = cl_size l + (if r then 1 else 0))"

text \<open>
  On a list that is not empty, and unless the identifier lies before the first range, the
  code of \<open>caslist_push\<close> does to the head what \<open>_caslist_put\<close> does to a link.
\<close>

definition head_link :: "caslist \<Rightarrow> caslist_link" where
  "head_link l = \<lparr>lk_begin = cl_begin l, lk_end = cl_end l\<rparr>"

lemma caslist_chain_nonempty:
  "\<not> (cl_begin l = 0 \<and> cl_end l = 0) \<Longrightarrow> caslist_chain l = head_link l # cl_next l"
  by (simp only: caslist_chain_def head_link_def if_False)

lemma caslist_push_locked_put:
  assumes ne: "\<not> (cl_begin l = 0 \<and> cl_end l = 0)" and lt: "\<not> v < cl_begin l - 1"
    and put: "caslist_put (head_link l) (cl_next l) v = (r, ks')"
  shows "ks' \<noteq> [] \<and> caslist_push_locked l v =
    l\<lparr>cl_begin := lk_begin (hd ks'), cl_end := lk_end (hd ks'), cl_next := tl ks',
      cl_size := cl_size l + (if r then 1 else 0)\<rparr>"
proof (cases l)
  case (fields s b e nx)
  define h where "h = \<lparr>lk_begin = b, lk_end = e\<rparr>"
  have eq: "caslist_put h nx v = (r, ks')" "\<not> (b = 0 \<and> e = 0)" "\<not> v < b - 1"
    using ne lt put by (auto simp: fields head_link_def h_def)
  have h [simp]: "lk_begin h = b" "lk_end h = e"
    by (simp_all add: h_def)
  note defs = caslist_push_locked_def caslist_put.simps [of h] Let_def fields
  consider (inside) "b \<le> v \<and> v \<le> e"
    | (left) "v = b - 1" "\<not> (b \<le> v \<and> v \<le> e)"
    | (right) "v = e + 1" "v \<noteq> b - 1" "\<not> (b \<le> v \<and> v \<le> e)"
    | (far) "v \<noteq> e + 1" "v \<noteq> b - 1" "\<not> (b \<le> v \<and> v \<le> e)"
    by blast
  then show ?thesis
  proof cases
    case inside
    then show ?thesis using eq by (auto simp: defs)
  next
    case left
    then show ?thesis using eq by (auto simp: defs)
  next
    case right
    then show ?thesis using eq by (cases nx) (auto simp: defs split: if_splits)
  next
    case far
    then show ?thesis
      using eq by (cases nx) (auto simp: defs split: if_splits prod.splits bool.splits)
  qed
qed

lemma caslist_push_locked_ok:
  assumes wf: "caslist_wf l" and v: "valid_id v"
  shows "push_ok l v (caslist_push_locked l v)"
proof (cases "cl_begin l = 0 \<and> cl_end l = 0")
  case True
  then show ?thesis
    using v wf put_ok_first [of 1 "[]" v]
    by (auto simp: push_ok_def caslist_push_locked_def caslist_chain_def caslist_wf_def valid_id_def
        word_nat unat_gt_0 Suc_le_eq)
next
  case nonempty: False
  note chain = caslist_chain_nonempty [OF nonempty]
  have ch: "chain_ok 1 (head_link l # cl_next l)"
    using wf chain by (simp add: caslist_wf_def)
  show ?thesis
  proof (cases "v < cl_begin l - 1")
    case True
    have b: "cl_begin l \<noteq> 0" "cl_begin l \<le> cl_end l"
      using ch by (auto simp: head_link_def)
    have e: "cl_end l \<noteq> - 1"
      using ch chain_ok_not_max [of "cl_end l" "cl_next l"] by (simp add: head_link_def)
    have "v < cl_begin l" and "v \<noteq> cl_end l + 1"
      using True b unat_pred [OF b(1)] unat_Suc [OF e] by (auto simp: word_nat)
    then have push: "caslist_push_locked l v = l\<lparr>cl_next := head_link l # cl_next l,
        cl_begin := v, cl_end := v, cl_size := cl_size l + 1\<rparr>"
      using True b by (auto simp: caslist_push_locked_def head_link_def)
    have "put_ok 1 (caslist_chain l) v True (\<lparr>lk_begin = v, lk_end = v\<rparr> # caslist_chain l)"
      unfolding chain using True v
      by (intro put_ok_first [OF ch]) (auto simp: valid_id_def Suc_le_eq unat_gt_0 head_link_def)
    then show ?thesis
      using v unfolding push_ok_def
      by (intro conjI exI [of _ True])
        (simp_all add: push chain caslist_chain_nonempty head_link_def valid_id_def)
  next
    case False
    obtain r ks' where put: "caslist_put (head_link l) (cl_next l) v = (r, ks')" by fastforce
    have ok: "put_ok 1 (head_link l # cl_next l) v r ks'"
      using caslist_put_ok [OF ch _ _ _ put] v False
      by (auto simp: head_link_def valid_id_def not_less Suc_le_eq unat_gt_0)
    obtain h ks where ks': "ks' = h # ks" and push: "caslist_push_locked l v =
        l\<lparr>cl_begin := lk_begin h, cl_end := lk_end h, cl_next := ks,
          cl_size := cl_size l + (if r then 1 else 0)\<rparr>"
      using caslist_push_locked_put [OF nonempty False put] by (cases ks') auto
    have h: "\<not> (lk_begin h = 0 \<and> lk_end h = 0)"
      using ok ks' by (auto simp: put_ok_def)
    then have "caslist_chain (caslist_push_locked l v) = ks'"
      by (simp add: push ks' caslist_chain_nonempty head_link_def)
    then show ?thesis
      using ok h unfolding push_ok_def chain by (intro conjI exI [of _ r]) (simp_all add: push)
  qed
qed

lemma caslist_wf_push:
  assumes wf: "caslist_wf l" and "valid_id v"
  shows "caslist_wf (caslist_push_locked l v)"
    and "caslist_ids (caslist_push_locked l v) = insert v (caslist_ids l)"
proof -
  let ?l = "caslist_push_locked l v"
  obtain r where ne: "\<not> (cl_begin ?l = 0 \<and> cl_end ?l = 0)"
    and put: "put_ok 1 (caslist_chain l) v r (caslist_chain ?l)"
    and sz: "cl_size ?l = cl_size l + (if r then 1 else 0)"
    using caslist_push_locked_ok [OF assms] by (auto simp: push_ok_def)
  have len: "chain_len (caslist_chain ?l) = unat (cl_size l) + (if r then 1 else 0)"
    using put wf by (simp add: put_ok_def caslist_wf_def)
  have "1 + chain_len (caslist_chain ?l) \<le> 2 ^ 64"
    using put by (intro chain_len_bound) (simp add: put_ok_def)
  then have "unat (cl_size ?l) = chain_len (caslist_chain ?l)"
    unfolding sz len by (cases r) (simp_all add: unat_add_no_wrap)
  then show "caslist_wf ?l"
    using ne put by (auto simp: caslist_wf_def put_ok_def)
  show "caslist_ids ?l = insert v (caslist_ids l)"
    using put by (simp add: caslist_ids_def put_ok_def)
qed

lemma card_caslist_ids: "caslist_wf l \<Longrightarrow> card (caslist_ids l) = unat (cl_size l)"
  by (auto simp: caslist_wf_def caslist_ids_def card_chain_ids)

lemma caslist_ids_empty_iff:
  "caslist_wf l \<Longrightarrow> caslist_ids l = {} \<longleftrightarrow> cl_begin l = 0 \<and> cl_end l = 0"
  by (auto simp: caslist_wf_def caslist_ids_def caslist_chain_def)

lemma chain_ids_not_max: "chain_ok lo ks \<Longrightarrow> x \<in> chain_ids ks \<Longrightarrow> x \<noteq> - 1"
proof (induction ks arbitrary: lo)
  case (Cons k ks)
  then have "lk_end k \<noteq> - 1"
    by (intro chain_ok_not_max [of "lk_end k" ks]) simp
  then show ?case
    using Cons by (auto simp: word_order.extremum_unique)
qed simp

lemma valid_id_caslist_ids:
  assumes "caslist_wf l" and "v \<in> caslist_ids l"
  shows "valid_id v"
  using assms chain_ok_above [of 1 "caslist_chain l" v] chain_ids_not_max [of 1 "caslist_chain l" v]
  by (auto simp: caslist_wf_def caslist_ids_def valid_id_def)

text \<open>\<open>caslist_pop\<close> takes the first identifier off the chain.\<close>

lemma caslist_pop_locked_chain:
  assumes wf: "caslist_wf l" and ne: "\<not> (cl_begin l = 0 \<and> cl_end l = 0)"
  shows "caslist_chain (snd (caslist_pop_locked l)) =
    (if cl_begin l = cl_end l then cl_next l
     else (head_link l)\<lparr>lk_begin := cl_begin l + 1\<rparr> # cl_next l)" (is ?chain)
    and "cl_begin (snd (caslist_pop_locked l)) = 0 \<and> cl_end (snd (caslist_pop_locked l)) = 0 \<longrightarrow>
      cl_next (snd (caslist_pop_locked l)) = []" (is ?head)
proof -
  note chain = caslist_chain_nonempty [OF ne]
  have ch: "chain_ok 1 (head_link l # cl_next l)"
    using wf chain by (simp add: caslist_wf_def)
  then have b: "cl_begin l \<noteq> 0" "cl_begin l \<le> cl_end l"
    and ck: "chain_ok (unat (cl_end l) + 2) (cl_next l)"
    by (auto simp: head_link_def)
  have "cl_begin l \<noteq> - 1"
    using b chain_ok_not_max [OF ck] by (auto simp: word_order.extremum_unique)
  note u = unat_Suc [OF this]
  have "?chain \<and> ?head"
  proof (cases "cl_begin l = cl_end l")
    case True
    then show ?thesis
      using u ck by (cases "cl_next l")
        (auto simp: caslist_pop_locked_def Let_def word_nat caslist_chain_def)
  next
    case False
    then have "unat (cl_begin l) \<noteq> unat (cl_end l)"
      by (auto dest: unat_eqI)
    then have "\<not> cl_end l < cl_begin l + 1"
      using b u by (simp add: word_nat)
    then show ?thesis
      using False u by (auto simp: caslist_pop_locked_def Let_def caslist_chain_def head_link_def)
  qed
  then show ?chain and ?head by simp_all
qed

lemma chain_ok_mono: "chain_ok lo ks \<Longrightarrow> lo' \<le> lo \<Longrightarrow> chain_ok lo' ks"
  by (cases ks) auto

lemma chain_drop_range:
  assumes "chain_ok 1 (k # ks)" and "lk_begin k = lk_end k"
  shows "chain_ok 1 ks \<and> chain_ids ks = chain_ids (k # ks) - {lk_begin k} \<and>
    Suc (chain_len ks) = chain_len (k # ks)"
  using assms chain_ok_above [of "unat (lk_end k) + 2" ks "lk_end k"]
  by (auto intro: chain_ok_mono)

lemma chain_drop_one:
  assumes ch: "chain_ok 1 (k # ks)" and ne: "lk_begin k \<noteq> lk_end k"
  defines "k' \<equiv> k\<lparr>lk_begin := lk_begin k + 1\<rparr>"
  shows "chain_ok 1 (k' # ks) \<and> chain_ids (k' # ks) = chain_ids (k # ks) - {lk_begin k} \<and>
    Suc (chain_len (k' # ks)) = chain_len (k # ks)"
proof -
  have ck: "chain_ok (unat (lk_end k) + 2) ks" and b: "lk_begin k \<le> lk_end k"
    using ch by simp_all
  note e = chain_ok_not_max [OF ck]
  have "lk_begin k \<noteq> - 1"
    using b e by (auto simp: word_order.extremum_unique)
  note u = unat_Suc [OF this]
  have lt: "unat (lk_begin k) < unat (lk_end k)"
    using ne b by (auto simp: word_nat dest: unat_eqI intro!: le_neq_implies_less)
  have "lk_begin k \<notin> chain_ids ks"
    using chain_ok_above [OF ck, of "lk_begin k"] b by (auto simp: word_nat)
  then have "chain_ids (k' # ks) = chain_ids (k # ks) - {lk_begin k}"
    using interval_shrink_left [OF e b] by (auto simp: k'_def)
  then show ?thesis
    using ch ck u lt by (auto simp: k'_def word_nat)
qed

lemma caslist_pop_locked_ok:
  assumes wf: "caslist_wf l" and ne: "\<not> (cl_begin l = 0 \<and> cl_end l = 0)"
  shows "caslist_wf (snd (caslist_pop_locked l))"
    and "caslist_ids (snd (caslist_pop_locked l)) = caslist_ids l - {cl_begin l}"
    and "cl_begin l \<in> caslist_ids l" and "\<forall>x\<in>caslist_ids l. cl_begin l \<le> x"
proof -
  let ?l = "snd (caslist_pop_locked l)"
  note chain = caslist_chain_nonempty [OF ne]
  have ch: "chain_ok 1 (head_link l # cl_next l)"
    and len: "unat (cl_size l) = chain_len (head_link l # cl_next l)"
    using wf chain by (simp_all add: caslist_wf_def)
  have pop: "chain_ok 1 (caslist_chain ?l) \<and>
      chain_ids (caslist_chain ?l) = chain_ids (caslist_chain l) - {cl_begin l} \<and>
      Suc (chain_len (caslist_chain ?l)) = chain_len (caslist_chain l)"
    using chain_drop_range [OF ch] chain_drop_one [OF ch]
    unfolding caslist_pop_locked_chain(1) [OF wf ne] chain
    by (cases "cl_begin l = cl_end l") (simp_all only: head_link_def caslist_link.simps if_True if_False simp_thms)
  then have sz: "unat (cl_size l) = Suc (chain_len (caslist_chain ?l))"
    using len unfolding chain by linarith
  then have "cl_size l \<noteq> 0"
    by (metis unat_0 nat.distinct(1))
  moreover have "cl_size ?l = cl_size l - 1"
    by (auto simp: caslist_pop_locked_def Let_def split: list.splits)
  ultimately have "unat (cl_size ?l) = chain_len (caslist_chain ?l)"
    using sz unat_pred [of "cl_size l"] by simp
  moreover have "cl_begin ?l = 0 \<and> cl_end ?l = 0 \<longrightarrow> cl_next ?l = []"
    by (rule caslist_pop_locked_chain(2) [OF wf ne])
  ultimately show "caslist_wf ?l"
    using pop by (simp add: caslist_wf_def)
  show "caslist_ids ?l = caslist_ids l - {cl_begin l}"
    using pop by (simp add: caslist_ids_def)
  show "cl_begin l \<in> caslist_ids l" and "\<forall>x\<in>caslist_ids l. cl_begin l \<le> x"
    using ch by (auto simp: caslist_ids_def chain head_link_def word_nat dest!: chain_ok_above)
qed

subsection \<open>The representation is canonical\<close>

lemma chain_first_least: "chain_ok lo (k # ks) \<Longrightarrow> x \<in> chain_ids (k # ks) \<Longrightarrow> lk_begin k \<le> x"
  by (auto simp: word_nat dest!: chain_ok_above)

lemma chain_first_end:
  assumes ch: "chain_ok lo (k # ks)" and ch': "chain_ok lo' (k' # ks')"
    and ids: "chain_ids (k # ks) \<subseteq> chain_ids (k' # ks')" and b: "lk_begin k' = lk_begin k"
  shows "lk_end k \<le> lk_end k'"
proof (rule ccontr)
  assume "\<not> lk_end k \<le> lk_end k'"
  have ck: "chain_ok (unat (lk_end k') + 2) ks'"
    using ch' by simp
  note u = unat_Suc [OF chain_ok_not_max [OF ck]]
  have "lk_end k' + 1 \<in> {lk_begin k..lk_end k}"
    using \<open>\<not> lk_end k \<le> lk_end k'\<close> u ch' b [symmetric] by (simp add: word_nat)
  then have "lk_end k' + 1 \<in> chain_ids (k' # ks')"
    using ids by auto
  then show False
    using u chain_ok_above [OF ck] by (fastforce simp: word_nat)
qed

lemma chain_rest:
  assumes "chain_ok lo (k # ks)"
  shows "chain_ids ks = chain_ids (k # ks) - {lk_begin k..lk_end k}"
proof -
  have "x \<notin> {lk_begin k..lk_end k}" if "x \<in> chain_ids ks" for x
    using chain_ok_above [OF _ that, of "unat (lk_end k) + 2"] assms by (simp add: word_nat)
  then show ?thesis by auto
qed

lemma chain_canonical:
  "chain_ok lo ks \<Longrightarrow> chain_ok lo' ks' \<Longrightarrow> chain_ids ks = chain_ids ks' \<Longrightarrow> ks = ks'"
proof (induction ks arbitrary: ks' lo lo')
  case Nil
  then show ?case by (cases ks') auto
next
  case (Cons k ks)
  then obtain k' js where ks': "ks' = k' # js"
    by (cases ks') auto
  have ch: "chain_ok lo (k # ks)" and ch': "chain_ok lo' (k' # js)"
    and ids: "chain_ids (k # ks) = chain_ids (k' # js)"
    using Cons.prems ks' by simp_all
  have "lk_begin k \<in> chain_ids (k # ks)" and "lk_begin k' \<in> chain_ids (k' # js)"
    using ch ch' by auto
  then have b: "lk_begin k = lk_begin k'"
    using chain_first_least [OF ch] chain_first_least [OF ch'] ids by (metis order_antisym)
  then have e: "lk_end k = lk_end k'"
    by (intro order_antisym chain_first_end [OF ch ch'] chain_first_end [OF ch' ch])
      (simp_all only: ids order_refl)
  have "chain_ids ks = chain_ids (k # ks) - {lk_begin k..lk_end k}"
    using ch by (rule chain_rest)
  also have "\<dots> = chain_ids (k' # js) - {lk_begin k'..lk_end k'}"
    using ids b e by simp
  also have "\<dots> = chain_ids js"
    using ch' by (rule chain_rest [symmetric])
  finally have "ks = js"
    using ch ch' Cons.IH by (metis chain_ok.simps(2))
  then show ?case
    using b e ks' by simp
qed

lemma caslist_canonical:
  assumes "caslist_wf l" and "caslist_wf l'" and "caslist_ids l = caslist_ids l'"
  shows "l = l'"
proof -
  have "caslist_chain l = caslist_chain l'"
    using assms chain_canonical unfolding caslist_wf_def caslist_ids_def by blast
  moreover from this have "cl_size l = cl_size l'"
    using assms by (simp add: caslist_wf_def unat_eqI)
  ultimately show ?thesis
    using assms(1,2) by (cases l; cases l') (auto simp: caslist_wf_def caslist_chain_def split: if_splits)
qed

section \<open>The contract of a pool of identifiers\<close>

text \<open>
  What the store and the transaction log rely on when they keep free blocks, found objects
  and transaction slots in such a list: a finite set of identifiers, \<open>push\<close> adds one,
  \<open>pop\<close> takes the least, and the representation depends on the set alone.
\<close>

primrec push_all :: "('p \<Rightarrow> 'i \<Rightarrow> 'p) \<Rightarrow> 'p \<Rightarrow> 'i list \<Rightarrow> 'p" where
  "push_all push p [] = p"
| "push_all push p (i # is) = push_all push (push p i) is"

primrec drain :: "('p \<Rightarrow> ('i \<times> 'p) option) \<Rightarrow> nat \<Rightarrow> 'p \<Rightarrow> 'i list" where
  "drain pop 0 p = []"
| "drain pop (Suc n) p = (case pop p of None \<Rightarrow> [] | Some (i, q) \<Rightarrow> i # drain pop n q)"

locale id_pool =
  fixes invar :: "'p \<Rightarrow> bool" and ids :: "'p \<Rightarrow> 'i::linorder set" and ok :: "'i \<Rightarrow> bool"
    and push :: "'p \<Rightarrow> 'i \<Rightarrow> 'p" and pop :: "'p \<Rightarrow> ('i \<times> 'p) option"
  assumes finite_ids: "invar p \<Longrightarrow> finite (ids p)"
    and ids_ok: "invar p \<Longrightarrow> i \<in> ids p \<Longrightarrow> ok i"
    and push_invar: "invar p \<Longrightarrow> ok i \<Longrightarrow> invar (push p i)"
    and push_ids: "invar p \<Longrightarrow> ok i \<Longrightarrow> ids (push p i) = insert i (ids p)"
    and pop_None: "invar p \<Longrightarrow> pop p = None \<longleftrightarrow> ids p = {}"
    and pop_invar: "invar p \<Longrightarrow> pop p = Some (i, q) \<Longrightarrow> invar q"
    and pop_ids: "invar p \<Longrightarrow> pop p = Some (i, q) \<Longrightarrow> ids q = ids p - {i}"
    and pop_least: "invar p \<Longrightarrow> pop p = Some (i, q) \<Longrightarrow> i \<in> ids p \<and> (\<forall>x\<in>ids p. i \<le> x)"
    and canonical: "invar p \<Longrightarrow> invar q \<Longrightarrow> ids p = ids q \<Longrightarrow> p = q"
begin

lemma push_all_pool:
  "invar p \<Longrightarrow> \<forall>i\<in>set is. ok i \<Longrightarrow>
    invar (push_all push p is) \<and> ids (push_all push p is) = ids p \<union> set is"
  by (induction "is" arbitrary: p) (auto simp: push_invar push_ids)

lemma push_all_order_irrelevant:
  assumes "invar p" and "\<forall>i\<in>set is. ok i" and "set is = set js"
  shows "push_all push p is = push_all push p js"
  using push_all_pool [OF assms(1), of "is"] push_all_pool [OF assms(1), of js] assms(2,3)
  by (intro canonical) auto

lemma push_pop_round_trip:
  assumes "invar p" and "pop p = Some (i, q)"
  shows "push q i = p"
proof -
  have "ok i" and "invar q" and "ids q = ids p - {i}" and "i \<in> ids p"
    using assms ids_ok pop_least pop_invar pop_ids by blast+
  then show ?thesis
    using assms(1) by (intro canonical) (auto simp: push_invar push_ids)
qed

lemma drain_sorted:
  "invar p \<Longrightarrow> card (ids p) \<le> n \<Longrightarrow> drain pop n p = sorted_list_of_set (ids p)"
proof (induction n arbitrary: p)
  case 0
  then show ?case
    using finite_ids by auto
next
  case (Suc n)
  show ?case
  proof (cases "pop p")
    case None
    then show ?thesis
      using pop_None [OF Suc.prems(1)] by simp
  next
    case (Some r)
    obtain i q where pop: "pop p = Some (i, q)"
      using Some by (cases r) auto
    note least = pop_least [OF Suc.prems(1) pop] and fin = finite_ids [OF Suc.prems(1)]
    have "i = Min (ids p)"
      using least fin by (intro Min_eqI [symmetric]) auto
    moreover have "ids p \<noteq> {}"
      using least by auto
    ultimately have "sorted_list_of_set (ids p) = i # sorted_list_of_set (ids p - {i})"
      using fin by (simp add: sorted_list_of_set_nonempty)
    moreover have "card (ids q) \<le> n"
      using Suc.prems(2) least fin by (simp add: pop_ids [OF Suc.prems(1) pop])
    ultimately show ?thesis
      using Suc.IH [OF pop_invar [OF Suc.prems(1) pop]] pop_ids [OF Suc.prems(1) pop]
      by (simp add: pop)
  qed
qed

end

text \<open>\<open>caslist_pop\<close> as the contract has it: \<open>None\<close> when the list is empty.\<close>

definition caslist_take :: "caslist \<Rightarrow> (u64 \<times> caslist) option" where
  "caslist_take l =
     (case caslist_pop (Some l) (Some 0) of
        (st, Some v, Some l') \<Rightarrow> if st = 0 then Some (v, l') else None
      | _ \<Rightarrow> None)"

lemma caslist_take_eq:
  "caslist_take l =
     (if cl_begin l = 0 \<and> cl_end l = 0 then None
      else Some (cl_begin l, snd (caslist_pop_locked l)))"
  by (simp add: caslist_take_def caslist_pop_def caslist_pop_locked_def Let_def)

interpretation cas: id_pool caslist_wf caslist_ids valid_id caslist_push_locked caslist_take
proof unfold_locales
  fix p q :: caslist and i :: u64
  assume "caslist_wf p"
  then show "finite (caslist_ids p)"
    by (simp add: caslist_ids_def)
  show "caslist_take p = None \<longleftrightarrow> caslist_ids p = {}"
    using \<open>caslist_wf p\<close> by (simp add: caslist_take_eq caslist_ids_empty_iff)
  assume "caslist_take p = Some (i, q)"
  then show "caslist_wf q" and "caslist_ids q = caslist_ids p - {i}"
    and "i \<in> caslist_ids p \<and> (\<forall>x\<in>caslist_ids p. i \<le> x)"
    using caslist_pop_locked_ok [OF \<open>caslist_wf p\<close>] by (auto simp: caslist_take_eq split: if_splits)
qed (auto simp: caslist_wf_push valid_id_caslist_ids intro: caslist_canonical)

section \<open>Properties\<close>

lemmas caslist_eval = caslist_new_def caslist_push_def caslist_push_locked_def caslist_put.simps
  caslist_wf_def caslist_chain_def

text \<open>
  C25: \<open>caslist_push\<close> on a well-formed list adds exactly the given identifier (0 is ignored),
  keeps the ranges ascending, disjoint and separated, and keeps the counter equal to the
  number of identifiers, whichever of the code's branches it takes.
\<close>

theorem caslist_push_adds:
  assumes "caslist_wf l" and "v \<noteq> - 1"
  shows "\<exists>l'. caslist_push (Some l) v = Some l' \<and> caslist_wf l' \<and>
    caslist_ids l' = (if v = 0 then caslist_ids l else insert v (caslist_ids l)) \<and>
    unat (caslist_size (Some l')) = card (caslist_ids l')"
proof (cases "v = 0")
  case True
  then show ?thesis
    using assms(1) by (simp add: caslist_push_def caslist_size_def card_caslist_ids)
next
  case False
  then have "valid_id v"
    using assms(2) by (simp add: valid_id_def)
  then show ?thesis
    using False caslist_wf_push [OF assms(1)] card_caslist_ids [of "caslist_push_locked l v"]
    by (simp add: caslist_push_def caslist_size_def)
qed

theorem caslist_push_adds_witness:
  "\<exists>l'. caslist_push (caslist_push (caslist_push (caslist_new True 1 5) 7) 9) 8 = Some l' \<and>
    caslist_ids l' = insert 8 ({1..5} \<union> {7..7} \<union> {9..9})"
proof -
  let ?l = "\<lparr>cl_size = 7, cl_begin = 1, cl_end = 5,
    cl_next = [\<lparr>lk_begin = 7, lk_end = 7\<rparr>, \<lparr>lk_begin = 9, lk_end = 9\<rparr>]\<rparr>"
  have l: "caslist_push (caslist_push (caslist_new True 1 5) 7) 9 = Some ?l"
    by (simp add: caslist_eval)
  have wf: "caslist_wf ?l"
    by (simp add: caslist_eval)
  have ids: "caslist_ids ?l = {1..5} \<union> {7..7} \<union> {9..9}"
    by (auto simp: caslist_ids_def caslist_chain_def)
  show ?thesis
    using caslist_push_adds [OF wf, of 8] unfolding ids l by auto
qed

text \<open>
  C26: \<open>caslist_pop\<close> on a well-formed list returns the least identifier and removes it, and
  reports failure with the value 0 exactly when the list is empty.
\<close>

theorem caslist_pop_takes_least:
  assumes "caslist_wf l"
  shows "if caslist_ids l = {} then caslist_pop (Some l) (Some x) = (1, Some 0, Some l)
    else \<exists>l'. caslist_pop (Some l) (Some x) = (0, Some (Min (caslist_ids l)), Some l') \<and>
      caslist_wf l' \<and> caslist_ids l' = caslist_ids l - {Min (caslist_ids l)}"
proof (cases "cl_begin l = 0 \<and> cl_end l = 0")
  case True
  then show ?thesis
    using assms by (simp add: caslist_pop_def caslist_ids_empty_iff)
next
  case False
  note ok = caslist_pop_locked_ok [OF assms False]
  have "Min (caslist_ids l) = cl_begin l"
    using ok(3,4) cas.finite_ids [OF assms] by (intro Min_eqI) auto
  moreover have "caslist_pop (Some l) (Some x) = (0, Some (cl_begin l), Some (snd (caslist_pop_locked l)))"
    using False by (simp add: caslist_pop_def caslist_pop_locked_def Let_def)
  ultimately show ?thesis
    using ok by auto
qed

theorem caslist_pop_takes_least_witness:
  "\<exists>l'. caslist_pop (caslist_new True 4 6) (Some 0) = (0, Some (Min {4..6}), Some l') \<and>
    caslist_ids l' = {4..6} - {Min {4..6}}"
proof -
  let ?l = "\<lparr>cl_size = 3, cl_begin = 4, cl_end = 6, cl_next = []\<rparr>"
  have l: "caslist_new True 4 6 = Some ?l" and wf: "caslist_wf ?l"
    by (simp_all add: caslist_eval)
  have ids: "caslist_ids ?l = {4..6}" and ne: "{4..6::u64} \<noteq> {}"
    by (simp_all add: caslist_ids_def caslist_chain_def)
  show ?thesis
    using caslist_pop_takes_least [OF wf, of 0] unfolding ids l by (simp only: ne if_False) blast
qed

text \<open>
  C27: the list that a series of calls to \<open>caslist_push\<close> builds does not depend on their
  order or on repetitions: any two series with the same identifiers leave the same list,
  link for link. This is what makes the outcome of pushes from several threads, each atomic
  under the list's mutex, independent of their interleaving.
\<close>

theorem caslist_push_order_irrelevant:
  assumes "caslist_wf l" and "\<forall>v\<in>set vs. valid_id v" and "set vs = set ws"
  shows "push_all caslist_push (Some l) vs = push_all caslist_push (Some l) ws"
proof -
  have push: "push_all caslist_push (Some m) us = Some (push_all caslist_push_locked m us)"
    if "\<forall>v\<in>set us. valid_id v" for m us
    using that by (induction us arbitrary: m) (auto simp: caslist_push_def valid_id_def)
  show ?thesis
    using cas.push_all_order_irrelevant [OF assms] assms(2,3) by (simp add: push)
qed

theorem caslist_push_order_irrelevant_witness:
  "push_all caslist_push (caslist_new True 1 5) [7, 9, 8, 11, 13, 12, 10] =
   push_all caslist_push (caslist_new True 1 5) [13, 12, 11, 10, 9, 8, 7, 13]"
proof -
  let ?l = "\<lparr>cl_size = 5, cl_begin = 1, cl_end = 5, cl_next = []\<rparr>"
  have l: "caslist_new True 1 5 = Some ?l" and wf: "caslist_wf ?l"
    by (simp_all add: caslist_eval)
  show ?thesis
    unfolding l
    by (rule caslist_push_order_irrelevant [OF wf]) (auto simp: valid_id_def)
qed

text \<open>
  \<open>caslist_new\<close> returns NULL exactly for a descending range, for a range that starts at
  the reserved identifier 0 and is not \<open>[0, 0]\<close>, and when there is no memory; otherwise the
  list is well-formed and holds the identifiers of the range (none for \<open>[0, 0]\<close>).
\<close>

lemma caslist_new_spec:
  assumes "e \<noteq> - 1"
  shows "case caslist_new malloc_ok b e of
      None \<Rightarrow> e < b \<or> (b = 0 \<and> 0 < e) \<or> \<not> malloc_ok
    | Some l \<Rightarrow> caslist_wf l \<and> b \<le> e \<and> malloc_ok \<and> (b = 0 \<longleftrightarrow> e = 0) \<and>
        caslist_ids l = {b..e} - {0}"
proof (cases "b = 0")
  case True
  then show ?thesis
    using word_gt_0 [of e] by (auto simp: caslist_new_def caslist_wf_def caslist_chain_def caslist_ids_def)
next
  case False
  then have "0 < unat b"
    by (simp add: unat_gt_0)
  moreover have "Suc (Suc (unat e)) \<le> 2 ^ 64"
    using unat_Suc [OF assms] unat_lt_64 [of "e + 1"] by simp
  ultimately show ?thesis
    using False unat_range_len [OF False, of e]
    by (auto simp: caslist_new_def caslist_wf_def caslist_chain_def caslist_ids_def word_nat
        Suc_le_eq not_less)
qed

end
