(* ===== verification/Cmem.thy ===== *)
theory Cmem
  imports Prelude
begin

text \<open>
  The memory of the process as the C code sees it: bytes at addresses, with the mapped pool
  and the client's buffers in one address space. A pointer is a natural number below
  \<open>2 ^ 64\<close>, NULL is 0. Integers are stored little-endian and structures have the layout of
  the x86-64 ABI that the library is built for: \<open>uint32_t\<close> and enumerations take 4 bytes,
  \<open>uint64_t\<close> and \<open>size_t\<close> 8 bytes, each aligned to its size.

  The contract \<open>field_access\<close> states what a read of a field returns after a write; it is
  interpreted on the 4-byte and the 8-byte accesses.
\<close>

unbundle bit_operations_syntax

type_synonym ptr = nat
type_synonym memory = "nat \<Rightarrow> u8"

definition NULL :: ptr where
  "NULL = 0"

text \<open>Pointer plus 64-bit integer: the sum wraps at \<open>2 ^ 64\<close>.\<close>

definition ptr_add :: "ptr \<Rightarrow> u64 \<Rightarrow> ptr" where
  "ptr_add p x = (p + unat x) mod 2 ^ 64"

lemma ptr_add_no_wrap: "p + unat x < 2 ^ 64 \<Longrightarrow> ptr_add p x = p + unat x"
  by (simp add: ptr_add_def)

lemma ptr_add_bound: "ptr_add p x < 2 ^ 64"
  by (simp add: ptr_add_def)

section \<open>Runs of bytes\<close>

definition ld_bytes :: "memory \<Rightarrow> ptr \<Rightarrow> nat \<Rightarrow> u8 list" where
  "ld_bytes m p n = map (\<lambda>i. m (p + i)) [0..<n]"

definition st_bytes :: "memory \<Rightarrow> ptr \<Rightarrow> u8 list \<Rightarrow> memory" where
  "st_bytes m p bs = (\<lambda>a. if p \<le> a \<and> a < p + length bs then bs ! (a - p) else m a)"

text \<open>The C library's \<open>memcpy\<close> and \<open>memset\<close>.\<close>

definition memcpy :: "memory \<Rightarrow> ptr \<Rightarrow> ptr \<Rightarrow> nat \<Rightarrow> memory" where
  "memcpy m dest src n = st_bytes m dest (ld_bytes m src n)"

definition memset :: "memory \<Rightarrow> ptr \<Rightarrow> u8 \<Rightarrow> nat \<Rightarrow> memory" where
  "memset m p c n = (\<lambda>a. if p \<le> a \<and> a < p + n then c else m a)"

lemma length_ld_bytes [simp]: "length (ld_bytes m p n) = n"
  by (simp add: ld_bytes_def)

lemma nth_ld_bytes [simp]: "i < n \<Longrightarrow> ld_bytes m p n ! i = m (p + i)"
  by (simp add: ld_bytes_def)

lemma st_bytes_inside: "p \<le> a \<Longrightarrow> a < p + length bs \<Longrightarrow> st_bytes m p bs a = bs ! (a - p)"
  by (simp add: st_bytes_def)

lemma st_bytes_outside: "a < p \<or> p + length bs \<le> a \<Longrightarrow> st_bytes m p bs a = m a"
  by (auto simp: st_bytes_def)

lemma ld_bytes_st_bytes [simp]: "n = length bs \<Longrightarrow> ld_bytes (st_bytes m p bs) p n = bs"
  by (rule nth_equalityI) (simp_all add: st_bytes_inside)

text \<open>Two memories that agree on the \<open>n\<close> bytes at \<open>p\<close>.\<close>

definition same_on :: "ptr \<Rightarrow> nat \<Rightarrow> memory \<Rightarrow> memory \<Rightarrow> bool" where
  "same_on p n m m' \<longleftrightarrow> (\<forall>a. p \<le> a \<and> a < p + n \<longrightarrow> m a = m' a)"

lemma same_on_refl [simp]: "same_on p n m m"
  by (simp add: same_on_def)

lemma same_on_sym: "same_on p n m m' \<Longrightarrow> same_on p n m' m"
  by (simp add: same_on_def)

lemma same_on_trans: "same_on p n m m' \<Longrightarrow> same_on p n m' m'' \<Longrightarrow> same_on p n m m''"
  by (simp add: same_on_def)

lemma same_on_sub: "same_on p n m m' \<Longrightarrow> p \<le> q \<Longrightarrow> q + k \<le> p + n \<Longrightarrow> same_on q k m m'"
  by (auto simp: same_on_def)

lemma same_on_0 [simp]: "same_on p 0 m m'"
  by (auto simp: same_on_def)

lemma same_on_st_bytes: "q + n \<le> p \<or> p + length bs \<le> q \<Longrightarrow> same_on q n (st_bytes m p bs) m"
  by (auto simp: same_on_def st_bytes_def)

lemma same_on_memset: "q + n \<le> p \<or> p + k \<le> q \<Longrightarrow> same_on q n (memset m p c k) m"
  by (auto simp: same_on_def memset_def)

lemma same_on_memcpy: "q + n \<le> p \<or> p + k \<le> q \<Longrightarrow> same_on q n (memcpy m p s k) m"
  unfolding memcpy_def by (rule same_on_st_bytes) simp

lemma ld_bytes_cong: "same_on p n m m' \<Longrightarrow> ld_bytes m p n = ld_bytes m' p n"
  by (rule nth_equalityI) (simp_all add: same_on_def)

lemma ld_bytes_append: "ld_bytes m p (n + k) = ld_bytes m p n @ ld_bytes m (p + n) k"
  by (rule nth_equalityI) (auto simp: nth_append)

lemma ld_bytes_memcpy [simp]: "ld_bytes (memcpy m p q n) p n = ld_bytes m q n"
  by (simp add: memcpy_def)

lemma ld_bytes_memset [simp]: "p \<le> q \<Longrightarrow> q + n \<le> p + k \<Longrightarrow> ld_bytes (memset m p c k) q n = replicate n c"
  by (rule nth_equalityI) (simp_all add: memset_def)

section \<open>Little-endian integers\<close>

primrec le_enc :: "nat \<Rightarrow> 'a::len word \<Rightarrow> u8 list" where
  "le_enc 0 w = []"
| "le_enc (Suc n) w = ucast w # le_enc n (drop_bit 8 w)"

primrec le_dec :: "u8 list \<Rightarrow> 'a::len word" where
  "le_dec [] = 0"
| "le_dec (b # bs) = ucast b OR push_bit 8 (le_dec bs)"

lemma length_le_enc [simp]: "length (le_enc n w) = n"
  by (induction n arbitrary: w) simp_all

lemma le_dec_le_enc: "le_dec (le_enc n w) = take_bit (8 * n) w"
proof (induction n arbitrary: w)
  case (Suc n)
  have "ucast (ucast w :: u8) OR push_bit 8 (take_bit (8 * n) (drop_bit 8 w)) = take_bit (8 * Suc n) w"
    by (rule bit_word_eqI) (auto simp: bit_simps)
  then show ?case
    by (simp add: Suc)
qed simp

lemma le_dec_zeros [simp]: "le_dec (replicate n 0) = 0"
  by (induction n) simp_all

definition ld_u32 :: "memory \<Rightarrow> ptr \<Rightarrow> u32" where
  "ld_u32 m p = le_dec (ld_bytes m p 4)"

definition st_u32 :: "memory \<Rightarrow> ptr \<Rightarrow> u32 \<Rightarrow> memory" where
  "st_u32 m p w = st_bytes m p (le_enc 4 w)"

definition ld_u64 :: "memory \<Rightarrow> ptr \<Rightarrow> u64" where
  "ld_u64 m p = le_dec (ld_bytes m p 8)"

definition st_u64 :: "memory \<Rightarrow> ptr \<Rightarrow> u64 \<Rightarrow> memory" where
  "st_u64 m p w = st_bytes m p (le_enc 8 w)"

section \<open>The contract of a field of a structure\<close>

locale field_access =
  fixes get :: "memory \<Rightarrow> ptr \<Rightarrow> 'v" and put :: "memory \<Rightarrow> ptr \<Rightarrow> 'v \<Rightarrow> memory" and width :: nat
  assumes get_put [simp]: "get (put m p v) p = v"
    and put_outside: "a < p \<or> p + width \<le> a \<Longrightarrow> put m p v a = m a"
    and get_cong: "same_on p width m m' \<Longrightarrow> get m p = get m' p"
begin

lemma same_on_put: "q + n \<le> p \<or> p + width \<le> q \<Longrightarrow> same_on q n (put m p v) m"
  by (auto simp: same_on_def put_outside)

lemma get_put_other [simp]: "q + width \<le> p \<or> p + width \<le> q \<Longrightarrow> get (put m p v) q = get m q"
  by (intro get_cong same_on_put)

lemma get_st_bytes [simp]:
  "q + width \<le> p \<or> p + length bs \<le> q \<Longrightarrow> get (st_bytes m p bs) q = get m q"
  by (intro get_cong same_on_st_bytes)

lemma get_memset [simp]: "q + width \<le> p \<or> p + k \<le> q \<Longrightarrow> get (memset m p c k) q = get m q"
  by (intro get_cong same_on_memset)

lemma get_memcpy [simp]: "q + width \<le> p \<or> p + k \<le> q \<Longrightarrow> get (memcpy m p s k) q = get m q"
  by (intro get_cong same_on_memcpy)

lemma ld_bytes_put [simp]: "q + n \<le> p \<or> p + width \<le> q \<Longrightarrow> ld_bytes (put m p v) q n = ld_bytes m q n"
  by (intro ld_bytes_cong same_on_put)

end

interpretation f32: field_access ld_u32 st_u32 4
proof unfold_locales
  show "ld_u32 (st_u32 m p v) p = v" for m p v
    by (simp add: ld_u32_def st_u32_def le_dec_le_enc take_bit_word_eq_self)
  show "a < p \<or> p + 4 \<le> a \<Longrightarrow> st_u32 m p v a = m a" for a m p v
    by (simp add: st_u32_def st_bytes_outside)
  show "same_on p 4 m m' \<Longrightarrow> ld_u32 m p = ld_u32 m' p" for p m m'
    by (simp add: ld_u32_def ld_bytes_cong)
qed

interpretation f64: field_access ld_u64 st_u64 8
proof unfold_locales
  show "ld_u64 (st_u64 m p v) p = v" for m p v
    by (simp add: ld_u64_def st_u64_def le_dec_le_enc take_bit_word_eq_self)
  show "a < p \<or> p + 8 \<le> a \<Longrightarrow> st_u64 m p v a = m a" for a m p v
    by (simp add: st_u64_def st_bytes_outside)
  show "same_on p 8 m m' \<Longrightarrow> ld_u64 m p = ld_u64 m' p" for p m m'
    by (simp add: ld_u64_def ld_bytes_cong)
qed

text \<open>Fields of different widths do not disturb each other.\<close>

lemma ld_u32_st_u64 [simp]: "q + 4 \<le> p \<or> p + 8 \<le> q \<Longrightarrow> ld_u32 (st_u64 m p v) q = ld_u32 m q"
  by (intro f32.get_cong f64.same_on_put)

lemma ld_u64_st_u32 [simp]: "q + 8 \<le> p \<or> p + 4 \<le> q \<Longrightarrow> ld_u64 (st_u32 m p v) q = ld_u64 m q"
  by (intro f64.get_cong f32.same_on_put)

lemma ld_bytes_st_bytes_other [simp]:
  "q + n \<le> p \<or> p + length bs \<le> q \<Longrightarrow> ld_bytes (st_bytes m p bs) q n = ld_bytes m q n"
  by (intro ld_bytes_cong same_on_st_bytes)

lemma ld_bytes_memset_other [simp]:
  "q + n \<le> p \<or> p + k \<le> q \<Longrightarrow> ld_bytes (memset m p c k) q n = ld_bytes m q n"
  by (intro ld_bytes_cong same_on_memset)

lemma ld_bytes_memcpy_other [simp]:
  "q + n \<le> p \<or> p + k \<le> q \<Longrightarrow> ld_bytes (memcpy m p s k) q n = ld_bytes m q n"
  by (intro ld_bytes_cong same_on_memcpy)

lemma ld_u64_memset_inside [simp]: "p \<le> q \<Longrightarrow> q + 8 \<le> p + k \<Longrightarrow> ld_u64 (memset m p 0 k) q = 0"
  by (simp add: ld_u64_def)

lemma ld_u32_memset_inside [simp]: "p \<le> q \<Longrightarrow> q + 4 \<le> p + k \<Longrightarrow> ld_u32 (memset m p 0 k) q = 0"
  by (simp add: ld_u32_def)

text \<open>Fresh memory reads as zero.\<close>

lemma ld_bytes_fresh [simp]: "ld_bytes (\<lambda>_. 0) p n = replicate n 0"
  by (rule nth_equalityI) simp_all

lemma ld_u64_fresh [simp]: "ld_u64 (\<lambda>_. 0) p = 0"
  by (simp add: ld_u64_def)

lemma ld_u32_fresh [simp]: "ld_u32 (\<lambda>_. 0) p = 0"
  by (simp add: ld_u32_def)

section \<open>Frames\<close>

text \<open>\<open>only p n m m'\<close>: the two memories differ inside the \<open>n\<close> bytes at \<open>p\<close> only.\<close>

definition only :: "ptr \<Rightarrow> nat \<Rightarrow> memory \<Rightarrow> memory \<Rightarrow> bool" where
  "only p n m m' \<longleftrightarrow> (\<forall>a. a < p \<or> p + n \<le> a \<longrightarrow> m' a = m a)"

lemma only_refl [simp]: "only p n m m"
  by (simp add: only_def)

lemma only_trans: "only p n m m' \<Longrightarrow> only p n m' m'' \<Longrightarrow> only p n m m''"
  by (simp add: only_def)

lemma only_mono: "only q k m m' \<Longrightarrow> p \<le> q \<Longrightarrow> q + k \<le> p + n \<Longrightarrow> only p n m m'"
  by (simp add: only_def)

lemma only_same_on: "only p n m m' \<Longrightarrow> q + k \<le> p \<or> p + n \<le> q \<Longrightarrow> same_on q k m' m"
  by (auto simp: only_def same_on_def)

lemma only_st_u32: "p \<le> q \<Longrightarrow> q + 4 \<le> p + n \<Longrightarrow> only p n m (st_u32 m q v)"
  by (auto simp: only_def f32.put_outside)

lemma only_st_u64: "p \<le> q \<Longrightarrow> q + 8 \<le> p + n \<Longrightarrow> only p n m (st_u64 m q v)"
  by (auto simp: only_def f64.put_outside)

lemma only_st_bytes: "p \<le> q \<Longrightarrow> q + length bs \<le> p + n \<Longrightarrow> only p n m (st_bytes m q bs)"
  by (auto simp: only_def st_bytes_outside)

lemma only_memcpy: "p \<le> q \<Longrightarrow> q + k \<le> p + n \<Longrightarrow> only p n m (memcpy m q src k)"
  by (auto simp: memcpy_def intro: only_st_bytes)

lemma only_memset: "p \<le> q \<Longrightarrow> q + k \<le> p + n \<Longrightarrow> only p n m (memset m q c k)"
  by (auto simp: only_def memset_def)

lemmas only_writes = only_st_u32 only_st_u64 only_st_bytes only_memcpy only_memset

lemma only_after:
  "only p n m m' \<Longrightarrow> p \<le> q \<Longrightarrow> q + 4 \<le> p + n \<Longrightarrow> only p n m (st_u32 m' q v32)"
  "only p n m m' \<Longrightarrow> p \<le> q \<Longrightarrow> q + 8 \<le> p + n \<Longrightarrow> only p n m (st_u64 m' q v64)"
  "only p n m m' \<Longrightarrow> p \<le> q \<Longrightarrow> q + k \<le> p + n \<Longrightarrow> only p n m (memcpy m' q src k)"
  "only p n m m' \<Longrightarrow> p \<le> q \<Longrightarrow> q + k \<le> p + n \<Longrightarrow> only p n m (memset m' q c k)"
  by (meson only_trans only_writes)+

end
