(* ===== verification/Kv.thy ===== *)
theory Kv
  imports Cmem
begin

text \<open>
  The structures of \<open>src/kv.h\<close> that live in the mapped pool, with the byte offsets of their
  fields: the header of a stored object, the head of a transaction slot and a transaction
  entry; and the enumerations of transaction states and operations. Each structure has a
  record for its contents, a function that reads it at an address and \<open>set_\<close> functions
  that store one field.
\<close>

section \<open>Object headers\<close>

record pmb_data_hdr =
  h_flch64 :: u64
  h_id :: u64
  h_version :: u32
  h_key_len :: u32
  h_val_len :: u32

text \<open>Five fields of 8, 8, 4, 4 and 4 bytes; the size is rounded up to the alignment 8.\<close>

definition sizeof_pmb_data_hdr :: nat where
  "sizeof_pmb_data_hdr = 32"

definition hdr_at :: "memory \<Rightarrow> ptr \<Rightarrow> pmb_data_hdr" where
  "hdr_at m p = \<lparr>h_flch64 = ld_u64 m p, h_id = ld_u64 m (p + 8), h_version = ld_u32 m (p + 16),
     h_key_len = ld_u32 m (p + 20), h_val_len = ld_u32 m (p + 24)\<rparr>"

definition set_flch64 :: "memory \<Rightarrow> ptr \<Rightarrow> u64 \<Rightarrow> memory" where
  "set_flch64 m p v = st_u64 m p v"

definition set_id :: "memory \<Rightarrow> ptr \<Rightarrow> u64 \<Rightarrow> memory" where
  "set_id m p v = st_u64 m (p + 8) v"

definition set_version :: "memory \<Rightarrow> ptr \<Rightarrow> u32 \<Rightarrow> memory" where
  "set_version m p v = st_u32 m (p + 16) v"

definition set_key_len :: "memory \<Rightarrow> ptr \<Rightarrow> u32 \<Rightarrow> memory" where
  "set_key_len m p v = st_u32 m (p + 20) v"

definition set_val_len :: "memory \<Rightarrow> ptr \<Rightarrow> u32 \<Rightarrow> memory" where
  "set_val_len m p v = st_u32 m (p + 24) v"

lemmas hdr_defs = hdr_at_def set_flch64_def set_id_def set_version_def set_key_len_def
  set_val_len_def sizeof_pmb_data_hdr_def

section \<open>Transaction slots and entries\<close>

datatype tx_status = EMPTY | PROCESSING | COMMITED | ABORTED

primrec status_code :: "tx_status \<Rightarrow> u32" where
  "status_code EMPTY = 0"
| "status_code PROCESSING = 1"
| "status_code COMMITED = 2"
| "status_code ABORTED = 3"

datatype tx_op = WRITE | UPDATE | UPDINPLACE | REMOVE

primrec op_code :: "tx_op \<Rightarrow> u32" where
  "op_code WRITE = 0"
| "op_code UPDATE = 1"
| "op_code UPDINPLACE = 2"
| "op_code REMOVE = 3"

text \<open>The label a \<open>switch\<close> over the stored operation code takes; \<open>None\<close> is its \<open>default\<close>.\<close>

definition op_of_code :: "u32 \<Rightarrow> tx_op option" where
  "op_of_code c =
     (if c = 0 then Some WRITE else if c = 1 then Some UPDATE
      else if c = 2 then Some UPDINPLACE else if c = 3 then Some REMOVE else None)"

lemma op_of_code_op_code [simp]: "op_of_code (op_code t) = Some t"
  by (cases t) (simp_all add: op_of_code_def)

lemma op_code_inject [simp]: "op_code t = op_code t' \<longleftrightarrow> t = t'"
  by (cases t; cases t') simp_all

lemma status_code_inject [simp]: "status_code s = status_code s' \<longleftrightarrow> s = s'"
  by (cases s; cases s') simp_all

record tx_slot =
  s_flch64 :: u64
  s_status :: u32
  s_size :: u64

text \<open>\<open>flch64\<close> at 0, \<open>status\<close> at 8 (4 bytes of padding follow), \<open>size\<close> at 16.\<close>

definition sizeof_tx_slot :: nat where
  "sizeof_tx_slot = 24"

definition slot_at :: "memory \<Rightarrow> ptr \<Rightarrow> tx_slot" where
  "slot_at m p = \<lparr>s_flch64 = ld_u64 m p, s_status = ld_u32 m (p + 8), s_size = ld_u64 m (p + 16)\<rparr>"

definition set_slot_flch64 :: "memory \<Rightarrow> ptr \<Rightarrow> u64 \<Rightarrow> memory" where
  "set_slot_flch64 m p v = st_u64 m p v"

definition set_slot_status :: "memory \<Rightarrow> ptr \<Rightarrow> tx_status \<Rightarrow> memory" where
  "set_slot_status m p s = st_u32 m (p + 8) (status_code s)"

definition set_slot_size :: "memory \<Rightarrow> ptr \<Rightarrow> u64 \<Rightarrow> memory" where
  "set_slot_size m p n = st_u64 m (p + 16) n"

record tx_entry =
  e_type :: u32
  e_blk_id1 :: u64
  e_blk_id2 :: u64

text \<open>\<open>type\<close> at 0 (4 bytes of padding follow), \<open>blk_id1\<close> at 8, \<open>blk_id2\<close> at 16.\<close>

definition sizeof_tx_entry :: nat where
  "sizeof_tx_entry = 24"

definition entry_at :: "memory \<Rightarrow> ptr \<Rightarrow> tx_entry" where
  "entry_at m p = \<lparr>e_type = ld_u32 m p, e_blk_id1 = ld_u64 m (p + 8), e_blk_id2 = ld_u64 m (p + 16)\<rparr>"

definition set_entry_type :: "memory \<Rightarrow> ptr \<Rightarrow> tx_op \<Rightarrow> memory" where
  "set_entry_type m p t = st_u32 m p (op_code t)"

definition set_entry_blk_id1 :: "memory \<Rightarrow> ptr \<Rightarrow> u64 \<Rightarrow> memory" where
  "set_entry_blk_id1 m p v = st_u64 m (p + 8) v"

definition set_entry_blk_id2 :: "memory \<Rightarrow> ptr \<Rightarrow> u64 \<Rightarrow> memory" where
  "set_entry_blk_id2 m p v = st_u64 m (p + 16) v"

lemmas slot_defs = slot_at_def set_slot_flch64_def set_slot_status_def set_slot_size_def
  sizeof_tx_slot_def

lemmas entry_defs = entry_at_def set_entry_type_def set_entry_blk_id1_def set_entry_blk_id2_def
  sizeof_tx_entry_def

lemma hdr_at_cong: "same_on p 32 m m' \<Longrightarrow> hdr_at m p = hdr_at m' p"
  by (simp add: hdr_at_def)
    (auto intro!: f32.get_cong f64.get_cong elim: same_on_sub)

lemma slot_at_cong: "same_on p 24 m m' \<Longrightarrow> slot_at m p = slot_at m' p"
  by (simp add: slot_at_def)
    (auto intro!: f32.get_cong f64.get_cong elim: same_on_sub)

lemma entry_at_cong: "same_on p 24 m m' \<Longrightarrow> entry_at m p = entry_at m' p"
  by (simp add: entry_at_def)
    (auto intro!: f32.get_cong f64.get_cong elim: same_on_sub)

end
