(* ===== verification/Backend.thy ===== *)
theory Backend
  imports Kv
begin

text \<open>
  The block device over the mapped pool, \<open>src/backend.c\<close>: the layout of the pool (header,
  transaction slots, data blocks, meta blocks), the address of a block or slot, and the
  calls that make memory durable. What belongs to NVML and to the operating system is a
  parameter: the mapping of the pool file, \<open>pmem_is_pmem\<close>, the size of the header
  structure (it embeds NVML's \<open>struct pool_hdr\<close>) and the page size.
\<close>

unbundle bit_operations_syntax

section \<open>Process state\<close>

text \<open>
  Memory and the durability calls made so far: \<open>Durable p n\<close> for a call that returns when the
  \<open>n\<close> bytes at \<open>p\<close> are on the medium (\<open>pmem_persist\<close>, \<open>pmem_msync\<close>,
  \<open>pmem_memcpy_persist\<close>), \<open>Scheduled p n\<close> for an asynchronous \<open>msync\<close>. The functions below
  take any record that extends \<open>world\<close>.
\<close>

datatype sync_call = Durable ptr nat | Scheduled ptr nat

record world =
  mem :: memory
  plog :: "sync_call list"
  Pagesize :: u64

section \<open>The backend structure\<close>

datatype persist_fn = Pmem_persist | Pmem_msync | Pmem_flush | Msync_weak | Empty_weak_persist
datatype drain_fn = Pmem_drain | Drain_empty
datatype copy_fn = Pmem_memcpy_persist | Libc_memcpy

record backend =
  b_bsize :: u32
  b_meta_bsize :: u32
  b_size :: u64
  b_is_pmem :: bool
  b_datasize :: u64
  b_metasize :: u64
  b_data_nlba :: u64
  b_meta_nlba :: u64
  b_max_key_len :: u32
  b_max_val_len :: u32
  b_meta_max_key_len :: u32
  b_meta_max_val_len :: u32
  b_tx_slots_count :: u8
  b_tx_slot_size :: u64
  b_sync_type :: u8
  b_persist :: persist_fn
  b_weak_persist :: persist_fn
  b_flush :: persist_fn
  b_drain :: drain_fn
  b_memcpy :: copy_fn
  b_addr :: ptr
  b_tx_log :: ptr
  b_data :: ptr
  b_meta :: ptr

definition BACKEND_OK :: u8 where "BACKEND_OK = 0"
definition BACKEND_NO_BACKEND :: u8 where "BACKEND_NO_BACKEND = 1"
definition BACKEND_ENOENT :: u8 where "BACKEND_ENOENT = 2"
definition BACKEND_INV_ID :: u8 where "BACKEND_INV_ID = 5"

lemmas backend_codes = BACKEND_OK_def BACKEND_NO_BACKEND_def BACKEND_ENOENT_def BACKEND_INV_ID_def

text \<open>\<open>drain_empty\<close> and \<open>empty_weak_persist\<close> do nothing; \<open>msync_weak\<close> rounds to whole pages.\<close>

definition drain_empty :: "'a world_scheme \<Rightarrow> 'a world_scheme" where
  "drain_empty w = w"

definition empty_weak_persist :: "ptr \<Rightarrow> u64 \<Rightarrow> 'a world_scheme \<Rightarrow> 'a world_scheme" where
  "empty_weak_persist addr len w = w"

definition msync_weak :: "ptr \<Rightarrow> u64 \<Rightarrow> 'a world_scheme \<Rightarrow> 'a world_scheme" where
  "msync_weak addr len w =
     (let len' = len + (of_nat addr AND (Pagesize w - 1));
          uptr = of_nat addr AND NOT (Pagesize w - 1)
      in w\<lparr>plog := plog w @ [Scheduled (unat uptr) (unat len')]\<rparr>)"

text \<open>A call through one of the structure's function pointers.\<close>

definition call_persist :: "persist_fn \<Rightarrow> ptr \<Rightarrow> u64 \<Rightarrow> 'a world_scheme \<Rightarrow> 'a world_scheme" where
  "call_persist f addr len w =
     (case f of
        Msync_weak \<Rightarrow> msync_weak addr len w
      | Empty_weak_persist \<Rightarrow> empty_weak_persist addr len w
      | Pmem_flush \<Rightarrow> w
      | _ \<Rightarrow> w\<lparr>plog := plog w @ [Durable addr (unat len)]\<rparr>)"

section \<open>Mapping a pool\<close>

definition PMB_FORMAT_DATA_ALIGN :: u64 where
  "PMB_FORMAT_DATA_ALIGN = 4096"

text \<open>The \<open>roundup\<close> macro of \<open>sys/param.h\<close> for an alignment that is a power of two.\<close>

definition roundup :: "u64 \<Rightarrow> u64 \<Rightarrow> u64" where
  "roundup x y = (x + (y - 1)) AND NOT (y - 1)"

text \<open>
  A pool file mapped into memory by NVML: its address, the header structure found at its
  start and its bytes.
\<close>

record mapping =
  mp_addr :: ptr
  mp_hdr :: backend
  mp_len :: nat
  mp_bytes :: memory

record nvml =
  util_pool_open :: "string option \<Rightarrow> mapping option"
  util_pool_create :: "string option \<Rightarrow> u64 \<Rightarrow> mapping option"
  pmem_is_pmem :: "ptr \<Rightarrow> u64 \<Rightarrow> bool"
  sizeof_backend :: u64

definition map_bytes :: "mapping \<Rightarrow> 'a world_scheme \<Rightarrow> 'a world_scheme" where
  "map_bytes mp w = w\<lparr>mem := \<lambda>a. if mp_addr mp \<le> a \<and> a < mp_addr mp + mp_len mp
     then mp_bytes mp (a - mp_addr mp) else mem w a\<rparr>"

text \<open>The part of \<open>_backend_map_common\<close> that checks the header or writes a new one; \<open>None\<close> is \<open>goto err\<close>.\<close>

definition backend_check_header ::
  "backend \<Rightarrow> bool \<Rightarrow> u64 \<Rightarrow> u64 \<Rightarrow> u8 \<Rightarrow> u64 \<Rightarrow> u32 \<Rightarrow> u32 \<Rightarrow> u32 \<Rightarrow> u32 \<Rightarrow> backend option" where
  "backend_check_header b initialize bsize meta_bsize tx_slots_count tx_slot_size
     max_key_len max_val_len meta_max_key_len meta_max_val_len =
     (if \<not> initialize then
        (if bsize \<noteq> 0 \<and> bsize \<noteq> ucast (b_bsize b) then None
         else if meta_bsize \<noteq> 0 \<and> meta_bsize \<noteq> ucast (b_meta_bsize b) then None
         else Some b)
      else
        (if bsize = 0 then None
         else if meta_bsize = 0 then None
         else Some (b\<lparr>b_bsize := ucast bsize, b_meta_bsize := ucast meta_bsize,
           b_max_key_len := max_key_len, b_max_val_len := max_val_len,
           b_meta_max_key_len := meta_max_key_len, b_meta_max_val_len := meta_max_val_len,
           b_tx_slot_size := ucast (ucast tx_slot_size :: u32), b_tx_slots_count := tx_slots_count\<rparr>)))"

text \<open>The run-time part: addresses and sizes of the areas, and the function pointers.\<close>

definition backend_runtime_info ::
  "u64 \<Rightarrow> ptr \<Rightarrow> bool \<Rightarrow> u64 \<Rightarrow> u64 \<Rightarrow> u8 \<Rightarrow> u64 \<Rightarrow> u8 \<Rightarrow> backend \<Rightarrow> backend" where
  "backend_runtime_info hdrsize addr is_pmem poolsize meta_poolsize tx_slots_count tx_slot_size sync_type b =
     (let tx_log = ptr_add addr (roundup hdrsize PMB_FORMAT_DATA_ALIGN);
          data = ptr_add tx_log (ucast tx_slots_count * tx_slot_size);
          datasize = of_nat (ptr_add addr poolsize) - of_nat data;
          data_nlba = datasize div ucast (b_bsize b);
          meta = ptr_add data (data_nlba * ucast (b_bsize b));
          metasize = of_nat (ptr_add (ptr_add addr poolsize) meta_poolsize) - of_nat meta;
          meta_nlba = metasize div ucast (b_meta_bsize b)
      in b\<lparr>b_size := poolsize + meta_poolsize, b_is_pmem := is_pmem, b_addr := addr,
           b_tx_log := tx_log, b_data := data, b_datasize := datasize, b_data_nlba := data_nlba,
           b_meta := meta, b_metasize := metasize, b_meta_nlba := meta_nlba, b_sync_type := sync_type,
           b_persist := (if is_pmem then Pmem_persist else Pmem_msync),
           b_weak_persist := (if is_pmem then Empty_weak_persist else Msync_weak),
           b_flush := (if is_pmem then Pmem_flush else Pmem_msync),
           b_drain := (if is_pmem then Pmem_drain else Drain_empty),
           b_memcpy := (if is_pmem then Pmem_memcpy_persist else Libc_memcpy)\<rparr>)"

text \<open>
  \<open>_backend_map_common\<close>. The stores to single header fields are followed by one
  \<open>pmem_msync\<close> of the whole header, which is the durability call recorded. A zero block
  size in the header makes the computation of the number of blocks divide by zero.
\<close>

definition backend_map_common ::
  "nvml \<Rightarrow> mapping \<Rightarrow> u64 \<Rightarrow> u64 \<Rightarrow> u64 \<Rightarrow> u64 \<Rightarrow> bool \<Rightarrow> u8 \<Rightarrow> u64 \<Rightarrow> u32 \<Rightarrow> u32 \<Rightarrow> u32 \<Rightarrow> u32 \<Rightarrow> u8 \<Rightarrow>
   'a world_scheme \<Rightarrow> crash + (backend option \<times> 'a world_scheme)" where
  "backend_map_common nv mp poolsize meta_poolsize bsize meta_bsize initialize tx_slots_count tx_slot_size
     max_key_len max_val_len meta_max_key_len meta_max_val_len sync_type w =
     (let w = map_bytes mp w;
          is_pmem = pmem_is_pmem nv (mp_addr mp) (poolsize + meta_poolsize);
          bsize = roundup bsize PMB_FORMAT_DATA_ALIGN;
          meta_bsize = roundup meta_bsize PMB_FORMAT_DATA_ALIGN;
          tx_slot_size = roundup tx_slot_size PMB_FORMAT_DATA_ALIGN
      in (case backend_check_header (mp_hdr mp) initialize bsize meta_bsize tx_slots_count tx_slot_size
                 max_key_len max_val_len meta_max_key_len meta_max_val_len of
            None \<Rightarrow> Inr (None, w)
          | Some b \<Rightarrow>
              (let w = (if initialize then
                     w\<lparr>plog := plog w @ [Durable (mp_addr mp) (unat (sizeof_backend nv))]\<rparr> else w)
               in if b_bsize b = 0 \<or> b_meta_bsize b = 0 then Inl DivByZero
                  else Inr (Some (backend_runtime_info (sizeof_backend nv) (mp_addr mp) is_pmem
                         poolsize meta_poolsize tx_slots_count tx_slot_size sync_type b), w))))"

definition backend_create ::
  "nvml \<Rightarrow> string option \<Rightarrow> u64 \<Rightarrow> u64 \<Rightarrow> u64 \<Rightarrow> u64 \<Rightarrow> u32 \<Rightarrow> u32 \<Rightarrow> u32 \<Rightarrow> u32 \<Rightarrow> u8 \<Rightarrow>
   'a world_scheme \<Rightarrow> crash + (backend option \<times> 'a world_scheme)" where
  "backend_create nv path data_size meta_size tx_slots tx_slot_size max_key_len max_val_len
     meta_max_key_len meta_max_val_len sync_type w =
     (let bsize = of_nat sizeof_pmb_data_hdr + ucast max_key_len + ucast max_val_len;
          meta_bsize = of_nat sizeof_pmb_data_hdr + ucast meta_max_key_len + ucast meta_max_val_len;
          total_size = data_size + meta_size;
          created = (total_size \<noteq> 0);
          set = (if created then util_pool_create nv path total_size else util_pool_open nv path)
      in (case set of
            None \<Rightarrow> Inr (None, w)
          | Some mp \<Rightarrow> backend_map_common nv mp data_size meta_size bsize meta_bsize created
              (ucast tx_slots) tx_slot_size max_key_len max_val_len meta_max_key_len meta_max_val_len
              sync_type w))"

definition backend_open ::
  "nvml \<Rightarrow> string option \<Rightarrow> u64 \<Rightarrow> u64 \<Rightarrow> u64 \<Rightarrow> u64 \<Rightarrow> u32 \<Rightarrow> u32 \<Rightarrow> u32 \<Rightarrow> u32 \<Rightarrow> u8 \<Rightarrow>
   'a world_scheme \<Rightarrow> crash + (backend option \<times> 'a world_scheme)" where
  "backend_open nv path data_size meta_size tx_slots tx_slot_size max_key_len max_val_len
     meta_max_key_len meta_max_val_len sync_type w =
     (let bsize = of_nat sizeof_pmb_data_hdr + ucast max_key_len + ucast max_val_len;
          meta_bsize = of_nat sizeof_pmb_data_hdr + ucast meta_max_key_len + ucast meta_max_val_len
      in (case util_pool_open nv path of
            None \<Rightarrow> Inr (None, w)
          | Some mp \<Rightarrow> backend_map_common nv mp data_size meta_size bsize meta_bsize False
              (ucast tx_slots) tx_slot_size max_key_len max_val_len meta_max_key_len meta_max_val_len
              sync_type w))"

section \<open>Blocks and slots\<close>

definition backend_get_sync_type :: "backend \<Rightarrow> u8" where
  "backend_get_sync_type b = b_sync_type b"

definition backend_direct :: "backend option \<Rightarrow> u64 \<Rightarrow> ptr" where
  "backend_direct bo obj_id =
     (case bo of
        None \<Rightarrow> NULL
      | Some b \<Rightarrow>
          (if obj_id < b_data_nlba b then ptr_add (b_data b) (obj_id * ucast (b_bsize b))
           else if obj_id < b_data_nlba b + b_meta_nlba b then
             ptr_add (b_meta b) ((obj_id - b_data_nlba b - 1) * ucast (b_meta_bsize b))
           else NULL))"

text \<open>\<open>backend_get\<close>: the pointer, or NULL with the error code stored behind \<open>error\<close>.\<close>

definition backend_get :: "backend option \<Rightarrow> u64 \<Rightarrow> u8 \<Rightarrow> 'a world_scheme \<Rightarrow> ptr \<times> u8" where
  "backend_get bo obj_id error w =
     (if bo = None \<or> obj_id = 0 then (NULL, BACKEND_NO_BACKEND)
      else let obj_ptr = backend_direct bo obj_id
           in if obj_ptr = NULL then (NULL, BACKEND_INV_ID)
              else if h_flch64 (hdr_at (mem w) obj_ptr) = 0 then (NULL, BACKEND_ENOENT)
              else (obj_ptr, error))"

definition backend_tx_direct :: "backend option \<Rightarrow> u8 \<Rightarrow> ptr" where
  "backend_tx_direct bo tx_id =
     (case bo of
        None \<Rightarrow> NULL
      | Some b \<Rightarrow>
          (if tx_id < b_tx_slots_count b then ptr_add (b_tx_log b) (ucast tx_id * b_tx_slot_size b)
           else NULL))"

definition backend_nblock :: "backend option \<Rightarrow> bool \<Rightarrow> u64" where
  "backend_nblock bo meta_store =
     (case bo of None \<Rightarrow> 0 | Some b \<Rightarrow> if meta_store then b_meta_nlba b else b_data_nlba b)"

section \<open>Durability\<close>

definition backend_persist ::
  "backend option \<Rightarrow> ptr \<Rightarrow> u64 \<Rightarrow> 'a world_scheme \<Rightarrow> u8 \<times> 'a world_scheme" where
  "backend_persist bo obj_ptr len w =
     (case bo of
        None \<Rightarrow> (BACKEND_NO_BACKEND, w)
      | Some b \<Rightarrow>
          (if obj_ptr = NULL then (BACKEND_ENOENT, w)
           else if b_sync_type b = 2 then (BACKEND_OK, call_persist (b_persist b) obj_ptr len w)
           else if b_sync_type b = 1 then (BACKEND_OK, call_persist (b_weak_persist b) obj_ptr len w)
           else (BACKEND_OK, w)))"

definition backend_persist_all :: "backend option \<Rightarrow> 'a world_scheme \<Rightarrow> u8 \<times> 'a world_scheme" where
  "backend_persist_all bo w =
     (case bo of
        None \<Rightarrow> (BACKEND_NO_BACKEND, w)
      | Some b \<Rightarrow> (BACKEND_OK, call_persist (b_persist b) (b_tx_log b) (b_datasize b + b_metasize b) w))"

definition backend_persist_weak ::
  "backend option \<Rightarrow> ptr \<Rightarrow> u64 \<Rightarrow> 'a world_scheme \<Rightarrow> u8 \<times> 'a world_scheme" where
  "backend_persist_weak bo obj_ptr len w =
     (case bo of
        None \<Rightarrow> (BACKEND_NO_BACKEND, w)
      | Some b \<Rightarrow>
          (if obj_ptr = NULL then (BACKEND_ENOENT, w)
           else (BACKEND_OK, call_persist (b_weak_persist b) obj_ptr len w)))"

definition backend_tx_persist ::
  "backend option \<Rightarrow> u8 \<Rightarrow> u64 \<Rightarrow> 'a world_scheme \<Rightarrow> u8 \<times> 'a world_scheme" where
  "backend_tx_persist bo tx_id len w =
     (case bo of
        None \<Rightarrow> (BACKEND_NO_BACKEND, w)
      | Some b \<Rightarrow>
          (if b_sync_type b = 0 then (BACKEND_OK, snd (backend_persist_all bo w))
           else let obj = backend_tx_direct bo tx_id
                in if obj = NULL then (BACKEND_ENOENT, w)
                   else (BACKEND_OK, snd (backend_persist bo obj len w))))"

section \<open>Clearing and copying\<close>

definition backend_set_zero :: "backend option \<Rightarrow> ptr \<Rightarrow> 'a world_scheme \<Rightarrow> u8 \<times> 'a world_scheme" where
  "backend_set_zero bo obj_ptr w =
     (if bo = None then (BACKEND_NO_BACKEND, w)
      else if obj_ptr = NULL then (BACKEND_ENOENT, w)
      else let h = hdr_at (mem w) obj_ptr;
               len = sizeof_pmb_data_hdr + unat (h_key_len h) + unat (h_val_len h)
           in (0, w\<lparr>mem := memset (mem w) obj_ptr 0 len\<rparr>))"

text \<open>Only the first two fields of the slot are cleared, checksum and status: 8 + 4 bytes.\<close>

definition backend_tx_set_zero :: "backend option \<Rightarrow> ptr \<Rightarrow> 'a world_scheme \<Rightarrow> u8 \<times> 'a world_scheme" where
  "backend_tx_set_zero bo slot_ptr w =
     (case bo of
        None \<Rightarrow> (BACKEND_NO_BACKEND, w)
      | Some b \<Rightarrow>
          (if slot_ptr = NULL then (BACKEND_ENOENT, w)
           else let len = 8 + 4;
                    w = w\<lparr>mem := memset (mem w) slot_ptr 0 len\<rparr>
                in if b_sync_type b = 0 then (0, snd (backend_persist_all bo w))
                   else (0, snd (backend_persist bo slot_ptr (of_nat len) w))))"

definition backend_memcpy :: "backend \<Rightarrow> ptr \<Rightarrow> ptr \<Rightarrow> nat \<Rightarrow> 'a world_scheme \<Rightarrow> 'a world_scheme" where
  "backend_memcpy b dest src num w =
     (let w = w\<lparr>mem := memcpy (mem w) dest src num\<rparr>
      in case b_memcpy b of
           Pmem_memcpy_persist \<Rightarrow> w\<lparr>plog := plog w @ [Durable dest num]\<rparr>
         | Libc_memcpy \<Rightarrow> w)"

text \<open>
  \<open>backend_close\<close> unmaps \<open>size\<close> bytes at \<open>addr\<close>; the model forgets the bytes (they read
  as 0 afterwards, where the program must not look any more).
\<close>

definition backend_close :: "backend option \<Rightarrow> 'a world_scheme \<Rightarrow> 'a world_scheme" where
  "backend_close bo w =
     (case bo of None \<Rightarrow> w | Some b \<Rightarrow> w\<lparr>mem := memset (mem w) (b_addr b) 0 (unat (b_size b))\<rparr>)"

text \<open>What the calls above do to the process state.\<close>

lemma call_persist_plog: "\<exists>l. call_persist f a n w = w\<lparr>plog := l\<rparr>" for w :: "'a world_scheme"
proof -
  have "\<exists>l. w = w\<lparr>plog := l\<rparr>"
    by (rule exI [of _ "plog w"]) simp
  then show ?thesis
    by (cases f) (auto simp: call_persist_def empty_weak_persist_def msync_weak_def Let_def)
qed

lemma backend_persist_plog: "\<exists>l. snd (backend_persist bo p n w) = w\<lparr>plog := l\<rparr>" for w :: "'a world_scheme"
proof -
  have "\<exists>l. w = w\<lparr>plog := l\<rparr>"
    by (rule exI [of _ "plog w"]) simp
  then show ?thesis
    by (auto simp: backend_persist_def call_persist_plog split: option.split)
qed

lemma backend_tx_persist_plog: "\<exists>l. snd (backend_tx_persist bo t n w) = w\<lparr>plog := l\<rparr>" for w :: "'a world_scheme"
proof -
  have "\<exists>l. w = w\<lparr>plog := l\<rparr>"
    by (rule exI [of _ "plog w"]) simp
  then show ?thesis
    by (auto simp: backend_tx_persist_def backend_persist_all_def call_persist_plog backend_persist_plog Let_def
        split: option.split)
qed

lemma backend_tx_set_zero_mem:
  "p \<noteq> NULL \<Longrightarrow> \<exists>l. snd (backend_tx_set_zero (Some b) p w) = w\<lparr>mem := memset (mem w) p 0 12, plog := l\<rparr>"
  for w :: "'a world_scheme"
  using call_persist_plog [of _ _ _ "w\<lparr>mem := memset (mem w) p 0 12\<rparr>"]
    backend_persist_plog [of _ _ _ "w\<lparr>mem := memset (mem w) p 0 12\<rparr>"]
  by (auto simp: backend_tx_set_zero_def backend_persist_all_def Let_def)

lemma backend_memcpy_mem:
  "\<exists>l. backend_memcpy b dest src n w = w\<lparr>mem := memcpy (mem w) dest src n, plog := l\<rparr>" for w :: "'a world_scheme"
proof (cases "b_memcpy b")
  case Libc_memcpy
  then have "backend_memcpy b dest src n w = w\<lparr>mem := memcpy (mem w) dest src n, plog := plog w\<rparr>"
    by (simp add: backend_memcpy_def Let_def)
  then show ?thesis ..
qed (simp add: backend_memcpy_def Let_def, metis)

section \<open>The layout of a pool\<close>

text \<open>
  \<open>layout_ok b\<close>: header, transaction slots, data blocks and meta blocks follow each other
  without overlap and the pool ends below \<open>2 ^ 64\<close>.
\<close>

definition pool_end :: "backend \<Rightarrow> nat" where
  "pool_end b = b_meta b + unat (b_meta_nlba b) * unat (b_meta_bsize b)"

definition layout_ok :: "backend \<Rightarrow> bool" where
  "layout_ok b \<longleftrightarrow> 0 < b_tx_log b \<and> 24 \<le> unat (b_tx_slot_size b) \<and>
     b_data b = b_tx_log b + unat (b_tx_slots_count b) * unat (b_tx_slot_size b) \<and>
     b_meta b = b_data b + unat (b_data_nlba b) * unat (b_bsize b) \<and>
     pool_end b < 2 ^ 64 \<and> 32 \<le> unat (b_bsize b) \<and> 32 \<le> unat (b_meta_bsize b)"

text \<open>
  The identifiers whose blocks are the intended ones: every data block, and the meta blocks
  above the first identifier of the region (which \<open>backend_direct\<close> places one block before
  the meta area, see \<open>backend_direct_border\<close>).
\<close>

definition data_id :: "backend \<Rightarrow> u64 \<Rightarrow> bool" where
  "data_id b i \<longleftrightarrow> i < b_data_nlba b"

definition meta_id :: "backend \<Rightarrow> u64 \<Rightarrow> bool" where
  "meta_id b i \<longleftrightarrow> b_data_nlba b < i \<and> unat i < unat (b_data_nlba b) + unat (b_meta_nlba b)"

definition block_ok :: "backend \<Rightarrow> u64 \<Rightarrow> bool" where
  "block_ok b i \<longleftrightarrow> layout_ok b \<and> (data_id b i \<or> meta_id b i)"

definition block_len :: "backend \<Rightarrow> u64 \<Rightarrow> nat" where
  "block_len b i = (if data_id b i then unat (b_bsize b) else unat (b_meta_bsize b))"

definition slot_ok :: "backend \<Rightarrow> u8 \<Rightarrow> bool" where
  "slot_ok b s \<longleftrightarrow> layout_ok b \<and> s < b_tx_slots_count b"

lemma mult_le_bound: "(i::nat) < n \<Longrightarrow> i * k + k \<le> n * k"
  by (metis Suc_leI add.commute mult_Suc mult_le_mono1)

lemma nlba_sum_no_wrap:
  assumes "layout_ok b"
  shows "unat (b_data_nlba b + b_meta_nlba b) = unat (b_data_nlba b) + unat (b_meta_nlba b)"
proof -
  have "unat (b_data_nlba b) \<le> unat (b_data_nlba b) * unat (b_bsize b)"
    and "unat (b_meta_nlba b) \<le> unat (b_meta_nlba b) * unat (b_meta_bsize b)"
    using assms by (auto simp: layout_ok_def)
  moreover have "unat (b_data_nlba b) * unat (b_bsize b)
      + unat (b_meta_nlba b) * unat (b_meta_bsize b) < 18446744073709551616"
    using assms by (simp add: layout_ok_def pool_end_def)
  ultimately show ?thesis
    by (intro unat_add_no_wrap) linarith
qed

lemma backend_direct_data:
  assumes ok: "layout_ok b" and i: "data_id b i"
  shows "backend_direct (Some b) i = b_data b + unat i * unat (b_bsize b)"
    and "b_data b + unat i * unat (b_bsize b) + unat (b_bsize b) \<le> b_meta b"
proof -
  have le: "unat i * unat (b_bsize b) + unat (b_bsize b) \<le> unat (b_data_nlba b) * unat (b_bsize b)"
    using i by (intro mult_le_bound) (simp add: data_id_def word_nat)
  then show "b_data b + unat i * unat (b_bsize b) + unat (b_bsize b) \<le> b_meta b"
    using ok by (simp add: layout_ok_def)
  have "unat (i * ucast (b_bsize b)) = unat i * unat (b_bsize b)"
    using le ok by (subst unat_mult_no_wrap) (auto simp: layout_ok_def pool_end_def)
  moreover have "b_data b + unat i * unat (b_bsize b) < 2 ^ 64"
    using le ok by (auto simp: layout_ok_def pool_end_def)
  ultimately show "backend_direct (Some b) i = b_data b + unat i * unat (b_bsize b)"
    using i by (simp add: backend_direct_def data_id_def ptr_add_def)
qed

lemma backend_direct_meta:
  assumes ok: "layout_ok b" and i: "meta_id b i"
  defines "k \<equiv> unat i - unat (b_data_nlba b) - 1"
  shows "backend_direct (Some b) i = b_meta b + k * unat (b_meta_bsize b)"
    and "b_meta b + k * unat (b_meta_bsize b) + unat (b_meta_bsize b) \<le> pool_end b"
proof -
  have le: "k * unat (b_meta_bsize b) + unat (b_meta_bsize b) \<le> unat (b_meta_nlba b) * unat (b_meta_bsize b)"
    using i by (intro mult_le_bound) (auto simp: meta_id_def word_nat k_def)
  then show "b_meta b + k * unat (b_meta_bsize b) + unat (b_meta_bsize b) \<le> pool_end b"
    by (simp add: pool_end_def)
  have "i - b_data_nlba b \<noteq> 0" and "unat (i - b_data_nlba b) = unat i - unat (b_data_nlba b)"
    using i unat_diff_le [of "b_data_nlba b" i] by (auto simp: meta_id_def word_nat)
  then have "unat (i - b_data_nlba b - 1) = k"
    by (simp add: unat_pred k_def)
  then have "unat ((i - b_data_nlba b - 1) * ucast (b_meta_bsize b)) = k * unat (b_meta_bsize b)"
    using le ok by (subst unat_mult_no_wrap) (auto simp: layout_ok_def pool_end_def)
  moreover have "b_meta b + k * unat (b_meta_bsize b) < 2 ^ 64"
    using le ok by (auto simp: layout_ok_def pool_end_def)
  ultimately show "backend_direct (Some b) i = b_meta b + k * unat (b_meta_bsize b)"
    using i nlba_sum_no_wrap [OF ok]
    by (simp add: backend_direct_def meta_id_def ptr_add_def word_nat not_less)
qed

lemma backend_tx_direct_slot:
  assumes ok: "layout_ok b" and s: "s < b_tx_slots_count b"
  shows "backend_tx_direct (Some b) s = b_tx_log b + unat s * unat (b_tx_slot_size b)"
    and "b_tx_log b + unat s * unat (b_tx_slot_size b) + unat (b_tx_slot_size b) \<le> b_data b"
proof -
  have le: "unat s * unat (b_tx_slot_size b) + unat (b_tx_slot_size b)
      \<le> unat (b_tx_slots_count b) * unat (b_tx_slot_size b)"
    using s by (intro mult_le_bound) (simp add: word_nat)
  then show "b_tx_log b + unat s * unat (b_tx_slot_size b) + unat (b_tx_slot_size b) \<le> b_data b"
    using ok by (simp add: layout_ok_def)
  have "unat (ucast s * b_tx_slot_size b) = unat s * unat (b_tx_slot_size b)"
    using le ok by (subst unat_mult_no_wrap) (auto simp: layout_ok_def pool_end_def)
  moreover have "b_tx_log b + unat s * unat (b_tx_slot_size b) < 2 ^ 64"
    using le ok by (auto simp: layout_ok_def pool_end_def)
  ultimately show "backend_tx_direct (Some b) s = b_tx_log b + unat s * unat (b_tx_slot_size b)"
    using s by (simp add: backend_tx_direct_def ptr_add_def)
qed

section \<open>The contract of the block store\<close>

text \<open>
  What the transaction log and the store rely on: blocks and slots have addresses, are large
  enough for their headers and do not overlap.
\<close>

definition apart :: "ptr \<Rightarrow> nat \<Rightarrow> ptr \<Rightarrow> nat \<Rightarrow> bool" where
  "apart p n q k \<longleftrightarrow> p + n \<le> q \<or> q + k \<le> p"

lemma apart_sym: "apart p n q k \<Longrightarrow> apart q k p n"
  by (auto simp: apart_def)

lemma apart_sub: "apart p n q k \<Longrightarrow> p \<le> p' \<Longrightarrow> p' + n' \<le> p + n \<Longrightarrow> apart p' n' q k"
  by (auto simp: apart_def)

lemma only_apart: "only p n m m' \<Longrightarrow> apart p n q k \<Longrightarrow> same_on q k m' m"
  by (auto simp: apart_def intro: only_same_on)

locale block_store =
  fixes direct :: "'b \<Rightarrow> u64 \<Rightarrow> ptr" and valid :: "'b \<Rightarrow> u64 \<Rightarrow> bool" and extent :: "'b \<Rightarrow> u64 \<Rightarrow> nat"
    and slot :: "'b \<Rightarrow> u8 \<Rightarrow> ptr" and valid_slot :: "'b \<Rightarrow> u8 \<Rightarrow> bool" and slot_extent :: "'b \<Rightarrow> nat"
  assumes direct_not_null: "valid b i \<Longrightarrow> direct b i \<noteq> NULL"
    and extent_header: "valid b i \<Longrightarrow> 32 \<le> extent b i"
    and blocks_apart: "valid b i \<Longrightarrow> valid b j \<Longrightarrow> i \<noteq> j \<Longrightarrow>
      apart (direct b i) (extent b i) (direct b j) (extent b j)"
    and slot_not_null: "valid_slot b s \<Longrightarrow> slot b s \<noteq> NULL"
    and slot_extent_header: "valid_slot b s \<Longrightarrow> 24 \<le> slot_extent b"
    and slots_apart: "valid_slot b s \<Longrightarrow> valid_slot b r \<Longrightarrow> s \<noteq> r \<Longrightarrow>
      apart (slot b s) (slot_extent b) (slot b r) (slot_extent b)"
    and slot_block_apart: "valid_slot b s \<Longrightarrow> valid b i \<Longrightarrow>
      apart (slot b s) (slot_extent b) (direct b i) (extent b i)"
    and block_bound: "valid b i \<Longrightarrow> direct b i + extent b i < 2 ^ 64"
    and slot_bound: "valid_slot b s \<Longrightarrow> slot b s + slot_extent b < 2 ^ 64"
begin

text \<open>A change inside one block leaves every other block and every slot as it was.\<close>

lemma other_block_same:
  assumes "valid b i" and "valid b j" and "i \<noteq> j"
    and "\<And>p n. apart (direct b i) (extent b i) p n \<Longrightarrow> same_on p n m' m"
  shows "same_on (direct b j) (extent b j) m' m"
  using assms blocks_apart by blast

lemma slot_same:
  assumes "valid b i" and "valid_slot b s"
    and "\<And>p n. apart (direct b i) (extent b i) p n \<Longrightarrow> same_on p n m' m"
  shows "same_on (slot b s) (slot_extent b) m' m"
  using assms slot_block_apart apart_sym by blast

lemma block_same:
  assumes "valid_slot b s" and "valid b i"
    and "\<And>p n. apart (slot b s) (slot_extent b) p n \<Longrightarrow> same_on p n m' m"
  shows "same_on (direct b i) (extent b i) m' m"
  using assms slot_block_apart by blast

lemma other_slot_same:
  assumes "valid_slot b s" and "valid_slot b r" and "s \<noteq> r"
    and "\<And>p n. apart (slot b s) (slot_extent b) p n \<Longrightarrow> same_on p n m' m"
  shows "same_on (slot b r) (slot_extent b) m' m"
  using assms slots_apart by blast

end

lemma rows_apart: "(i::nat) \<noteq> j \<Longrightarrow> apart (p + i * k) k (p + j * k) k"
  unfolding apart_def using mult_le_bound [of i j k] mult_le_bound [of j i k] by linarith

lemma block_ok_cases:
  assumes "block_ok b i"
  obtains (data) "data_id b i" "backend_direct (Some b) i = b_data b + unat i * unat (b_bsize b)"
      "block_len b i = unat (b_bsize b)"
      "b_data b + unat i * unat (b_bsize b) + unat (b_bsize b) \<le> b_meta b"
    | (meta) "meta_id b i" "\<not> data_id b i"
      "backend_direct (Some b) i = b_meta b + (unat i - unat (b_data_nlba b) - 1) * unat (b_meta_bsize b)"
      "block_len b i = unat (b_meta_bsize b)"
      "b_meta b + (unat i - unat (b_data_nlba b) - 1) * unat (b_meta_bsize b) + unat (b_meta_bsize b)
        \<le> pool_end b"
proof (cases "data_id b i")
  case True
  then show ?thesis
    using assms data backend_direct_data [of b i] by (auto simp: block_ok_def block_len_def)
next
  case False
  then show ?thesis
    using assms meta backend_direct_meta [of b i] by (auto simp: block_ok_def block_len_def)
qed

lemma layout_order:
  assumes "layout_ok b"
  shows "0 < b_tx_log b" "b_tx_log b \<le> b_data b" "b_data b \<le> b_meta b" "b_meta b \<le> pool_end b"
    "pool_end b < 2 ^ 64"
  using assms by (auto simp: layout_ok_def pool_end_def)

lemma blocks_apart_layout:
  assumes "block_ok b i" and "block_ok b j" and "i \<noteq> j"
  shows "apart (backend_direct (Some b) i) (block_len b i) (backend_direct (Some b) j) (block_len b j)"
proof -
  have ne: "unat i \<noteq> unat j"
    using assms(3) by (auto dest: unat_eqI)
  show ?thesis
    using assms(1)
  proof (cases rule: block_ok_cases)
    case i: data
    show ?thesis
      using assms(2)
    proof (cases rule: block_ok_cases)
      case j: data
      then show ?thesis
        using i ne by (simp add: rows_apart)
    next
      case j: meta
      then show ?thesis
        using i by (simp add: apart_def)
    qed
  next
    case i: meta
    show ?thesis
      using assms(2)
    proof (cases rule: block_ok_cases)
      case j: data
      then show ?thesis
        using i by (simp add: apart_def)
    next
      case j: meta
      have "unat i - unat (b_data_nlba b) - 1 \<noteq> unat j - unat (b_data_nlba b) - 1"
        using i(1) j(1) ne unfolding meta_id_def word_nat by linarith
      then show ?thesis
        using i(3,4) j(3,4) rows_apart by simp
    qed
  qed
qed

lemma block_in_pool:
  assumes "block_ok b i"
  shows "b_data b \<le> backend_direct (Some b) i"
    and "backend_direct (Some b) i + block_len b i \<le> pool_end b" and "32 \<le> block_len b i"
proof -
  have "layout_ok b"
    using assms by (simp add: block_ok_def)
  note order = layout_order [OF this]
  show "b_data b \<le> backend_direct (Some b) i" "backend_direct (Some b) i + block_len b i \<le> pool_end b"
    using assms order(3,4) by (cases rule: block_ok_cases; simp)+
  show "32 \<le> block_len b i"
    using \<open>layout_ok b\<close> by (simp add: block_len_def layout_ok_def)
qed

lemma slot_in_pool:
  assumes "slot_ok b s"
  shows "b_tx_log b \<le> backend_tx_direct (Some b) s"
    and "backend_tx_direct (Some b) s + unat (b_tx_slot_size b) \<le> b_data b"
  using assms backend_tx_direct_slot [of b s] by (auto simp: slot_ok_def)

interpretation bs: block_store "\<lambda>b. backend_direct (Some b)" block_ok block_len
  "\<lambda>b. backend_tx_direct (Some b)" slot_ok "\<lambda>b. unat (b_tx_slot_size b)"
proof unfold_locales
  fix b :: backend and i j :: u64 and s r :: u8
  show "block_ok b i \<Longrightarrow> block_ok b j \<Longrightarrow> i \<noteq> j \<Longrightarrow>
      apart (backend_direct (Some b) i) (block_len b i) (backend_direct (Some b) j) (block_len b j)"
    by (rule blocks_apart_layout)
  show "slot_ok b s \<Longrightarrow> slot_ok b r \<Longrightarrow> s \<noteq> r \<Longrightarrow>
      apart (backend_tx_direct (Some b) s) (unat (b_tx_slot_size b))
        (backend_tx_direct (Some b) r) (unat (b_tx_slot_size b))"
    by (auto simp: slot_ok_def backend_tx_direct_slot intro: rows_apart dest: unat_eqI)
  show "slot_ok b s \<Longrightarrow> block_ok b i \<Longrightarrow>
      apart (backend_tx_direct (Some b) s) (unat (b_tx_slot_size b)) (backend_direct (Some b) i) (block_len b i)"
    using slot_in_pool [of b s] block_in_pool [of b i] by (simp add: apart_def)
  show "block_ok b i \<Longrightarrow> backend_direct (Some b) i \<noteq> NULL"
    using block_in_pool(1) [of b i] layout_order [of b] by (auto simp: block_ok_def NULL_def)
  show "slot_ok b s \<Longrightarrow> backend_tx_direct (Some b) s \<noteq> NULL"
    using slot_in_pool(1) [of b s] layout_order [of b] by (auto simp: slot_ok_def NULL_def)
  show "slot_ok b s \<Longrightarrow> 24 \<le> unat (b_tx_slot_size b)"
    by (simp add: slot_ok_def layout_ok_def)
  show "block_ok b i \<Longrightarrow> backend_direct (Some b) i + block_len b i < 2 ^ 64"
    using block_in_pool(2) [of b i] layout_order(5) [of b] by (auto simp: block_ok_def)
  show "slot_ok b s \<Longrightarrow> backend_tx_direct (Some b) s + unat (b_tx_slot_size b) < 2 ^ 64"
    using slot_in_pool(2) [of b s] layout_order(3-5) [of b] by (auto simp: slot_ok_def)
qed (rule block_in_pool(3))

section \<open>Mapping establishes the layout\<close>

lemma unat_roundup:
  assumes "unat x + 4095 < 2 ^ 64"
  shows "unat (roundup x PMB_FORMAT_DATA_ALIGN) = (unat x + 4095) div 4096 * 4096"
proof -
  have s: "unat (x + 4095) = unat x + 4095"
    using assms by (subst unat_add_no_wrap) simp_all
  have "roundup x PMB_FORMAT_DATA_ALIGN = (x + 4095) AND NOT (mask 12)"
    by (simp add: roundup_def PMB_FORMAT_DATA_ALIGN_def mask_eq_exp_minus_1)
  also have "\<dots> = push_bit 12 (drop_bit 12 (x + 4095))"
    by (rule bit_word_eqI) (auto simp: bit_simps)
  finally have "unat (roundup x PMB_FORMAT_DATA_ALIGN) = unat (drop_bit 12 (x + 4095) * 4096)"
    by (simp add: push_bit_eq_mult)
  moreover have "unat (drop_bit 12 (x + 4095)) = (unat x + 4095) div 4096"
    by (simp only: drop_bit_eq_div unat_div s) simp
  ultimately show ?thesis
    using assms by (subst (asm) unat_mult_no_wrap) simp_all
qed

lemma unat_of_nat_diff:
  "q \<le> p \<Longrightarrow> p < 2 ^ 64 \<Longrightarrow> unat (of_nat p - of_nat q :: u64) = p - q"
  by (subst unat_diff_le) (simp_all add: word_nat)

lemma runtime_info_fields:
  fixes b hdrsize addr is_pmem poolsize meta_poolsize slots slot_size sync_type
  defines "b' \<equiv> backend_runtime_info hdrsize addr is_pmem poolsize meta_poolsize slots slot_size sync_type b"
  shows "b_tx_log b' = ptr_add addr (roundup hdrsize PMB_FORMAT_DATA_ALIGN)"
    and "b_data b' = ptr_add (b_tx_log b') (ucast slots * slot_size)"
    and "b_datasize b' = of_nat (ptr_add addr poolsize) - of_nat (b_data b')"
    and "b_data_nlba b' = b_datasize b' div ucast (b_bsize b)"
    and "b_meta b' = ptr_add (b_data b') (b_data_nlba b' * ucast (b_bsize b))"
    and "b_metasize b' = of_nat (ptr_add (ptr_add addr poolsize) meta_poolsize) - of_nat (b_meta b')"
    and "b_meta_nlba b' = b_metasize b' div ucast (b_meta_bsize b)"
    and "b_bsize b' = b_bsize b" "b_meta_bsize b' = b_meta_bsize b"
      "b_tx_slots_count b' = b_tx_slots_count b" "b_tx_slot_size b' = b_tx_slot_size b"
  by (simp_all add: b'_def backend_runtime_info_def Let_def)

lemma unat_div_times: "unat (x div ucast (k :: u32) * ucast k :: u64) = unat x div unat k * unat k"
proof -
  have "unat x div unat k * unat k < 18446744073709551616"
    using unat_lt_64 [of x] div_times_less_eq_dividend [of "unat x" "unat k"] by linarith
  then show ?thesis
    by (subst unat_mult_no_wrap) (simp_all add: unat_div)
qed

lemma runtime_info_layout:
  fixes hdrsize poolsize meta_poolsize :: u64 and b :: backend and addr is_pmem sync_type
  defines "H \<equiv> unat (roundup hdrsize PMB_FORMAT_DATA_ALIGN)"
    and "S \<equiv> unat (b_tx_slots_count b) * unat (b_tx_slot_size b)"
    and "b' \<equiv> backend_runtime_info hdrsize addr is_pmem poolsize meta_poolsize
      (b_tx_slots_count b) (b_tx_slot_size b) sync_type b"
  assumes addr: "0 < addr" and fit: "H + S \<le> unat poolsize"
    and bound: "addr + unat poolsize + unat meta_poolsize < 2 ^ 64"
    and hdr: "24 \<le> unat (b_tx_slot_size b)" "32 \<le> unat (b_bsize b)" "32 \<le> unat (b_meta_bsize b)"
  shows "layout_ok b'" and "pool_end b' \<le> addr + unat poolsize + unat meta_poolsize"
    and "b_tx_log b' = addr + H"
    and "unat (b_datasize b') = unat poolsize - H - S"
    and "unat (b_metasize b') = addr + unat poolsize + unat meta_poolsize - b_meta b'"
    and "b_meta b' = addr + H + S + unat (b_datasize b') div unat (b_bsize b) * unat (b_bsize b)"
proof -
  note fields = runtime_info_fields [of hdrsize addr is_pmem poolsize meta_poolsize
      "b_tx_slots_count b" "b_tx_slot_size b" sync_type b, folded b'_def]
  let ?P = "unat poolsize" and ?M = "unat meta_poolsize"
  have tx: "b_tx_log b' = addr + H"
    using fit bound by (simp add: fields ptr_add_def H_def)
  have mul: "unat (ucast (b_tx_slots_count b) * b_tx_slot_size b) = S"
    using fit unat_lt_64 [of poolsize] by (subst unat_mult_no_wrap) (simp_all add: S_def)
  have data: "b_data b' = addr + H + S"
    unfolding fields(2) tx using fit bound by (simp add: ptr_add_def mul)
  show ds: "unat (b_datasize b') = ?P - H - S"
    unfolding fields(3) data using fit bound by (subst unat_of_nat_diff) (simp_all add: ptr_add_def)
  then have D: "unat (b_data_nlba b' * ucast (b_bsize b)) \<le> ?P - H - S"
    unfolding fields(4) unat_div_times using div_times_less_eq_dividend by simp
  have nl: "unat (b_data_nlba b' * ucast (b_bsize b)) = unat (b_data_nlba b') * unat (b_bsize b)"
    unfolding fields(4) unat_div_times by (simp add: unat_div)
  have meta: "b_meta b' = b_data b' + unat (b_data_nlba b') * unat (b_bsize b)"
    unfolding fields(5) using D fit bound data by (simp add: ptr_add_def nl)
  then have le: "b_meta b' \<le> addr + ?P"
    using D fit data nl by linarith
  show ms: "unat (b_metasize b') = addr + ?P + ?M - b_meta b'"
    unfolding fields(6) using le bound by (subst unat_of_nat_diff) (simp_all add: ptr_add_def)
  then have "unat (b_meta_nlba b') * unat (b_meta_bsize b) \<le> addr + ?P + ?M - b_meta b'"
    unfolding fields(7) unat_div using div_times_less_eq_dividend by simp
  then show "pool_end b' \<le> addr + ?P + ?M"
    using le by (simp add: pool_end_def fields)
  then show "layout_ok b'"
    using addr tx data meta hdr bound by (simp add: layout_ok_def fields(8-11) S_def)
  show "b_tx_log b' = addr + H" by (rule tx)
  show "b_meta b' = addr + H + S + unat (b_datasize b') div unat (b_bsize b) * unat (b_bsize b)"
    using meta data by (simp add: fields(4) unat_div)
qed

section \<open>Properties\<close>

lemma unat_ucast_64_32: "unat x < 4294967296 \<Longrightarrow> unat (ucast (x :: u64) :: u32) = unat x"
  by (simp add: unsigned_ucast_eq take_bit_nat_eq_self)

lemma unat_block_size:
  "unat (of_nat sizeof_pmb_data_hdr + ucast k + ucast v :: u64) = 32 + unat (k :: u32) + unat (v :: u32)"
proof -
  have "unat (32 + ucast k :: u64) = 32 + unat k"
    using unat_lt_32 [of k] by (subst unat_add_no_wrap) simp_all
  then show ?thesis
    using unat_lt_32 [of k] unat_lt_32 [of v]
    by (subst unat_add_no_wrap) (simp_all add: sizeof_pmb_data_hdr_def)
qed

lemma roundup_up:
  fixes n :: nat
  shows "n \<le> (n + 4095) div 4096 * 4096" and "(n + 4095) div 4096 * 4096 \<le> n + 4095"
  by arith+

lemma roundup_pos: "0 < n \<Longrightarrow> 4096 \<le> (n + 4095) div 4096 * 4096" for n :: nat
  using div_le_mono [of 4096 "n + 4095" 4096] by simp

text \<open>
  C28: creating a pool lays it out correctly: if the areas fit and no size overflows,
  \<open>backend_create\<close> succeeds, the header, the transaction slots, the data blocks and the meta
  blocks follow each other inside the mapped file without overlap, and every block has room
  for the object header with the longest key and value.
\<close>

theorem backend_create_layout:
  fixes tx_slots tx_slot_size :: u64 and w :: "'a world_scheme"
  assumes pool: "util_pool_create nv path (data_size + meta_size) = Some mp" "data_size + meta_size \<noteq> 0"
    and addr: "0 < mp_addr mp" "mp_addr mp + unat data_size + unat meta_size < 2 ^ 64"
    and lens: "unat max_key_len + unat max_val_len + 4127 < 2 ^ 32"
      "unat meta_max_key_len + unat meta_max_val_len + 4127 < 2 ^ 32"
    and slot: "0 < unat tx_slot_size" "unat tx_slot_size + 4095 < 2 ^ 32"
    and head: "unat (sizeof_backend nv) + 4095 < 2 ^ 64"
    and fit: "(unat (sizeof_backend nv) + 4095) div 4096 * 4096 +
      unat (ucast tx_slots :: u8) * ((unat tx_slot_size + 4095) div 4096 * 4096) \<le> unat data_size"
  shows "\<exists>b w'. backend_create nv path data_size meta_size tx_slots tx_slot_size max_key_len max_val_len
      meta_max_key_len meta_max_val_len sync_type w = Inr (Some b, w') \<and> layout_ok b \<and>
    mp_addr mp + unat (sizeof_backend nv) \<le> b_tx_log b \<and>
    pool_end b \<le> mp_addr mp + unat data_size + unat meta_size \<and>
    32 + unat max_key_len + unat max_val_len \<le> unat (b_bsize b) \<and>
    32 + unat meta_max_key_len + unat meta_max_val_len \<le> unat (b_meta_bsize b)"
proof -
  let ?bs = "roundup (of_nat sizeof_pmb_data_hdr + ucast max_key_len + ucast max_val_len) PMB_FORMAT_DATA_ALIGN"
  let ?ms = "roundup (of_nat sizeof_pmb_data_hdr + ucast meta_max_key_len + ucast meta_max_val_len) PMB_FORMAT_DATA_ALIGN"
  let ?ss = "roundup tx_slot_size PMB_FORMAT_DATA_ALIGN"
  let ?up = "\<lambda>n::nat. (n + 4095) div 4096 * 4096"
  have bs: "unat ?bs = ?up (32 + unat max_key_len + unat max_val_len)"
    using lens(1) by (subst unat_roundup) (simp_all add: unat_block_size)
  have ms: "unat ?ms = ?up (32 + unat meta_max_key_len + unat meta_max_val_len)"
    using lens(2) by (subst unat_roundup) (simp_all add: unat_block_size)
  have ss: "unat ?ss = ?up (unat tx_slot_size)"
    using slot(2) by (subst unat_roundup) simp_all
  have hs: "unat (roundup (sizeof_backend nv) PMB_FORMAT_DATA_ALIGN) = ?up (unat (sizeof_backend nv))"
    using head by (rule unat_roundup)
  note up = roundup_up [of "32 + unat max_key_len + unat max_val_len"]
    roundup_up [of "32 + unat meta_max_key_len + unat meta_max_val_len"]
    roundup_up [of "unat tx_slot_size"] roundup_up [of "unat (sizeof_backend nv)"]
  have lt: "unat ?bs < 4294967296" "unat ?ms < 4294967296" "unat ?ss < 4294967296"
    unfolding bs ms ss using up(2,4,6) lens slot(2) by simp_all
  define b0 where "b0 = (mp_hdr mp)\<lparr>b_bsize := ucast ?bs, b_meta_bsize := ucast ?ms,
    b_max_key_len := max_key_len, b_max_val_len := max_val_len,
    b_meta_max_key_len := meta_max_key_len, b_meta_max_val_len := meta_max_val_len,
    b_tx_slot_size := ucast (ucast ?ss :: u32), b_tx_slots_count := ucast tx_slots\<rparr>"
  have sz: "unat (b_bsize b0) = unat ?bs" "unat (b_meta_bsize b0) = unat ?ms"
    using lt by (simp_all add: b0_def unat_ucast_64_32)
  have sl: "b_tx_slot_size b0 = ?ss" "b_tx_slots_count b0 = ucast tx_slots"
    using lt by (auto simp: b0_def unat_ucast_64_32 intro: unat_eqI)
  have nz: "?bs \<noteq> 0" "?ms \<noteq> 0" "b_bsize b0 \<noteq> 0" "b_meta_bsize b0 \<noteq> 0"
    using bs ms sz up by (metis unat_0 add_is_0 le_zero_eq zero_neq_numeral)+
  let ?b = "backend_runtime_info (sizeof_backend nv) (mp_addr mp)
    (pmem_is_pmem nv (mp_addr mp) (data_size + meta_size)) data_size meta_size
    (b_tx_slots_count b0) (b_tx_slot_size b0) sync_type b0"
  obtain w' where created: "backend_create nv path data_size meta_size tx_slots tx_slot_size max_key_len
      max_val_len meta_max_key_len meta_max_val_len sync_type w = Inr (Some ?b, w')"
    using nz by (simp add: backend_create_def backend_map_common_def backend_check_header_def Let_def
        pool sl flip: b0_def)
  have room: "unat (roundup (sizeof_backend nv) PMB_FORMAT_DATA_ALIGN) +
      unat (b_tx_slots_count b0) * unat (b_tx_slot_size b0) \<le> unat data_size"
    using fit unfolding hs sl ss .
  have "24 \<le> unat (b_tx_slot_size b0)"
    unfolding sl ss by (rule order_trans [OF _ roundup_pos [OF slot(1)]]) simp
  moreover have "32 \<le> unat (b_bsize b0)" "32 \<le> unat (b_meta_bsize b0)"
    unfolding sz bs ms by (rule order_trans [OF _ roundup_pos]; simp)+
  ultimately have lay: "layout_ok ?b" "pool_end ?b \<le> mp_addr mp + unat data_size + unat meta_size"
      "b_tx_log ?b = mp_addr mp + unat (roundup (sizeof_backend nv) PMB_FORMAT_DATA_ALIGN)"
    by (rule runtime_info_layout [OF addr(1) room addr(2)])+
  have "b_bsize ?b = b_bsize b0" "b_meta_bsize ?b = b_meta_bsize b0"
    by (rule runtime_info_fields)+
  then have "32 + unat max_key_len + unat max_val_len \<le> unat (b_bsize ?b)"
      "32 + unat meta_max_key_len + unat meta_max_val_len \<le> unat (b_meta_bsize ?b)"
    using up(1,3) by (simp_all only: sz bs ms)
  moreover have "mp_addr mp + unat (sizeof_backend nv) \<le> b_tx_log ?b"
    using up(7) by (simp only: lay(3) hs add_le_cancel_left)
  ultimately show ?thesis
    using created lay(1,2) by blast
qed

text \<open>A concrete machine for the examples below: a 256 MB data region and a 16 MB meta region.\<close>

definition blank_backend :: backend where
  "blank_backend = \<lparr>b_bsize = 0, b_meta_bsize = 0, b_size = 0, b_is_pmem = False, b_datasize = 0,
     b_metasize = 0, b_data_nlba = 0, b_meta_nlba = 0, b_max_key_len = 0, b_max_val_len = 0,
     b_meta_max_key_len = 0, b_meta_max_val_len = 0, b_tx_slots_count = 0, b_tx_slot_size = 0,
     b_sync_type = 0, b_persist = Pmem_msync, b_weak_persist = Msync_weak, b_flush = Pmem_msync,
     b_drain = Drain_empty, b_memcpy = Libc_memcpy, b_addr = 0, b_tx_log = 0, b_data = 0, b_meta = 0\<rparr>"

definition sample_mapping :: mapping where
  "sample_mapping = \<lparr>mp_addr = 0x10000000, mp_hdr = blank_backend, mp_len = 0x11000000, mp_bytes = \<lambda>_. 0\<rparr>"

definition sample_nvml :: nvml where
  "sample_nvml = \<lparr>util_pool_open = \<lambda>_. None, util_pool_create = \<lambda>_ _. Some sample_mapping,
     pmem_is_pmem = \<lambda>_ _. False, sizeof_backend = 4352\<rparr>"

definition sample_world :: world where
  "sample_world = \<lparr>mem = \<lambda>_. 0, plog = [], Pagesize = 4096\<rparr>"

theorem backend_create_layout_witness:
  "\<exists>b w'. backend_create sample_nvml (Some ''pool'') 0x10000000 0x1000000 16 0x800000 64 1024 64 1024 0
      sample_world = Inr (Some b, w') \<and> layout_ok b \<and> 0x10000000 + 4352 \<le> b_tx_log b \<and>
    pool_end b \<le> 0x10000000 + 0x10000000 + 0x1000000 \<and> 1120 \<le> unat (b_bsize b)"
proof -
  have "\<exists>b w'. backend_create sample_nvml (Some ''pool'') 0x10000000 0x1000000 16 0x800000 64 1024 64 1024 0
      sample_world = Inr (Some b, w') \<and> layout_ok b \<and>
    mp_addr sample_mapping + unat (sizeof_backend sample_nvml) \<le> b_tx_log b \<and>
    pool_end b \<le> mp_addr sample_mapping + unat (0x10000000 :: u64) + unat (0x1000000 :: u64) \<and>
    32 + unat (64 :: u32) + unat (1024 :: u32) \<le> unat (b_bsize b) \<and>
    32 + unat (64 :: u32) + unat (1024 :: u32) \<le> unat (b_meta_bsize b)"
    by (rule backend_create_layout) (simp_all add: sample_nvml_def sample_mapping_def)
  then show ?thesis
    by (auto simp: sample_nvml_def sample_mapping_def)
qed

text \<open>
  C29: in a pool with a correct layout, the block addresses that \<open>backend_direct\<close> computes for
  two different identifiers (data blocks, and meta blocks above the first meta identifier)
  are those of disjoint byte ranges inside the pool, apart from every transaction slot.
\<close>

theorem backend_blocks_disjoint:
  assumes "block_ok b i" and "block_ok b j" and "i \<noteq> j" and "slot_ok b s"
  shows "apart (backend_direct (Some b) i) (block_len b i) (backend_direct (Some b) j) (block_len b j) \<and>
    apart (backend_tx_direct (Some b) s) (unat (b_tx_slot_size b)) (backend_direct (Some b) i) (block_len b i) \<and>
    b_tx_log b \<le> backend_direct (Some b) i \<and> backend_direct (Some b) i + block_len b i \<le> pool_end b"
  using assms bs.blocks_apart bs.slot_block_apart block_in_pool [OF assms(1)] layout_order [of b]
  by (auto simp: block_ok_def)

definition sample_backend :: backend where
  "sample_backend = backend_runtime_info 4352 0x10000000 False 0x10000000 0x1000000 16 0x800000 0
     (blank_backend\<lparr>b_bsize := 4096, b_meta_bsize := 4096, b_max_key_len := 64, b_max_val_len := 1024,
        b_meta_max_key_len := 64, b_meta_max_val_len := 1024, b_tx_slot_size := 0x800000,
        b_tx_slots_count := 16\<rparr>)"

lemma sample_backend_fields:
  "b_addr sample_backend = 0x10000000" "b_tx_log sample_backend = 0x10002000"
  "b_data sample_backend = 0x18002000" "b_data_nlba sample_backend = 32766"
  "b_meta sample_backend = 0x20000000" "b_meta_nlba sample_backend = 4096"
  "b_bsize sample_backend = 4096" "b_meta_bsize sample_backend = 4096"
  "b_tx_slots_count sample_backend = 16" "b_tx_slot_size sample_backend = 0x800000"
  "b_sync_type sample_backend = 0" "b_memcpy sample_backend = Libc_memcpy"
  "b_datasize sample_backend = 0x7FFE000" "b_metasize sample_backend = 0x1000000"
  "b_persist sample_backend = Pmem_msync"
  by (simp_all add: sample_backend_def backend_runtime_info_def blank_backend_def Let_def ptr_add_def
      roundup_def PMB_FORMAT_DATA_ALIGN_def)

lemma sample_layout: "layout_ok sample_backend"
  by (simp add: layout_ok_def pool_end_def sample_backend_fields)

theorem backend_blocks_disjoint_witness:
  "apart (backend_direct (Some sample_backend) 1) 4096 (backend_direct (Some sample_backend) 36000) 4096"
proof -
  have "block_ok sample_backend 1" "block_ok sample_backend 36000" "slot_ok sample_backend 3"
    and "block_len sample_backend 1 = 4096" "block_len sample_backend 36000 = 4096"
    by (simp_all add: block_ok_def slot_ok_def sample_layout data_id_def meta_id_def sample_backend_fields
        word_nat block_len_def)
  then show ?thesis
    using backend_blocks_disjoint [of sample_backend 1 36000 3] by simp
qed

lemma backend_direct_border:
  assumes ok: "layout_ok b" and ne: "0 < b_data_nlba b" "0 < b_meta_nlba b"
    and size: "b_meta_bsize b \<le> b_bsize b"
  shows "backend_direct (Some b) (b_data_nlba b) = b_meta b - unat (b_meta_bsize b)"
    and "unat (b_meta_bsize b) < b_meta b"
proof -
  let ?n = "b_data_nlba b" and ?bs = "unat (b_bsize b)" and ?ms = "unat (b_meta_bsize b)"
  have "0 < unat ?n"
    using ne(1) by (simp add: word_nat)
  then have meta: "b_meta b = b_data b + (unat ?n - 1) * ?bs + ?bs"
    using ok by (cases "unat ?n") (simp_all add: layout_ok_def)
  have "0 < ?ms" "b_meta b < 18446744073709551616" and lt: "?ms < b_meta b"
    using ok layout_order [OF ok] meta size by (auto simp: layout_ok_def word_nat)
  then have "ptr_add (b_meta b) (- 1 * ucast (b_meta_bsize b)) = b_meta b - ?ms"
    using unat_sub_if' [of 0 "ucast (b_meta_bsize b) :: u64"] by (simp add: ptr_add_def mod_if)
  moreover have "\<not> ?n < ?n" and "?n < ?n + b_meta_nlba b"
    using nlba_sum_no_wrap [OF ok] ne(2) by (simp_all add: word_nat)
  ultimately show "backend_direct (Some b) ?n = b_meta b - ?ms"
    by (simp add: backend_direct_def)
  show "?ms < b_meta b"
    by (rule lt)
qed

text \<open>
  C30: the first identifier of the meta region, \<open>data_nlba\<close>, is the exception: \<open>backend_direct\<close>
  subtracts one block too many, the index wraps to -1, and the block it returns lies inside
  the last data block, so that a write to either destroys the other.
\<close>

theorem backend_direct_border_aliases:
  assumes ok: "layout_ok b" and ne: "0 < b_data_nlba b" "0 < b_meta_nlba b"
    and size: "b_meta_bsize b \<le> b_bsize b"
  shows "backend_direct (Some b) (b_data_nlba b) = b_meta b - unat (b_meta_bsize b) \<and>
    backend_direct (Some b) (b_data_nlba b - 1) \<le> backend_direct (Some b) (b_data_nlba b) \<and>
    backend_direct (Some b) (b_data_nlba b) + unat (b_meta_bsize b) \<le>
      backend_direct (Some b) (b_data_nlba b - 1) + block_len b (b_data_nlba b - 1)"
proof -
  let ?n = "b_data_nlba b" and ?bs = "unat (b_bsize b)" and ?ms = "unat (b_meta_bsize b)"
  have n0: "?n \<noteq> 0"
    using ne(1) by auto
  have n: "unat (?n - 1) = unat ?n - 1" "0 < unat ?n"
    using unat_pred [OF n0] n0 by (simp_all add: unat_gt_0)
  have last: "data_id b (?n - 1)"
    using n by (simp add: data_id_def word_nat)
  note lo = backend_direct_data [OF ok last, unfolded n]
  have meta: "b_meta b = b_data b + (unat ?n - 1) * ?bs + ?bs"
    using ok n(2) by (cases "unat ?n") (simp_all add: layout_ok_def)
  have at: "backend_direct (Some b) ?n = b_meta b - ?ms"
    using backend_direct_border(1) [OF ok ne size] .
  moreover have "?ms \<le> ?bs" using size by (simp add: word_nat)
  ultimately show ?thesis
    using lo meta last by (simp add: block_len_def)
qed

theorem backend_direct_border_aliases_witness:
  "backend_direct (Some sample_backend) 32766 = backend_direct (Some sample_backend) 32765"
proof -
  have "b_data_nlba sample_backend - 1 = 32765"
    by (simp add: sample_backend_fields)
  then show ?thesis
    using backend_direct_border_aliases [OF sample_layout]
    by (simp add: sample_backend_fields block_len_def data_id_def)
qed

text \<open>
  C31: what \<open>backend_get\<close> reports in a pool with a correct layout. For every identifier but the
  first of the meta region: a pointer exactly for the blocks of the pool whose checksum
  field is not 0, and then to a block inside the pool, with the error code untouched;
  otherwise NULL with "no backend" for identifier 0, "invalid identifier" for one that names
  no block, and "no entry" for a block without an object. For the first of the meta region (where neither region is
  empty and a meta block not longer than a data block): the address one meta block in front of the meta
  area, or NULL with "no entry", as the eight bytes there, which belong to the last data block, say.
\<close>

theorem backend_get_cases:
  assumes ok: "layout_ok b"
  shows "case backend_get (Some b) i err w of (p, e) \<Rightarrow> if i \<noteq> b_data_nlba b then
      (p \<noteq> NULL \<longleftrightarrow> i \<noteq> 0 \<and> block_ok b i \<and> ld_u64 (mem w) (backend_direct (Some b) i) \<noteq> 0) \<and>
      (p \<noteq> NULL \<longrightarrow> b_data b \<le> p \<and> p + block_len b i \<le> pool_end b \<and> e = err) \<and>
      (p = NULL \<longrightarrow> e = (if i = 0 then BACKEND_NO_BACKEND else if \<not> block_ok b i then BACKEND_INV_ID else BACKEND_ENOENT))
    else 0 < i \<and> 0 < b_meta_nlba b \<and> b_meta_bsize b \<le> b_bsize b \<longrightarrow>
      (let q = b_meta b - unat (b_meta_bsize b)
       in (p, e) = (if ld_u64 (mem w) q = 0 then (NULL, BACKEND_ENOENT) else (q, err)))"
proof (cases "i = b_data_nlba b")
  case True
  show ?thesis
  proof (cases "0 < i \<and> 0 < b_meta_nlba b \<and> b_meta_bsize b \<le> b_bsize b")
    case cond: True
    then have d: "backend_direct (Some b) i = b_meta b - unat (b_meta_bsize b)" "unat (b_meta_bsize b) < b_meta b" and "i \<noteq> 0"
      using backend_direct_border [OF ok] True by auto
    then obtain q where q: "b_meta b - unat (b_meta_bsize b) = q" "backend_direct (Some b) i = q" "q \<noteq> NULL" "i \<noteq> 0"
      by (simp add: NULL_def)
    show ?thesis
      using cond q(2-) unfolding q(1) by (simp add: True backend_get_def Let_def hdr_at_def)
  qed (use True in auto)
next
  case i: False
  show ?thesis
  proof (cases "block_ok b i")
    case True
    then show ?thesis
      using block_in_pool [OF True] bs.direct_not_null [OF True] i by (auto simp: backend_get_def Let_def hdr_at_def)
  next
    case False
    then have "\<not> i < b_data_nlba b" "\<not> i < b_data_nlba b + b_meta_nlba b"
      using ok i nlba_sum_no_wrap [OF ok] by (auto simp: block_ok_def data_id_def meta_id_def word_nat dest: unat_eqI)
    then have "backend_direct (Some b) i = NULL"
      by (simp add: backend_direct_def)
    then show ?thesis
      using False i by (simp add: backend_get_def)
  qed
qed

theorem backend_get_cases_witness:
  "backend_get (Some sample_backend) 40000 9 sample_world = (NULL, BACKEND_INV_ID) \<and>
   backend_get (Some sample_backend) 7 9 sample_world = (NULL, BACKEND_ENOENT) \<and>
   backend_get (Some sample_backend) 32766 9 (sample_world\<lparr>mem := st_u64 (mem sample_world) 0x1FFFF000 5\<rparr>) = (0x1FFFF000, 9)"
proof -
  have "\<not> block_ok sample_backend 40000" "block_ok sample_backend 7"
      "ld_u64 (mem sample_world) (backend_direct (Some sample_backend) 7) = 0"
    by (simp_all add: block_ok_def sample_layout data_id_def meta_id_def sample_backend_fields word_nat sample_world_def)
  then show ?thesis
    using backend_get_cases [OF sample_layout, where i = 40000 and err = 9 and w = sample_world] backend_get_cases [OF sample_layout, where i = 7 and err = 9 and w = sample_world]
      backend_get_cases [OF sample_layout, where i = 32766 and err = 9 and w = "sample_world\<lparr>mem := st_u64 (mem sample_world) 0x1FFFF000 5\<rparr>"]
    by (auto simp: sample_backend_fields split: prod.splits)
qed

text \<open>
  Clearing an object whose lengths fit its block makes \<open>backend_get\<close> report "no entry" for
  it and leaves every byte of every other block and of every transaction slot unchanged.
\<close>

theorem backend_set_zero_clears:
  fixes w :: "'a world_scheme"
  assumes i: "block_ok b i" "i \<noteq> 0"
    and fits: "32 + unat (h_key_len (hdr_at (mem w) (backend_direct (Some b) i))) +
      unat (h_val_len (hdr_at (mem w) (backend_direct (Some b) i))) \<le> block_len b i"
  defines "w' \<equiv> snd (backend_set_zero (Some b) (backend_direct (Some b) i) w)"
  shows "backend_get (Some b) i err w' = (NULL, BACKEND_ENOENT) \<and>
    (\<forall>j. block_ok b j \<and> j \<noteq> i \<longrightarrow> same_on (backend_direct (Some b) j) (block_len b j) (mem w') (mem w)) \<and>
    (\<forall>s. slot_ok b s \<longrightarrow> same_on (backend_tx_direct (Some b) s) (unat (b_tx_slot_size b)) (mem w') (mem w))"
proof -
  let ?p = "backend_direct (Some b) i"
  have p: "?p \<noteq> NULL" "32 \<le> block_len b i"
    using i(1) bs.direct_not_null bs.extent_header by blast+
  obtain n where m: "mem w' = memset (mem w) ?p 0 n" and n: "32 \<le> n" "n \<le> block_len b i"
    using p fits by (auto simp: w'_def backend_set_zero_def Let_def sizeof_pmb_data_hdr_def)
  have out: "same_on q k (mem w') (mem w)" if "apart ?p (block_len b i) q k" for q k
    unfolding m by (rule same_on_memset) (use that n in \<open>auto simp: apart_def\<close>)
  have "h_flch64 (hdr_at (mem w') ?p) = 0"
    using n by (simp add: hdr_at_def m)
  then have "backend_get (Some b) i err w' = (NULL, BACKEND_ENOENT)"
    using i(2) p(1) by (simp add: backend_get_def)
  then show ?thesis
    using bs.other_block_same [OF i(1) _ _ out] bs.slot_same [OF i(1) _ out] by metis
qed

theorem backend_set_zero_clears_witness:
  "backend_get (Some sample_backend) 5 0
     (snd (backend_set_zero (Some sample_backend) 0x18007000
       (sample_world\<lparr>mem := st_u32 (st_u64 (\<lambda>_. 0) 0x18007000 77) 0x18007014 3\<rparr>))) = (NULL, BACKEND_ENOENT)"
proof -
  let ?w = "sample_world\<lparr>mem := st_u32 (st_u64 (\<lambda>_. 0) 0x18007000 77) 0x18007014 3\<rparr>"
  have five: "data_id sample_backend 5"
    by (simp add: data_id_def sample_backend_fields)
  have at: "backend_direct (Some sample_backend) 5 = 0x18007000"
    using backend_direct_data(1) [OF sample_layout five] by (simp add: sample_backend_fields)
  have "block_ok sample_backend 5" and "block_len sample_backend 5 = 4096"
    using five by (simp_all add: block_ok_def sample_layout block_len_def sample_backend_fields)
  then show ?thesis
    using backend_set_zero_clears [of sample_backend 5 ?w 0] by (simp add: at hdr_at_def)
qed

text \<open>
  C32: \<open>backend_persist_all\<close> makes one durable range. It starts at
  the transaction log but has only the length of the data and meta areas, so the distance from its end to
  the end of the mapped pool is the size of the transaction log, less the unused rest of
  the data area (\<open>datasize mod bsize\<close>, counted twice in the length): whenever that rest is smaller than the log, the
  last bytes of the pool are not covered.
\<close>

theorem backend_persist_all_range:
  fixes hdrsize poolsize meta_poolsize :: u64 and b :: backend and addr is_pmem sync_type
    and w :: "'a world_scheme"
  defines "b' \<equiv> backend_runtime_info hdrsize addr is_pmem poolsize meta_poolsize
      (b_tx_slots_count b) (b_tx_slot_size b) sync_type b"
    and "S \<equiv> unat (b_tx_slots_count b) * unat (b_tx_slot_size b)"
  assumes addr: "0 < addr" and fit: "unat (roundup hdrsize PMB_FORMAT_DATA_ALIGN) + S \<le> unat poolsize"
    and bound: "addr + unat poolsize + unat meta_poolsize + unat (b_bsize b) < 2 ^ 64"
    and hdr: "24 \<le> unat (b_tx_slot_size b)" "32 \<le> unat (b_bsize b)" "32 \<le> unat (b_meta_bsize b)"
  shows "\<exists>n. backend_persist_all (Some b') w = (BACKEND_OK, w\<lparr>plog := plog w @ [Durable (b_tx_log b') n]\<rparr>) \<and>
    b_tx_log b' + n + S = addr + unat poolsize + unat meta_poolsize + unat (b_datasize b') mod unat (b_bsize b) \<and>
    (unat (b_datasize b') mod unat (b_bsize b) < S \<longrightarrow> b_tx_log b' + n < addr + unat poolsize + unat meta_poolsize)"
proof -
  let ?H = "unat (roundup hdrsize PMB_FORMAT_DATA_ALIGN)" and ?P = "unat poolsize" and ?M = "unat meta_poolsize"
  let ?d = "unat (b_datasize b')" and ?bs = "unat (b_bsize b)"
  have bound': "addr + ?P + ?M + ?bs < 18446744073709551616"
    using bound by simp
  then have "addr + ?P + ?M < 2 ^ 64"
    by simp
  note lay = runtime_info_layout [OF addr fit [unfolded S_def] this hdr, of is_pmem sync_type,
      folded S_def b'_def]
  have split: "?d = ?d div ?bs * ?bs + ?d mod ?bs" and "?d mod ?bs < ?bs"
    using hdr(2) by simp_all
  moreover have "unat (b_metasize b') = ?M + ?d mod ?bs"
    using lay(4,5,6) fit split by linarith
  ultimately have "unat (b_datasize b' + b_metasize b') = ?P - ?H - S + ?M + ?d mod ?bs"
    using lay(4) bound' fit by (subst unat_add_no_wrap; linarith)
  moreover have "b_persist b' = Pmem_persist \<or> b_persist b' = Pmem_msync"
    by (simp add: b'_def backend_runtime_info_def Let_def)
  ultimately show ?thesis
    using lay(3) fit by (auto simp: backend_persist_all_def call_persist_def)
qed

theorem backend_persist_all_range_witness:
  "\<exists>n. backend_persist_all (Some sample_backend) sample_world =
      (BACKEND_OK, sample_world\<lparr>plog := [Durable 0x10002000 n]\<rparr>) \<and>
    0x10002000 + n + 0x8000000 = 0x21000000"
proof -
  let ?b = "blank_backend\<lparr>b_bsize := 4096, b_meta_bsize := 4096, b_max_key_len := 64, b_max_val_len := 1024,
        b_meta_max_key_len := 64, b_meta_max_val_len := 1024, b_tx_slot_size := 0x800000,
        b_tx_slots_count := 16\<rparr>"
  have "sample_backend = backend_runtime_info 4352 0x10000000 False 0x10000000 0x1000000
      (b_tx_slots_count ?b) (b_tx_slot_size ?b) 0 ?b"
    by (simp add: sample_backend_def)
  then show ?thesis
    using backend_persist_all_range [where hdrsize = 4352 and addr = "0x10000000" and b = ?b
        and poolsize = "0x10000000" and meta_poolsize = "0x1000000" and is_pmem = False
        and sync_type = 0 and w = sample_world]
    by (simp add: sample_backend_fields roundup_def PMB_FORMAT_DATA_ALIGN_def sample_world_def)
qed

end
