(* ===== verification/Handle.thy ===== *)
theory Handle
  imports Caslist Backend
begin

text \<open>
  The run-time state of an open store (\<open>struct _pmb_handle\<close> and the structures it holds,
  \<open>src/kv.h\<close>) and the status codes of \<open>include/pmbackend.h\<close>. The record \<open>pmb_handle\<close>
  extends \<open>world\<close>: it carries the process memory next to the fields of the structure, so
  that the functions of the backend apply to it as they are.
\<close>

definition PMB_OK :: u8 where "PMB_OK = 0"
definition PMB_ERR :: u8 where "PMB_ERR = 1"
definition PMB_ENOENT :: u8 where "PMB_ENOENT = 2"
definition PMB_ENOSPC :: u8 where "PMB_ENOSPC = 3"
definition PMB_ECREAT :: u8 where "PMB_ECREAT = 4"
definition PMB_ESBWR :: u8 where "PMB_ESBWR = 5"
definition PMB_ESBCR :: u8 where "PMB_ESBCR = 6"
definition PMB_ESBIN :: u8 where "PMB_ESBIN = 7"
definition PMB_ESIZE :: u8 where "PMB_ESIZE = 8"
definition PMB_EWRGID :: u8 where "PMB_EWRGID = 9"
definition PMB_EARGS :: u8 where "PMB_EARGS = 10"

definition PMB_SYNC :: u8 where "PMB_SYNC = 0"
definition PMB_ASYNC :: u8 where "PMB_ASYNC = 1"
definition PMB_SELSYNC :: u8 where "PMB_SELSYNC = 2"
definition PMB_THSYNC :: u8 where "PMB_THSYNC = 3"
definition PMB_NOSYNC :: u8 where "PMB_NOSYNC = 4"

lemmas pmb_codes = PMB_OK_def PMB_ERR_def PMB_ENOENT_def PMB_ENOSPC_def PMB_ECREAT_def PMB_ESBWR_def
  PMB_ESBCR_def PMB_ESBIN_def PMB_ESIZE_def PMB_EWRGID_def PMB_EARGS_def

text \<open>
  A pending header update of an object changed in place. The array behind \<open>tx_metalist.list\<close>
  has 128 entries and is not initialised by \<open>malloc\<close>.
\<close>

record tx_meta =
  tm_id :: u64
  tm_version :: u32
  tm_val_len :: u32
  tm_offset :: u32

record tx_metalist =
  ml_count :: nat
  ml_list :: "tx_meta list"

record tx_log =
  tx_slots_count :: u8
  tx_slot_capacity :: u32
  tx_slots_list :: "caslist option"
  upd_id_list :: "tx_metalist list"

record pmb_handle = world +
  bck :: backend
  total_objs_count :: u64
  meta_objs_count :: u64
  max_key_len :: u32
  max_val_len :: u32
  meta_max_key_len :: u32
  meta_max_val_len :: u32
  objs_list :: "caslist option"
  free_list :: "caslist option"
  meta_objs_list :: "caslist option"
  meta_free_list :: "caslist option"
  op_log :: tx_log

text \<open>\<open>get_block_size\<close>: the sum is computed as \<open>size_t\<close> and truncated to 32 bits.\<close>

definition get_block_size :: "u32 \<Rightarrow> u32 \<Rightarrow> u32" where
  "get_block_size key_len val_len = ucast (ucast val_len + of_nat sizeof_pmb_data_hdr + ucast key_len :: u64)"

section \<open>Lists of identifiers behind a pointer\<close>

text \<open>The contract of \<open>caslist\<close> for the optional lists of the handle.\<close>

definition list_wf :: "caslist option \<Rightarrow> bool" where
  "list_wf list \<longleftrightarrow> (\<exists>l. list = Some l \<and> caslist_wf l)"

definition list_ids :: "caslist option \<Rightarrow> u64 set" where
  "list_ids list = (case list of None \<Rightarrow> {} | Some l \<Rightarrow> caslist_ids l)"

lemma list_push:
  assumes "list_wf list" and "valid_id v"
  shows "list_wf (caslist_push list v)" and "list_ids (caslist_push list v) = insert v (list_ids list)"
  using assms cas.push_invar cas.push_ids
  by (auto simp: list_wf_def list_ids_def caslist_push_def valid_id_def)

lemma list_push_0 [simp]: "caslist_push list 0 = list"
  by (simp add: caslist_push_def split: option.split)

lemma list_pop:
  assumes "list_wf list"
  obtains (empty) "list_ids list = {}" "caslist_pop list (Some x) = (1, Some 0, list)"
    | (taken) v list' where "caslist_pop list (Some x) = (0, Some v, list')" "v \<in> list_ids list" "valid_id v"
      "list_wf list'" "list_ids list' = list_ids list - {v}" "\<forall>u\<in>list_ids list. v \<le> u"
proof -
  obtain l where l: "list = Some l" "caslist_wf l"
    using assms by (auto simp: list_wf_def)
  show ?thesis
  proof (cases "cl_begin l = 0 \<and> cl_end l = 0")
    case True
    then show ?thesis
      using empty l by (simp add: list_ids_def caslist_ids_empty_iff caslist_pop_def)
  next
    case False
    note ok = caslist_pop_locked_ok [OF l(2) False]
    have "valid_id (cl_begin l)"
      using ok(3) valid_id_caslist_ids [OF l(2)] by blast
    then show ?thesis
      using taken [of "cl_begin l" "Some (snd (caslist_pop_locked l))"] False ok l
      by (auto simp: list_ids_def list_wf_def caslist_pop_def caslist_pop_locked_def Let_def)
  qed
qed

section \<open>Checksums\<close>

text \<open>
  NVML's \<open>util_checksum (addr, len, csump, insert)\<close> is a parameter: it returns the truth value
  of the C result and the memory after the call. \<open>checksum_spec\<close> is what its documentation
  promises: with \<open>insert\<close> the checksum of the range (the field behind \<open>csump\<close> counted as
  zero) is stored behind \<open>csump\<close> and nothing else changes; without, the stored field is
  compared with the checksum of the range and nothing changes.
\<close>

type_synonym checksum_fn = "memory \<Rightarrow> ptr \<Rightarrow> nat \<Rightarrow> ptr \<Rightarrow> bool \<Rightarrow> bool \<times> memory"

definition range_without :: "memory \<Rightarrow> ptr \<Rightarrow> nat \<Rightarrow> ptr \<Rightarrow> u8 list" where
  "range_without m addr len csump = ld_bytes (st_u64 m csump 0) addr len"

definition checksum_spec :: "checksum_fn \<Rightarrow> (u8 list \<Rightarrow> u64) \<Rightarrow> bool" where
  "checksum_spec uc ck \<longleftrightarrow> (\<forall>m addr len csump.
     uc m addr len csump True = (True, st_u64 m csump (ck (range_without m addr len csump))) \<and>
     uc m addr len csump False = (ld_u64 m csump = ck (range_without m addr len csump), m))"

lemma checksum_insert:
  "checksum_spec uc ck \<Longrightarrow> uc m addr len csump True = (True, st_u64 m csump (ck (range_without m addr len csump)))"
  by (simp add: checksum_spec_def)

lemma checksum_verify:
  "checksum_spec uc ck \<Longrightarrow> uc m addr len csump False = (ld_u64 m csump = ck (range_without m addr len csump), m)"
  by (simp add: checksum_spec_def)

lemma st_bytes_overwrite: "length bs = length cs \<Longrightarrow> st_bytes (st_bytes m p bs) p cs = st_bytes m p cs"
  by (auto simp: st_bytes_def)

lemma range_without_st_u64 [simp]: "range_without (st_u64 m csump v) addr len csump = range_without m addr len csump"
  by (simp add: range_without_def st_u64_def st_bytes_overwrite)

text \<open>A range that was checksummed verifies as long as its bytes stay the same.\<close>

lemma checksum_round_trip:
  assumes "checksum_spec uc ck"
  shows "fst (uc (snd (uc m addr len csump True)) addr len csump False)"
  using assms by (simp add: checksum_insert checksum_verify)

lemma range_without_cong:
  assumes "same_on addr len m m'"
  shows "range_without m addr len csump = range_without m' addr len csump"
  unfolding range_without_def
proof (rule ld_bytes_cong)
  show "same_on addr len (st_u64 m csump 0) (st_u64 m' csump 0)"
    using assms by (auto simp: same_on_def st_u64_def st_bytes_def)
qed

end
