(* ===== verification/Tx_Log.thy ===== *)
theory Tx_Log
  imports Handle
begin

text \<open>
  The transaction log, \<open>src/tx_log.c\<close>. A transaction occupies one slot of the pool: a head
  (\<open>tx_slot\<close>) followed by entries of 24 bytes; the entry of an in-place update is followed by
  its payload. The functions read and write the slot as bytes of the mapped pool, as the
  code does, so that a store through one pointer is seen through every other.

  A function that may crash returns \<open>crash + 'a\<close>. The parameter \<open>uc\<close> is NVML's
  \<open>util_checksum\<close>.
\<close>

unbundle bit_operations_syntax

section \<open>Setting up and handing out slots\<close>

text \<open>
  What \<open>malloc\<close> gives to \<open>tx_log_init\<close>: whether the list of slots and the array of
  \<open>tx_metalist\<close> can be allocated, and for each slot the 128 entries as \<open>malloc\<close> leaves them (the
  empty list when it fails: any access to it is then out of bounds).
\<close>

record log_heap =
  lh_list_ok :: bool
  lh_array_ok :: bool
  lh_metas :: "nat \<Rightarrow> tx_meta list"

text \<open>
  The loop of \<open>tx_log_init\<close>, from slot number \<open>i\<close> on. The counter is a \<open>uint8_t\<close>: with 255
  slots it wraps to 0 after 255, and the array is indexed with -1.
\<close>

function (sequential) tx_log_init_loop :: "log_heap \<Rightarrow> u8 \<Rightarrow> u8 \<Rightarrow> tx_log \<Rightarrow> crash + tx_log" where
  "tx_log_init_loop hp n i lg =
     (if i \<le> n then
        (let lg = lg\<lparr>tx_slots_list := caslist_push (tx_slots_list lg) (ucast i)\<rparr>
         in if \<not> lh_array_ok hp then Inl NullDeref
            else if i = 0 then Inl OutOfBounds
            else tx_log_init_loop hp n (i + 1)
              (lg\<lparr>upd_id_list := (upd_id_list lg)[unat i - 1 :=
                 \<lparr>ml_count = 0, ml_list = lh_metas hp (unat i - 1)\<rparr>]\<rparr>))
      else Inr lg)"
  by pat_completeness auto
termination
proof (relation "measure (\<lambda>(hp, n, i, lg). if i = 0 then 0 else 256 - unat i)")
  fix i :: u8
  assume "i \<noteq> 0"
  moreover from this have "i + 1 = 0 \<or> unat (i + 1) = Suc (unat i)"
    using unatSuc [of i] by (auto simp: add.commute)
  ultimately show "((hp, n, i + 1, lg'), (hp, n, i, lg)) \<in> measure (\<lambda>(hp, n, i, lg). if i = 0 then 0 else 256 - unat i)"
    for hp :: log_heap and n and lg lg' :: tx_log
    using unat_lt_8 [of i] by auto
qed simp_all

definition tx_log_init :: "log_heap \<Rightarrow> u8 \<Rightarrow> pmb_handle \<Rightarrow> crash + pmb_handle" where
  "tx_log_init hp n s =
     bindR (tx_log_init_loop hp n 1
        \<lparr>tx_slots_count = n,
         tx_slot_capacity = ucast ((ucast (get_block_size (max_key_len s) (max_val_len s)) -
            of_nat sizeof_tx_slot :: u64) div of_nat sizeof_tx_entry),
         tx_slots_list = caslist_new (lh_list_ok hp) 1 (ucast n),
         upd_id_list = replicate (unat n) \<lparr>ml_count = 0, ml_list = []\<rparr>\<rparr>)
       (\<lambda>lg. Inr (s\<lparr>op_log := lg\<rparr>))"

text \<open>\<open>tx_log_free\<close> releases the arrays and the list of slots.\<close>

definition tx_log_free :: "pmb_handle \<Rightarrow> pmb_handle" where
  "tx_log_free s = s\<lparr>op_log := (op_log s)\<lparr>upd_id_list := [], tx_slots_count := 0,
     tx_slots_list := snd (caslist_free (tx_slots_list (op_log s)))\<rparr>\<rparr>"

text \<open>The status is a \<open>uint64_t\<close>; the cell behind \<open>tx_slot_pt\<close> is returned with it.\<close>

definition tx_log_get_slot :: "pmb_handle \<Rightarrow> u64 \<Rightarrow> u64 \<times> u64 \<times> pmb_handle" where
  "tx_log_get_slot s tx_slot_pt =
     (case caslist_pop (tx_slots_list (op_log s)) (Some tx_slot_pt) of
        (st, cell, l) \<Rightarrow> (ucast st, (case cell of None \<Rightarrow> tx_slot_pt | Some v \<Rightarrow> v),
          s\<lparr>op_log := (op_log s)\<lparr>tx_slots_list := l\<rparr>\<rparr>))"

definition tx_log_free_slot :: "pmb_handle \<Rightarrow> u64 \<Rightarrow> pmb_handle" where
  "tx_log_free_slot s tx_slot_id =
     s\<lparr>op_log := (op_log s)\<lparr>tx_slots_list := caslist_push (tx_slots_list (op_log s)) tx_slot_id\<rparr>\<rparr>"

section \<open>Slot states\<close>

text \<open>The slot numbers of the API are 1-based; \<open>backend_tx_direct\<close> takes a 0-based \<open>uint8_t\<close>.\<close>

definition tx_slot_ptr :: "pmb_handle \<Rightarrow> u64 \<Rightarrow> ptr" where
  "tx_slot_ptr s tx_slot_id = backend_tx_direct (Some (bck s)) (ucast (tx_slot_id - 1))"

definition tx_slot_checksum :: "checksum_fn \<Rightarrow> ptr \<Rightarrow> u8 \<Rightarrow> pmb_handle \<Rightarrow> pmb_handle" where
  "tx_slot_checksum uc slot tx_slot_id s =
     (let s = s\<lparr>mem := snd (uc (mem s) slot (unat (s_size (slot_at (mem s) slot))) slot True)\<rparr>
      in snd (backend_tx_persist (Some (bck s)) tx_slot_id (s_size (slot_at (mem s) slot)) s))"

definition tx_slot_init :: "pmb_handle \<Rightarrow> u64 \<Rightarrow> u8 \<times> pmb_handle" where
  "tx_slot_init s tx_slot_id =
     (if tx_slot_id = 0 \<or> tx_slot_id > ucast (tx_slots_count (op_log s)) then (PMB_ERR, s)
      else let slot = tx_slot_ptr s tx_slot_id
           in if slot = NULL then (PMB_ERR, s)
              else let m = set_slot_flch64 (mem s) slot 0;
                       m = set_slot_status m slot PROCESSING;
                       m = set_slot_size m slot (of_nat sizeof_tx_slot)
                   in (PMB_OK, s\<lparr>mem := m\<rparr>))"

definition tx_slot_commit :: "checksum_fn \<Rightarrow> pmb_handle \<Rightarrow> u64 \<Rightarrow> u8 \<times> pmb_handle" where
  "tx_slot_commit uc s tx_slot_id =
     (if tx_slot_id = 0 \<or> tx_slot_id > ucast (tx_slots_count (op_log s)) then (PMB_ERR, s)
      else let slot = tx_slot_ptr s tx_slot_id
           in if slot = NULL then (PMB_ERR, s)
              else if s_status (slot_at (mem s) slot) \<noteq> status_code PROCESSING then (PMB_ERR, s)
              else let s = s\<lparr>mem := set_slot_status (mem s) slot COMMITED\<rparr>
                   in (PMB_OK, tx_slot_checksum uc slot (ucast (tx_slot_id - 1)) s))"

section \<open>In-place updates\<close>

text \<open>
  The \<open>while\<close> loop of \<open>tx_slot_meta_upd_add\<close>: the first index below \<open>count\<close> whose entry has
  the identifier or is free, or \<open>count\<close>.
\<close>

function meta_index :: "tx_meta list \<Rightarrow> nat \<Rightarrow> u64 \<Rightarrow> nat \<Rightarrow> crash + nat" where
  "meta_index ms count blk_id i =
     (if i < count then
        (if length ms \<le> i then Inl OutOfBounds
         else if tm_id (ms ! i) = blk_id \<or> tm_id (ms ! i) = 0 then Inr i
         else meta_index ms count blk_id (i + 1))
      else Inr i)"
  by pat_completeness auto
termination
  by (relation "measure (\<lambda>(ms, count, blk_id, i). count - i)") auto

definition tx_slot_meta_upd_add :: "u8 \<Rightarrow> u64 \<Rightarrow> u32 \<Rightarrow> pmb_handle \<Rightarrow> crash + pmb_handle" where
  "tx_slot_meta_upd_add tx_id blk_id len s =
     (if length (upd_id_list (op_log s)) \<le> unat tx_id then Inl OutOfBounds
      else let metalist = upd_id_list (op_log s) ! unat tx_id
           in bindR (meta_index (ml_list metalist) (ml_count metalist) blk_id 0) (\<lambda>i.
                if length (ml_list metalist) \<le> i then Inl OutOfBounds
                else let meta = ml_list metalist ! i;
                         obj_meta = backend_direct (Some (bck s)) blk_id
                     in if tm_id meta = 0 \<and> obj_meta = NULL then Inl NullDeref
                        else let fresh = (tm_id meta = 0);
                                 meta = (if fresh then meta\<lparr>tm_id := blk_id,
                                    tm_version := h_version (hdr_at (mem s) obj_meta),
                                    tm_val_len := h_val_len (hdr_at (mem s) obj_meta)\<rparr> else meta);
                                 meta = meta\<lparr>tm_version := tm_version meta + 1\<rparr>;
                                 meta = (if tm_val_len meta < len then meta\<lparr>tm_val_len := len\<rparr> else meta);
                                 metalist = metalist\<lparr>
                                    ml_count := (if fresh then ml_count metalist + 1 else ml_count metalist),
                                    ml_list := (ml_list metalist)[i := meta]\<rparr>
                             in Inr (s\<lparr>op_log := (op_log s)\<lparr>
                                   upd_id_list := (upd_id_list (op_log s))[unat tx_id := metalist]\<rparr>\<rparr>)))"

text \<open>A copy to an address computed from NULL faults, unless it has no bytes.\<close>

definition tx_update_block ::
  "u8 \<Rightarrow> u64 \<Rightarrow> ptr \<Rightarrow> u64 \<Rightarrow> u64 \<Rightarrow> pmb_handle \<Rightarrow> crash + pmb_handle" where
  "tx_update_block tx_id blk_id payload offset len s =
     (let obj = backend_direct (Some (bck s)) blk_id
      in if obj = NULL \<and> len \<noteq> 0 then Inl NullDeref
         else let s = backend_memcpy (bck s)
                    (obj + sizeof_pmb_data_hdr + unat (max_key_len s) + unat offset) payload (unat len) s
              in tx_slot_meta_upd_add tx_id blk_id (ucast (offset + len)) s)"

text \<open>The loop of \<open>tx_slot_meta_upd_process\<close> over the pending header updates.\<close>

definition meta_upd_apply :: "checksum_fn \<Rightarrow> tx_meta \<Rightarrow> pmb_handle \<Rightarrow> crash + pmb_handle" where
  "meta_upd_apply uc meta s =
     (let obj_meta = backend_direct (Some (bck s)) (tm_id meta)
      in if obj_meta = NULL then Inl NullDeref
         else let m = set_version (mem s) obj_meta (tm_version meta);
                  m = set_val_len m obj_meta (tm_val_len meta);
                  len = sizeof_pmb_data_hdr + unat (max_key_len s) + unat (h_val_len (hdr_at m obj_meta))
              in Inr (s\<lparr>mem := snd (uc m obj_meta len obj_meta True)\<rparr>))"

primrec meta_upd_apply_all :: "checksum_fn \<Rightarrow> tx_meta list \<Rightarrow> pmb_handle \<Rightarrow> crash + pmb_handle" where
  "meta_upd_apply_all uc [] s = Inr s"
| "meta_upd_apply_all uc (meta # metas) s =
     bindR (meta_upd_apply uc meta s) (meta_upd_apply_all uc metas)"

definition zero_meta :: tx_meta where
  "zero_meta = \<lparr>tm_id = 0, tm_version = 0, tm_val_len = 0, tm_offset = 0\<rparr>"

definition tx_slot_meta_upd_process :: "checksum_fn \<Rightarrow> u8 \<Rightarrow> pmb_handle \<Rightarrow> crash + pmb_handle" where
  "tx_slot_meta_upd_process uc tx_id s =
     (if length (upd_id_list (op_log s)) \<le> unat tx_id then Inl OutOfBounds
      else let metalist = upd_id_list (op_log s) ! unat tx_id;
               n = ml_count metalist
           in if length (ml_list metalist) < n then Inl OutOfBounds
              else bindR (meta_upd_apply_all uc (take n (ml_list metalist)) s) (\<lambda>s.
                Inr (s\<lparr>op_log := (op_log s)\<lparr>upd_id_list := (upd_id_list (op_log s))[unat tx_id :=
                  \<lparr>ml_count = 0, ml_list = replicate n zero_meta @ drop n (ml_list metalist)\<rparr>]\<rparr>\<rparr>)))"

section \<open>Executing and aborting\<close>

text \<open>A released block goes to the free list of its region.\<close>

definition push_free :: "u64 \<Rightarrow> pmb_handle \<Rightarrow> pmb_handle" where
  "push_free blk_id s =
     (if blk_id < total_objs_count s then s\<lparr>free_list := caslist_push (free_list s) blk_id\<rparr>
      else s\<lparr>meta_free_list := caslist_push (meta_free_list s) blk_id\<rparr>)"

text \<open>The \<open>size\<close> (upper half) and \<open>offset\<close> (lower half) packed in \<open>blk_id2\<close>.\<close>

definition upd_size :: "u64 \<Rightarrow> u32" where
  "upd_size x = ucast (drop_bit 32 x)"

definition upd_offset :: "u64 \<Rightarrow> u32" where
  "upd_offset x = ucast (x AND 0xffffffff)"

text \<open>
  One iteration of the loop of \<open>tx_slot_execute\<close>: the next position and the state. The entry is
  read again after the object was cleared, as the code reads it.
\<close>

definition tx_execute_entry :: "u8 \<Rightarrow> ptr \<Rightarrow> pmb_handle \<Rightarrow> crash + (ptr \<times> pmb_handle)" where
  "tx_execute_entry tx_id entries s =
     (let txe = entry_at (mem s) entries
      in if op_of_code (e_type txe) = Some UPDATE \<or> op_of_code (e_type txe) = Some REMOVE then
           (let obj = fst (backend_get (Some (bck s)) (e_blk_id1 txe) 0 s);
                s = (if obj \<noteq> NULL then
                       (let s = snd (backend_set_zero (Some (bck s)) obj s)
                        in push_free (e_blk_id1 (entry_at (mem s) entries)) s)
                     else s)
            in Inr (entries + sizeof_tx_entry, s))
         else if op_of_code (e_type txe) = Some UPDINPLACE then
           (let obj = entries + sizeof_tx_entry
            in bindR (tx_update_block tx_id (e_blk_id1 txe) obj (ucast (upd_offset (e_blk_id2 txe)))
                  (ucast (upd_size (e_blk_id2 txe))) s)
                 (\<lambda>s. Inr (obj + unat (upd_size (e_blk_id2 txe)), s)))
         else Inr (entries + sizeof_tx_entry, s))"

lemma tx_execute_entry_next:
  "tx_execute_entry tx_id entries s = Inr (p, s') \<Longrightarrow> entries < p"
  by (auto simp: tx_execute_entry_def Let_def sizeof_tx_entry_def bindR_eq_Inr_iff split: if_splits)

function tx_execute_loop :: "u8 \<Rightarrow> ptr \<Rightarrow> ptr \<Rightarrow> pmb_handle \<Rightarrow> crash + pmb_handle" where
  "tx_execute_loop tx_id slot_end entries s =
     (if entries < slot_end then
        bindR (tx_execute_entry tx_id entries s) (\<lambda>(p, s'). tx_execute_loop tx_id slot_end p s')
      else Inr s)"
  by pat_completeness auto
termination
  by (relation "measure (\<lambda>(tx_id, slot_end, entries, s). slot_end - entries)")
    (auto dest!: tx_execute_entry_next)

declare tx_log_init_loop.simps [simp del] meta_index.simps [simp del] tx_execute_loop.simps [simp del]

definition tx_slot_execute :: "checksum_fn \<Rightarrow> pmb_handle \<Rightarrow> u64 \<Rightarrow> crash + (u8 \<times> pmb_handle)" where
  "tx_slot_execute uc s tx_slot_id =
     (let tx_id = ucast (tx_slot_id - 1);
          slot = backend_tx_direct (Some (bck s)) tx_id
      in if slot = NULL then Inr (PMB_ERR, s)
         else if s_status (slot_at (mem s) slot) \<noteq> status_code COMMITED then Inr (PMB_ERR, s)
         else bindR (tx_execute_loop tx_id (ptr_add slot (s_size (slot_at (mem s) slot)))
                 (slot + sizeof_tx_slot) s) (\<lambda>s.
              bindR (tx_slot_meta_upd_process uc tx_id s) (\<lambda>s.
                Inr (PMB_OK, snd (backend_tx_set_zero (Some (bck s)) slot s)))))"

text \<open>One iteration of the loop of \<open>tx_slot_abort\<close>, which moves on by the size of an entry.\<close>

definition tx_abort_entry :: "ptr \<Rightarrow> pmb_handle \<Rightarrow> pmb_handle" where
  "tx_abort_entry pos s =
     (let txe = entry_at (mem s) pos
      in case op_of_code (e_type txe) of
           Some UPDATE \<Rightarrow>
             (let s = snd (backend_set_zero (Some (bck s)) (backend_direct (Some (bck s)) (e_blk_id2 txe)) s)
              in push_free (e_blk_id2 (entry_at (mem s) pos)) s)
         | Some WRITE \<Rightarrow>
             (let s = snd (backend_set_zero (Some (bck s)) (backend_direct (Some (bck s)) (e_blk_id1 txe)) s)
              in push_free (e_blk_id1 (entry_at (mem s) pos)) s)
         | _ \<Rightarrow> s)"

function tx_abort_loop :: "ptr \<Rightarrow> ptr \<Rightarrow> pmb_handle \<Rightarrow> pmb_handle" where
  "tx_abort_loop slot_end pos s =
     (if pos < slot_end then tx_abort_loop slot_end (pos + sizeof_tx_entry) (tx_abort_entry pos s) else s)"
  by pat_completeness auto
termination
  by (relation "measure (\<lambda>(slot_end, pos, s). slot_end - pos)") (auto simp: sizeof_tx_entry_def)

declare tx_abort_loop.simps [simp del]

definition tx_slot_abort :: "checksum_fn \<Rightarrow> pmb_handle \<Rightarrow> u64 \<Rightarrow> u8 \<times> pmb_handle" where
  "tx_slot_abort uc s tx_slot_id =
     (let tx_id = ucast (tx_slot_id - 1);
          slot = backend_tx_direct (Some (bck s)) tx_id
      in if slot = NULL then (PMB_ERR, s)
         else if s_status (slot_at (mem s) slot) \<noteq> status_code PROCESSING \<and>
                 s_status (slot_at (mem s) slot) \<noteq> status_code COMMITED then (PMB_ERR, s)
         else let s = s\<lparr>mem := set_slot_status (mem s) slot ABORTED\<rparr>;
                  s = tx_slot_checksum uc slot tx_id s;
                  s = tx_abort_loop (ptr_add slot (s_size (slot_at (mem s) slot))) (slot + sizeof_tx_slot) s;
                  s = s\<lparr>mem := set_slot_size (set_slot_status (mem s) slot EMPTY) slot 0\<rparr>;
                  s = tx_slot_checksum uc slot tx_id s
              in (PMB_OK, snd (backend_tx_set_zero (Some (bck s)) slot s)))"

section \<open>Registering operations\<close>

definition tx_slot_op_write :: "pmb_handle \<Rightarrow> u64 \<Rightarrow> u64 \<Rightarrow> u32 \<Rightarrow> u8 \<times> pmb_handle" where
  "tx_slot_op_write s tx_slot_id blk_id len =
     (let slot = tx_slot_ptr s tx_slot_id
      in if slot = NULL then (PMB_ERR, s)
         else let sz = s_size (slot_at (mem s) slot); entry = ptr_add slot sz
              in if s_status (slot_at (mem s) slot) \<noteq> status_code PROCESSING then (PMB_ERR, s)
                 else let m = set_entry_type (mem s) entry WRITE;
                          m = set_entry_blk_id1 m entry blk_id;
                          m = set_slot_size m slot (s_size (slot_at m slot) + of_nat sizeof_tx_entry)
                      in (PMB_OK, s\<lparr>mem := m\<rparr>))"

definition tx_slot_op_small_update ::
  "pmb_handle \<Rightarrow> u64 \<Rightarrow> u64 \<Rightarrow> ptr \<Rightarrow> u32 \<Rightarrow> u32 \<Rightarrow> u8 \<times> pmb_handle" where
  "tx_slot_op_small_update s tx_slot_id blk_id data offset len =
     (let slot = tx_slot_ptr s tx_slot_id
      in if slot = NULL then (PMB_ERR, s)
         else let sz = s_size (slot_at (mem s) slot); entry = ptr_add slot sz
              in if s_status (slot_at (mem s) slot) \<noteq> status_code PROCESSING then (PMB_ERR, s)
                 else let m = set_entry_type (mem s) entry UPDINPLACE;
                          m = set_entry_blk_id1 m entry blk_id;
                          m = set_entry_blk_id2 m entry (push_bit 32 (ucast len) OR ucast offset);
                          s = backend_memcpy (bck s) (entry + sizeof_tx_entry) data (unat len) (s\<lparr>mem := m\<rparr>);
                          m = set_slot_size (mem s) slot
                            (s_size (slot_at (mem s) slot) + (of_nat sizeof_tx_entry + ucast len))
                      in (PMB_OK, s\<lparr>mem := m\<rparr>))"

definition tx_slot_op_update :: "pmb_handle \<Rightarrow> u64 \<Rightarrow> u64 \<Rightarrow> u64 \<Rightarrow> u32 \<Rightarrow> u8 \<times> pmb_handle" where
  "tx_slot_op_update s tx_slot_id old_blk_id new_blk_id len =
     (let slot = tx_slot_ptr s tx_slot_id
      in if slot = NULL then (PMB_ERR, s)
         else let sz = s_size (slot_at (mem s) slot); entry = ptr_add slot sz
              in if s_status (slot_at (mem s) slot) \<noteq> status_code PROCESSING then (PMB_ERR, s)
                 else let m = set_entry_type (mem s) entry UPDATE;
                          m = set_entry_blk_id1 m entry old_blk_id;
                          m = set_entry_blk_id2 m entry new_blk_id;
                          m = set_slot_size m slot (s_size (slot_at m slot) + of_nat sizeof_tx_entry)
                      in (PMB_OK, s\<lparr>mem := m\<rparr>))"

definition tx_slot_op_remove :: "pmb_handle \<Rightarrow> u64 \<Rightarrow> u64 \<Rightarrow> u8 \<times> pmb_handle" where
  "tx_slot_op_remove s tx_slot_id blk_id =
     (let slot = tx_slot_ptr s tx_slot_id
      in if slot = NULL then (PMB_ERR, s)
         else let sz = s_size (slot_at (mem s) slot); entry = ptr_add slot sz
              in if s_status (slot_at (mem s) slot) \<noteq> status_code PROCESSING then (PMB_ERR, s)
                 else let m = set_entry_type (mem s) entry REMOVE;
                          m = set_entry_blk_id1 m entry blk_id;
                          m = set_slot_size m slot (s_size (slot_at m slot) + of_nat sizeof_tx_entry)
                      in (PMB_OK, s\<lparr>mem := m\<rparr>))"

section \<open>Recovery of interrupted transactions\<close>

text \<open>
  The body of the inner loop of \<open>tx_log_check\<close> for the entry at \<open>pos\<close>; \<open>entries\<close> is the
  first entry of the slot, whose following bytes the code takes as the payload of every
  in-place update.
\<close>

definition tx_check_entry :: "bool \<Rightarrow> u8 \<Rightarrow> ptr \<Rightarrow> tx_entry \<Rightarrow> pmb_handle \<Rightarrow> crash + pmb_handle" where
  "tx_check_entry commit tx_slot_id entries entry s =
     (let clear = (\<lambda>i. snd (backend_set_zero (Some (bck s)) (backend_direct (Some (bck s)) i) s))
      in case op_of_code (e_type entry) of
           Some WRITE \<Rightarrow> Inr (if \<not> commit then clear (e_blk_id1 entry) else s)
         | Some REMOVE \<Rightarrow> Inr (if commit then clear (e_blk_id1 entry) else s)
         | Some UPDATE \<Rightarrow> Inr (if commit then clear (e_blk_id1 entry) else clear (e_blk_id2 entry))
         | Some UPDINPLACE \<Rightarrow>
             (if commit then
                tx_update_block tx_slot_id (e_blk_id1 entry) (entries + sizeof_tx_entry)
                  (ucast (upd_offset (e_blk_id2 entry))) (ucast (upd_size (e_blk_id2 entry))) s
              else Inr s)
         | None \<Rightarrow> Inr s)"

text \<open>The bound of the inner loop is read from the slot again in every iteration.\<close>

function tx_check_loop :: "bool \<Rightarrow> u8 \<Rightarrow> ptr \<Rightarrow> ptr \<Rightarrow> pmb_handle \<Rightarrow> crash + pmb_handle" where
  "tx_check_loop commit tx_slot_id slot pos s =
     (if pos < ptr_add slot (s_size (slot_at (mem s) slot)) then
        (let entry = entry_at (mem s) pos
         in if e_blk_id1 entry = 0 \<and> e_blk_id2 entry = 0 then Inr s
            else bindR (tx_check_entry commit tx_slot_id (slot + sizeof_tx_slot) entry s)
              (tx_check_loop commit tx_slot_id slot (pos + sizeof_tx_entry)))
      else Inr s)"
  by pat_completeness auto
termination
proof (relation "measure (\<lambda>(commit, tx_slot_id, slot, pos, s). 2 ^ 64 - pos)")
  fix commit :: bool and tx_slot_id :: u8 and slot pos :: ptr and s s' :: pmb_handle
  assume "pos < ptr_add slot (s_size (slot_at (mem s) slot))"
  then have "pos < 2 ^ 64"
    using ptr_add_bound by (rule less_trans)
  then show "((commit, tx_slot_id, slot, pos + sizeof_tx_entry, s'), commit, tx_slot_id, slot, pos, s)
      \<in> measure (\<lambda>(commit, tx_slot_id, slot, pos, s). 2 ^ 64 - pos)"
    by (simp add: sizeof_tx_entry_def)
qed simp

declare tx_check_loop.simps [simp del]

text \<open>The body of the outer loop for one slot.\<close>

definition tx_check_slot :: "checksum_fn \<Rightarrow> u8 \<Rightarrow> pmb_handle \<Rightarrow> crash + pmb_handle" where
  "tx_check_slot uc tx_slot_id s =
     (let slot = backend_tx_direct (Some (bck s)) tx_slot_id
      in if slot = NULL then Inr s
         else if s_status (slot_at (mem s) slot) = status_code EMPTY then Inr s
         else let r = uc (mem s) slot (unat (of_nat sizeof_tx_slot + s_size (slot_at (mem s) slot))) slot False;
                  s = s\<lparr>mem := snd r\<rparr>;
                  commit = (fst r \<and> s_status (slot_at (mem s) slot) = status_code COMMITED)
              in bindR (tx_check_loop commit tx_slot_id slot (slot + sizeof_tx_slot) s) (\<lambda>s.
                   let s = s\<lparr>mem := set_slot_size (set_slot_status (mem s) slot EMPTY) slot 0\<rparr>;
                       s = tx_slot_checksum uc slot tx_slot_id s
                   in Inr (snd (backend_tx_set_zero (Some (bck s)) slot s))))"

text \<open>
  The outer loop counts a \<open>uint8_t\<close> up to the number of slots, so it never ends with 255
  slots; \<open>None\<close> stands for a loop that does not end.
\<close>

partial_function (option) tx_log_check_loop ::
  "checksum_fn \<Rightarrow> u8 \<Rightarrow> pmb_handle \<Rightarrow> (crash + pmb_handle) option" where
  "tx_log_check_loop uc tx_slot_id s =
     (if tx_slot_id \<le> tx_slots_count (op_log s) then
        (case tx_check_slot uc tx_slot_id s of
           Inl c \<Rightarrow> Some (Inl c)
         | Inr s' \<Rightarrow> tx_log_check_loop uc (tx_slot_id + 1) s')
      else Some (Inr s))"

definition tx_log_check :: "checksum_fn \<Rightarrow> pmb_handle \<Rightarrow> (crash + pmb_handle) option" where
  "tx_log_check uc s = tx_log_check_loop uc 1 s"

end
