(* ===== verification/Sample.thy ===== *)
theory Sample
  imports Tx_Log
begin

text \<open>
  A concrete store and a concrete checksum, on which the properties of the following theories
  are applied: the pool of \<open>sample_backend\<close> with keys up to 64 and values up to 1024 bytes.
\<close>

definition sample_ck :: "u8 list \<Rightarrow> u64" where
  "sample_ck bs = fold (\<lambda>b c. 31 * c + 2 * ucast b) bs 1"

lemma sample_ck_nonzero: "sample_ck bs \<noteq> 0"
proof -
  have "odd (fold (\<lambda>b c. 31 * c + 2 * ucast b) bs c)" if "odd c" for c :: u64 and bs :: "u8 list"
    using that by (induction bs arbitrary: c) simp_all
  then have "odd (sample_ck bs)"
    by (simp add: sample_ck_def)
  then show ?thesis
    by auto
qed

definition sample_uc :: checksum_fn where
  "sample_uc m addr len csump insrt =
     (let c = sample_ck (range_without m addr len csump)
      in if insrt then (True, st_u64 m csump c) else (ld_u64 m csump = c, m))"

lemma sample_checksum: "checksum_spec sample_uc sample_ck"
  by (simp add: checksum_spec_def sample_uc_def Let_def)

definition sample_store :: pmb_handle where
  "sample_store = \<lparr>mem = \<lambda>_. 0, plog = [], Pagesize = 4096, bck = sample_backend,
     total_objs_count = 32766, meta_objs_count = 4096, max_key_len = 64, max_val_len = 1024,
     meta_max_key_len = 64, meta_max_val_len = 1024,
     objs_list = None, free_list = caslist_new True 1 32765,
     meta_objs_list = None, meta_free_list = caslist_new True 32767 36861,
     op_log = \<lparr>tx_slots_count = 16, tx_slot_capacity = 45, tx_slots_list = caslist_new True 1 16,
       upd_id_list = replicate 16 \<lparr>ml_count = 0, ml_list = replicate 128 zero_meta\<rparr>\<rparr>\<rparr>"

lemma sample_store_lists:
  "list_wf (free_list sample_store)" "list_wf (meta_free_list sample_store)"
  "list_wf (tx_slots_list (op_log sample_store))"
  by (simp_all add: sample_store_def list_wf_def caslist_eval)

end
