(* ===== verification/Slot_Log.thy ===== *)
theory Slot_Log
  imports Sample
begin

text \<open>
  What a transaction slot means: the list of records its bytes encode. \<open>tx_holds s k st rs\<close>
  says that slot \<open>k\<close> of the open store \<open>s\<close> is in state \<open>st\<close> and holds exactly the
  records \<open>rs\<close>. The lemmas show that registering an operation appends one record and touches
  nothing outside the slot, and that the slot's state moves as the API promises.
\<close>

unbundle bit_operations_syntax

section \<open>Records of a slot\<close>

datatype log_rec =
    LWrite u64
  | LUpdate u64 u64
  | LInplace u64 u32 "u8 list"
  | LRemove u64
  | LOther

definition rec_at :: "memory \<Rightarrow> ptr \<Rightarrow> log_rec" where
  "rec_at m p =
     (let e = entry_at m p
      in case op_of_code (e_type e) of
           Some WRITE \<Rightarrow> LWrite (e_blk_id1 e)
         | Some UPDATE \<Rightarrow> LUpdate (e_blk_id1 e) (e_blk_id2 e)
         | Some UPDINPLACE \<Rightarrow> LInplace (e_blk_id1 e) (upd_offset (e_blk_id2 e))
             (ld_bytes m (p + 24) (unat (upd_size (e_blk_id2 e))))
         | Some REMOVE \<Rightarrow> LRemove (e_blk_id1 e)
         | None \<Rightarrow> LOther)"

fun rec_size :: "log_rec \<Rightarrow> nat" where
  "rec_size (LInplace i off bs) = 24 + length bs"
| "rec_size r = 24"

fun log_ok :: "memory \<Rightarrow> ptr \<Rightarrow> ptr \<Rightarrow> log_rec list \<Rightarrow> bool" where
  "log_ok m p e [] \<longleftrightarrow> p = e"
| "log_ok m p e (r # rs) \<longleftrightarrow> rec_at m p = r \<and> log_ok m (p + rec_size r) e rs"

definition slot_holds :: "memory \<Rightarrow> ptr \<Rightarrow> nat \<Rightarrow> tx_status \<Rightarrow> log_rec list \<Rightarrow> bool" where
  "slot_holds m p cap st rs \<longleftrightarrow> s_status (slot_at m p) = status_code st \<and>
     24 \<le> unat (s_size (slot_at m p)) \<and> unat (s_size (slot_at m p)) \<le> cap \<and>
     log_ok m (p + 24) (p + unat (s_size (slot_at m p))) rs"

lemma rec_size_ge: "24 \<le> rec_size r"
  by (cases r) auto

lemma log_ok_le: "log_ok m p e rs \<Longrightarrow> p \<le> e"
  by (induction rs arbitrary: p) (auto dest: add_leD1)

lemma rec_at_cong:
  assumes "same_on p (rec_size (rec_at m p)) m m'"
  shows "rec_at m' p = rec_at m p"
proof -
  have 24: "same_on p 24 m m'"
    using assms rec_size_ge [of "rec_at m p"] by (auto intro: same_on_sub)
  then have e: "entry_at m' p = entry_at m p"
    by (metis entry_at_cong)
  show ?thesis
  proof (cases "op_of_code (e_type (entry_at m p)) = Some UPDINPLACE")
    case True
    let ?n = "unat (upd_size (e_blk_id2 (entry_at m p)))"
    have "same_on (p + 24) ?n m m'"
      using assms True by (auto simp: rec_at_def Let_def intro: same_on_sub)
    then have "ld_bytes m' (p + 24) ?n = ld_bytes m (p + 24) ?n"
      by (metis ld_bytes_cong)
    with True show ?thesis
      by (simp add: rec_at_def e Let_def)
  next
    case False
    then show ?thesis
      by (auto simp: rec_at_def e Let_def split: option.splits tx_op.splits)
  qed
qed

lemma log_ok_cong:
  "log_ok m p e rs \<Longrightarrow> same_on p (e - p) m m' \<Longrightarrow> log_ok m' p e rs"
proof (induction rs arbitrary: p)
  case (Cons r rs)
  have le: "p + rec_size r \<le> e"
    using Cons.prems(1) by (auto dest: log_ok_le)
  have "rec_at m' p = rec_at m p"
    using Cons.prems le by (intro rec_at_cong) (auto intro: same_on_sub)
  moreover have "same_on (p + rec_size r) (e - (p + rec_size r)) m m'"
    using Cons.prems(2) by (rule same_on_sub) (use le in auto)
  ultimately show ?case
    using Cons by auto
qed simp

lemma log_ok_snoc:
  "log_ok m p q rs \<Longrightarrow> rec_at m q = r \<Longrightarrow> e = q + rec_size r \<Longrightarrow> log_ok m p e (rs @ [r])"
  by (induction rs arbitrary: p) auto

lemma slot_holds_cong:
  assumes "slot_holds m p cap st rs" and "same_on p cap m m'"
  shows "slot_holds m' p cap st rs"
proof -
  have "24 \<le> cap"
    using assms(1) by (simp add: slot_holds_def)
  then have "slot_at m' p = slot_at m p"
    using assms(2) by (metis slot_at_cong same_on_sub le_refl add_le_cancel_left)
  moreover have "same_on (p + 24) (p + unat (s_size (slot_at m p)) - (p + 24)) m m'"
    using assms by (auto simp: slot_holds_def intro: same_on_sub)
  ultimately show ?thesis
    using assms(1) log_ok_cong by (auto simp: slot_holds_def)
qed

lemma slot_holds_append:
  assumes h: "slot_holds m p cap st rs" and n: "unat (s_size (slot_at m p)) + rec_size r \<le> cap"
    and bound: "p + cap < 2 ^ 64"
    and m1: "only (p + unat (s_size (slot_at m p))) (rec_size r) m m1"
    and r: "rec_at m1 (p + unat (s_size (slot_at m p))) = r"
  shows "slot_holds (set_slot_size m1 p (s_size (slot_at m p) + of_nat (rec_size r))) p cap st (rs @ [r])"
proof -
  let ?sz = "s_size (slot_at m p)"
  let ?m' = "set_slot_size m1 p (?sz + of_nat (rec_size r))"
  have lo: "24 \<le> unat ?sz" "s_status (slot_at m p) = status_code st" "log_ok m (p + 24) (p + unat ?sz) rs"
    using h by (simp_all add: slot_holds_def)
  have un: "unat (of_nat (rec_size r) :: u64) = rec_size r"
    using n bound by (intro unat_of_nat_64) simp
  have sz: "unat (?sz + of_nat (rec_size r)) = unat ?sz + rec_size r"
    using n bound un by (simp add: unat_add_no_wrap)
  have o: "same_on q k m m1" if "p \<le> q" "q + k \<le> p + unat ?sz" for q k
    using only_same_on [OF m1, of q k] that by (auto intro: same_on_sym)
  have o': "same_on q k m1 ?m'" if "p + 24 \<le> q" for q k
    using f64.same_on_put [of q k "p + 16"] that by (auto simp: set_slot_size_def intro: same_on_sym)
  have "log_ok m1 (p + 24) (p + unat ?sz) rs"
    using lo(3) by (rule log_ok_cong) (use lo(1) in \<open>auto intro!: o\<close>)
  then have "log_ok m1 (p + 24) (p + unat ?sz + rec_size r) (rs @ [r])"
    using r by (rule log_ok_snoc) simp
  then have "log_ok ?m' (p + 24) (p + unat ?sz + rec_size r) (rs @ [r])"
    by (rule log_ok_cong) (auto intro: o')
  moreover have "ld_u32 m1 (p + 8) = ld_u32 m (p + 8)"
    using o [of "p + 8" 4] lo(1) by (auto intro: f32.get_cong same_on_sym)
  ultimately show ?thesis
    using lo sz n by (simp add: slot_holds_def slot_at_def set_slot_size_def add.assoc)
qed

lemma upd_pack [simp]:
  "upd_size (push_bit 32 (ucast len) OR ucast offset) = len"
  "upd_offset (push_bit 32 (ucast len) OR ucast offset) = offset"
proof -
  show "upd_size (push_bit 32 (ucast len) OR ucast offset) = len"
    by (rule bit_word_eqI) (auto simp: upd_size_def bit_simps dest: bit_imp_le_length)
  have "upd_offset x = ucast (x AND mask 32)" for x
    by (simp add: upd_offset_def mask_eq_exp_minus_1)
  then show "upd_offset (push_bit 32 (ucast len) OR ucast offset) = offset"
    by (intro bit_word_eqI) (auto simp: bit_simps)
qed

section \<open>Slots of an open store\<close>

definition tx_ok :: "pmb_handle \<Rightarrow> u64 \<Rightarrow> bool" where
  "tx_ok s k \<longleftrightarrow> layout_ok (bck s) \<and> 0 < k \<and> k \<le> ucast (tx_slots_count (op_log s)) \<and>
     tx_slots_count (op_log s) = b_tx_slots_count (bck s)"

abbreviation slot_cap :: "pmb_handle \<Rightarrow> nat" where
  "slot_cap s \<equiv> unat (b_tx_slot_size (bck s))"

definition tx_holds :: "pmb_handle \<Rightarrow> u64 \<Rightarrow> tx_status \<Rightarrow> log_rec list \<Rightarrow> bool" where
  "tx_holds s k st rs \<longleftrightarrow> tx_ok s k \<and> slot_holds (mem s) (tx_slot_ptr s k) (slot_cap s) st rs"

definition slot_only :: "pmb_handle \<Rightarrow> u64 \<Rightarrow> pmb_handle \<Rightarrow> bool" where
  "slot_only s k s' \<longleftrightarrow> s' = s\<lparr>mem := mem s', plog := plog s'\<rparr> \<and>
     only (tx_slot_ptr s k) (slot_cap s) (mem s) (mem s')"

lemma tx_index:
  assumes "tx_ok s k"
  shows "unat (ucast (k - 1) :: u8) = unat k - 1" and "slot_ok (bck s) (ucast (k - 1))" and "0 < unat k"
proof -
  have k: "k \<noteq> 0" "unat k \<le> unat (b_tx_slots_count (bck s))" "layout_ok (bck s)"
    using assms by (auto simp: tx_ok_def word_nat)
  then show "0 < unat k"
    by (simp add: unat_gt_0)
  moreover have "unat (k - 1) < 256"
    using k unat_lt_8 [of "b_tx_slots_count (bck s)"] by (simp add: unat_pred)
  ultimately show i: "unat (ucast (k - 1) :: u8) = unat k - 1"
    using k(1) by (simp add: unsigned_ucast_eq take_bit_nat_eq_self unat_pred)
  show "slot_ok (bck s) (ucast (k - 1))"
    using k \<open>0 < unat k\<close> unfolding slot_ok_def word_nat i by linarith
qed

lemma tx_slot_bounds:
  assumes "tx_ok s k"
  shows "tx_slot_ptr s k \<noteq> NULL" and "24 \<le> slot_cap s" and "tx_slot_ptr s k + slot_cap s < 2 ^ 64"
  using tx_index(2) [OF assms] bs.slot_not_null bs.slot_extent_header bs.slot_bound
  by (auto simp: tx_slot_ptr_def)

lemma entry_ptr:
  assumes "tx_holds s k st rs"
  shows "ptr_add (tx_slot_ptr s k) (s_size (slot_at (mem s) (tx_slot_ptr s k))) =
    tx_slot_ptr s k + unat (s_size (slot_at (mem s) (tx_slot_ptr s k)))"
  using assms tx_slot_bounds(3) [of s k] by (intro ptr_add_no_wrap) (simp add: tx_holds_def slot_holds_def)

lemma tx_ok_update [simp]:
  "tx_ok (s\<lparr>mem := m\<rparr>) k = tx_ok s k" "tx_slot_ptr (s\<lparr>mem := m\<rparr>) k = tx_slot_ptr s k"
  "tx_ok (s\<lparr>plog := l\<rparr>) k = tx_ok s k" "tx_slot_ptr (s\<lparr>plog := l\<rparr>) k = tx_slot_ptr s k"
  by (simp_all add: tx_ok_def tx_slot_ptr_def)

lemma tx_holds_append:
  fixes s :: pmb_handle and k :: u64
  defines "p \<equiv> tx_slot_ptr s k"
  defines "sz \<equiv> s_size (slot_at (mem s) p)"
  assumes h: "tx_holds s k st rs" and n: "unat sz + rec_size r \<le> slot_cap s"
    and m1: "only (p + unat sz) (rec_size r) (mem s) m1" and r: "rec_at m1 (p + unat sz) = r"
    and len: "of_nat (rec_size r) = d"
  shows "tx_holds (s\<lparr>plog := l, mem := set_slot_size m1 p (sz + d)\<rparr>) k st (rs @ [r]) \<and>
    slot_only s k (s\<lparr>plog := l, mem := set_slot_size m1 p (sz + d)\<rparr>)"
proof
  have ok: "tx_ok s k" and sh: "slot_holds (mem s) p (slot_cap s) st rs"
    using h by (simp_all add: tx_holds_def p_def)
  note b = tx_slot_bounds [OF ok, folded p_def]
  show "tx_holds (s\<lparr>plog := l, mem := set_slot_size m1 p (sz + d)\<rparr>) k st (rs @ [r])"
    using ok slot_holds_append [OF sh n [unfolded sz_def] b(3) m1 [unfolded sz_def] r [unfolded sz_def], unfolded len]
    by (simp add: tx_holds_def flip: p_def sz_def)
  have "only p (slot_cap s) (mem s) m1"
    using m1 by (rule only_mono) (use n in auto)
  then show "slot_only s k (s\<lparr>plog := l, mem := set_slot_size m1 p (sz + d)\<rparr>)"
    using b(2) by (auto simp: slot_only_def set_slot_size_def p_def intro: only_after)
qed

lemma tx_holds_status:
  "tx_holds s k st rs \<Longrightarrow> s_status (slot_at (mem s) (tx_slot_ptr s k)) = status_code st"
  by (simp add: tx_holds_def slot_holds_def)

lemma size_after_entry:
  assumes "tx_holds s k st rs" and "only (tx_slot_ptr s k + unat (s_size (slot_at (mem s) (tx_slot_ptr s k)))) n (mem s) m"
  shows "slot_at m (tx_slot_ptr s k) = slot_at (mem s) (tx_slot_ptr s k)"
proof (rule slot_at_cong [symmetric], rule same_on_sym)
  show "same_on (tx_slot_ptr s k) 24 m (mem s)"
    using assms(2) by (rule only_same_on) (use assms(1) in \<open>auto simp: tx_holds_def slot_holds_def\<close>)
qed

lemma rec_at_written:
  "rec_at (set_entry_blk_id1 (set_entry_type m p WRITE) p i) p = LWrite i"
  "rec_at (set_entry_blk_id1 (set_entry_type m p REMOVE) p i) p = LRemove i"
  "rec_at (set_entry_blk_id2 (set_entry_blk_id1 (set_entry_type m p UPDATE) p i) p j) p = LUpdate i j"
  "rec_at (memcpy (set_entry_blk_id2 (set_entry_blk_id1 (set_entry_type m p UPDINPLACE) p i) p
      (push_bit 32 (ucast len) OR ucast off)) (p + 24) src (unat (len :: u32))) p =
     LInplace i off (ld_bytes (set_entry_blk_id2 (set_entry_blk_id1 (set_entry_type m p UPDINPLACE) p i) p
      (push_bit 32 (ucast len) OR ucast off)) src (unat len))"
  by (simp_all add: rec_at_def entry_defs op_of_code_def Let_def)

lemma only_written:
  "only p 24 m (set_entry_blk_id1 (set_entry_type m p t) p i)"
  "only p 24 m (set_entry_blk_id2 (set_entry_blk_id1 (set_entry_type m p t) p i) p j)"
  by (simp_all add: entry_defs only_after)

lemma tx_holds_not_null: "tx_holds s k st rs \<Longrightarrow> tx_slot_ptr s k \<noteq> NULL"
  using tx_slot_bounds by (auto simp: tx_holds_def)

abbreviation slot_size :: "pmb_handle \<Rightarrow> u64 \<Rightarrow> nat" where
  "slot_size s k \<equiv> unat (s_size (slot_at (mem s) (tx_slot_ptr s k)))"

text \<open>The slots outside \<open>T\<close> keep their bytes.\<close>

definition slots_kept :: "pmb_handle \<Rightarrow> u8 set \<Rightarrow> pmb_handle \<Rightarrow> bool" where
  "slots_kept s T s' \<longleftrightarrow> (\<forall>t. slot_ok (bck s) t \<longrightarrow> t \<notin> T \<longrightarrow>
     same_on (backend_tx_direct (Some (bck s)) t) (slot_cap s) (mem s') (mem s))"

abbreviation slot_kept :: "pmb_handle \<Rightarrow> u64 \<Rightarrow> pmb_handle \<Rightarrow> bool" where
  "slot_kept s k s' \<equiv> slots_kept s {ucast (k - 1)} s'"

lemma slots_kept_trans: "slots_kept s T s' \<Longrightarrow> slots_kept s' T s'' \<Longrightarrow> bck s' = bck s \<Longrightarrow> slots_kept s T s''"
  unfolding slots_kept_def by (metis same_on_trans)

lemma slots_kept_mono: "slots_kept s T s' \<Longrightarrow> T \<subseteq> U \<Longrightarrow> slots_kept s U s'"
  unfolding slots_kept_def by blast

lemma slots_kept_cong: "bck s2 = bck s1 \<Longrightarrow> mem s2 = mem s1 \<Longrightarrow> slots_kept s2 T s' = slots_kept s1 T s'"
  by (simp add: slots_kept_def)

lemma slot_change_kept:
  assumes "tx_ok s k" and "only (tx_slot_ptr s k) (slot_cap s) (mem s) (mem s')"
  shows "slot_kept s k s'"
  using bs.other_slot_same [OF tx_index(2) [OF assms(1)]] only_apart [OF assms(2)]
  by (auto simp: slots_kept_def tx_slot_ptr_def)

lemma block_change_kept:
  assumes "block_ok (bck s) i" and "only (backend_direct (Some (bck s)) i) (block_len (bck s) i) (mem s) (mem s')"
  shows "slots_kept s T s'"
  using bs.slot_same [OF assms(1)] only_apart [OF assms(2)] by (auto simp: slots_kept_def)

lemma tx_holds_kept:
  assumes h: "tx_holds s j st rs" and kept: "slot_kept s k s'" and k: "tx_ok s k" "j \<noteq> k"
    and c: "bck s' = bck s" "tx_slots_count (op_log s') = tx_slots_count (op_log s)"
  shows "tx_holds s' j st rs" and "slot_size s' j = slot_size s j"
proof -
  have j: "tx_ok s j"
    using h by (simp add: tx_holds_def)
  have "unat (ucast (j - 1) :: u8) \<noteq> unat (ucast (k - 1) :: u8)"
    using tx_index(1,3) [OF j] tx_index(1,3) [OF k(1)] k(2) by (metis Suc_diff_1 word_unat_eq_iff)
  then have "(ucast (j - 1) :: u8) \<noteq> ucast (k - 1)"
    by auto
  then have "same_on (tx_slot_ptr s j) (slot_cap s) (mem s') (mem s)"
    using kept tx_index(2) [OF j] by (simp add: slots_kept_def tx_slot_ptr_def)
  then have same: "same_on (tx_slot_ptr s j) (slot_cap s) (mem s) (mem s')"
    by (rule same_on_sym)
  have p: "tx_slot_ptr s' j = tx_slot_ptr s j"
    by (simp add: tx_slot_ptr_def c)
  have "tx_ok s' j"
    using j unfolding tx_ok_def c .
  then show "tx_holds s' j st rs"
    using h slot_holds_cong [OF _ same] by (simp add: tx_holds_def p c)
  have "same_on (tx_slot_ptr s j) 24 (mem s) (mem s')"
    using same by (rule same_on_sub) (use tx_slot_bounds(2) [OF j] in auto)
  then show "slot_size s' j = slot_size s j"
    using slot_at_cong by (metis p)
qed

lemma op_write_appends:
  assumes h: "tx_holds s k PROCESSING rs" and room: "slot_size s k + 24 \<le> slot_cap s"
  shows "\<exists>s'. tx_slot_op_write s k blk_id len = (PMB_OK, s') \<and> tx_holds s' k PROCESSING (rs @ [LWrite blk_id]) \<and>
    slot_only s k s'"
proof -
  let ?q = "tx_slot_ptr s k + slot_size s k"
  let ?m = "set_entry_blk_id1 (set_entry_type (mem s) ?q WRITE) ?q blk_id"
  show ?thesis
    using tx_holds_append [OF h, of "LWrite blk_id" ?m 24 "plog s"] room tx_holds_not_null [OF h]
      tx_holds_status [OF h] entry_ptr [OF h] size_after_entry [OF h only_written(1)]
    by (simp add: tx_slot_op_write_def Let_def sizeof_tx_entry_def only_written rec_at_written)
qed

lemma op_remove_appends:
  assumes h: "tx_holds s k PROCESSING rs" and room: "slot_size s k + 24 \<le> slot_cap s"
  shows "\<exists>s'. tx_slot_op_remove s k blk_id = (PMB_OK, s') \<and> tx_holds s' k PROCESSING (rs @ [LRemove blk_id]) \<and>
    slot_only s k s'"
proof -
  let ?q = "tx_slot_ptr s k + slot_size s k"
  let ?m = "set_entry_blk_id1 (set_entry_type (mem s) ?q REMOVE) ?q blk_id"
  show ?thesis
    using tx_holds_append [OF h, of "LRemove blk_id" ?m 24 "plog s"] room tx_holds_not_null [OF h]
      tx_holds_status [OF h] entry_ptr [OF h] size_after_entry [OF h only_written(1)]
    by (simp add: tx_slot_op_remove_def Let_def sizeof_tx_entry_def only_written rec_at_written)
qed

lemma op_update_appends:
  assumes h: "tx_holds s k PROCESSING rs" and room: "slot_size s k + 24 \<le> slot_cap s"
  shows "\<exists>s'. tx_slot_op_update s k old new len = (PMB_OK, s') \<and>
    tx_holds s' k PROCESSING (rs @ [LUpdate old new]) \<and> slot_only s k s'"
proof -
  let ?q = "tx_slot_ptr s k + slot_size s k"
  let ?m = "set_entry_blk_id2 (set_entry_blk_id1 (set_entry_type (mem s) ?q UPDATE) ?q old) ?q new"
  show ?thesis
    using tx_holds_append [OF h, of "LUpdate old new" ?m 24 "plog s"] room tx_holds_not_null [OF h]
      tx_holds_status [OF h] entry_ptr [OF h] size_after_entry [OF h only_written(2)]
    by (simp add: tx_slot_op_update_def Let_def sizeof_tx_entry_def only_written rec_at_written)
qed

lemma op_small_update_appends:
  assumes h: "tx_holds s k PROCESSING rs" and room: "slot_size s k + 24 + unat len \<le> slot_cap s"
    and src: "apart (tx_slot_ptr s k) (slot_cap s) data (unat len)"
  shows "\<exists>s'. tx_slot_op_small_update s k blk_id data off len = (PMB_OK, s') \<and>
    tx_holds s' k PROCESSING (rs @ [LInplace blk_id off (ld_bytes (mem s) data (unat len))]) \<and> slot_only s k s'"
proof -
  let ?q = "tx_slot_ptr s k + slot_size s k" and ?id2 = "push_bit 32 (ucast len) OR ucast off :: u64"
  let ?r = "LInplace blk_id off (ld_bytes (mem s) data (unat len))"
  define m where "m = set_entry_blk_id2 (set_entry_blk_id1 (set_entry_type (mem s) ?q UPDINPLACE) ?q blk_id) ?q ?id2"
  have m: "only ?q 24 (mem s) m"
    unfolding m_def by (rule only_written(2))
  have "same_on data (unat len) m (mem s)"
    using m by (rule only_same_on) (use src room in \<open>auto simp: apart_def\<close>)
  then have "rec_at (memcpy m (?q + 24) data (unat len)) ?q = ?r"
    unfolding m_def rec_at_written by (simp add: ld_bytes_cong)
  moreover have o: "only ?q (24 + unat len) (mem s) (memcpy m (?q + 24) data (unat len))"
    by (intro only_after(3) only_mono [OF m]) auto
  ultimately have app: "tx_holds (s\<lparr>plog := l, mem := set_slot_size (memcpy m (?q + 24) data (unat len)) (tx_slot_ptr s k)
        (s_size (slot_at (mem s) (tx_slot_ptr s k)) + (24 + ucast len))\<rparr>) k PROCESSING (rs @ [?r]) \<and>
      slot_only s k (s\<lparr>plog := l, mem := set_slot_size (memcpy m (?q + 24) data (unat len)) (tx_slot_ptr s k)
        (s_size (slot_at (mem s) (tx_slot_ptr s k)) + (24 + ucast len))\<rparr>)" for l
    using room by (intro tx_holds_append [OF h]) (simp_all add: word_eq_unat)
  obtain l where cp: "backend_memcpy (bck s) (?q + 24) data (unat len) (s\<lparr>mem := m\<rparr>) =
      s\<lparr>mem := memcpy m (?q + 24) data (unat len), plog := l\<rparr>"
    using backend_memcpy_mem [of "bck s" "?q + 24" data "unat len" "s\<lparr>mem := m\<rparr>"] by auto
  show ?thesis
    using app [of l] tx_holds_not_null [OF h] tx_holds_status [OF h] entry_ptr [OF h] size_after_entry [OF h o]
    by (simp add: tx_slot_op_small_update_def Let_def sizeof_tx_entry_def cp flip: m_def)
qed

section \<open>Beginning and committing\<close>

lemma tx_slot_checksum_mem:
  assumes "checksum_spec uc ck"
  shows "\<exists>l c. tx_slot_checksum uc p t s = s\<lparr>mem := set_slot_flch64 (mem s) p c, plog := l\<rparr> \<and>
    c = ck (range_without (mem s) p (unat (s_size (slot_at (mem s) p))) p)"
  using backend_tx_persist_plog
  by (auto simp: tx_slot_checksum_def Let_def checksum_insert [OF assms] set_slot_flch64_def)

lemma tx_slot_init_processing:
  assumes ok: "tx_ok s k"
  shows "\<exists>s'. tx_slot_init s k = (PMB_OK, s') \<and> tx_holds s' k PROCESSING [] \<and> slot_only s k s' \<and> slot_size s' k = 24"
proof -
  note b = tx_slot_bounds [OF ok]
  let ?p = "tx_slot_ptr s k"
  let ?m = "set_slot_size (set_slot_status (set_slot_flch64 (mem s) ?p 0) ?p PROCESSING) ?p 24"
  have "tx_slot_init s k = (PMB_OK, s\<lparr>mem := ?m\<rparr>)"
    using ok b(1) by (auto simp: tx_slot_init_def Let_def tx_ok_def sizeof_tx_slot_def not_less)
  moreover have "slot_holds ?m ?p (slot_cap s) PROCESSING []"
    using b(2) by (simp add: slot_holds_def slot_defs)
  moreover have "only ?p (slot_cap s) (mem s) ?m"
    using b(2) by (simp add: slot_defs only_after)
  ultimately show ?thesis
    using ok by (auto simp: tx_holds_def slot_only_def slot_defs)
qed

lemma slot_holds_status:
  assumes h: "slot_holds m p cap st rs"
  shows "slot_holds (set_slot_status m p st') p cap st' rs" and "only p cap m (set_slot_status m p st')"
proof -
  have "24 \<le> cap"
    using h by (simp add: slot_holds_def)
  then show "only p cap m (set_slot_status m p st')"
    by (simp add: set_slot_status_def only_st_u32)
  let ?e = "p + unat (s_size (slot_at m p))"
  have "log_ok m (p + 24) ?e rs"
    using h by (simp add: slot_holds_def)
  then have "log_ok (set_slot_status m p st') (p + 24) ?e rs"
    by (rule log_ok_cong) (simp add: set_slot_status_def f32.same_on_put [THEN same_on_sym])
  then show "slot_holds (set_slot_status m p st') p cap st' rs"
    using h by (simp add: slot_holds_def slot_at_def set_slot_status_def)
qed

lemma slot_holds_flch64:
  assumes h: "slot_holds m p cap st rs"
  shows "slot_holds (set_slot_flch64 m p c) p cap st rs" and "only p cap m (set_slot_flch64 m p c)"
proof -
  have "24 \<le> cap"
    using h by (simp add: slot_holds_def)
  then show "only p cap m (set_slot_flch64 m p c)"
    by (simp add: set_slot_flch64_def only_st_u64)
  let ?e = "p + unat (s_size (slot_at m p))"
  have "log_ok m (p + 24) ?e rs"
    using h by (simp add: slot_holds_def)
  then have "log_ok (set_slot_flch64 m p c) (p + 24) ?e rs"
    by (rule log_ok_cong) (simp add: set_slot_flch64_def f64.same_on_put [THEN same_on_sym])
  then show "slot_holds (set_slot_flch64 m p c) p cap st rs"
    using h by (simp add: slot_holds_def slot_at_def set_slot_flch64_def)
qed

lemma tx_slot_commit_ok:
  assumes ck: "checksum_spec uc ck" and h: "tx_holds s k PROCESSING rs"
  shows "\<exists>s'. tx_slot_commit uc s k = (PMB_OK, s') \<and> tx_holds s' k COMMITED rs \<and> slot_only s k s' \<and>
    slot_size s' k = slot_size s k \<and>
    fst (uc (mem s') (tx_slot_ptr s k) (slot_size s' k) (tx_slot_ptr s k) False)"
proof -
  let ?p = "tx_slot_ptr s k"
  have ok: "tx_ok s k" and sh: "slot_holds (mem s) ?p (slot_cap s) PROCESSING rs"
    using h by (simp_all add: tx_holds_def)
  let ?m = "set_slot_status (mem s) ?p COMMITED"
  obtain l where cs: "tx_slot_checksum uc ?p (ucast (k - 1)) (s\<lparr>mem := ?m\<rparr>) =
      s\<lparr>mem := set_slot_flch64 ?m ?p (ck (range_without ?m ?p (unat (s_size (slot_at ?m ?p))) ?p)), plog := l\<rparr>"
    using tx_slot_checksum_mem [OF ck, of ?p "ucast (k - 1)" "s\<lparr>mem := ?m\<rparr>"] by auto
  let ?m' = "set_slot_flch64 ?m ?p (ck (range_without ?m ?p (unat (s_size (slot_at ?m ?p))) ?p))"
  have com: "tx_slot_commit uc s k = (PMB_OK, s\<lparr>mem := ?m', plog := l\<rparr>)"
    using ok tx_holds_not_null [OF h] tx_holds_status [OF h] cs
    by (auto simp: tx_slot_commit_def Let_def tx_ok_def not_less)
  have "slot_holds ?m' ?p (slot_cap s) COMMITED rs"
    using sh by (intro slot_holds_flch64 slot_holds_status)
  moreover have "only ?p (slot_cap s) (mem s) ?m'"
    using slot_holds_status [OF sh, of COMMITED] slot_holds_flch64 only_trans by blast
  moreover have "unat (s_size (slot_at ?m' ?p)) = slot_size s k" "unat (s_size (slot_at ?m ?p)) = slot_size s k"
    by (simp_all add: slot_defs)
  ultimately show ?thesis
    using ok com by (auto simp: tx_holds_def slot_only_def checksum_verify [OF ck] set_slot_flch64_def)
qed

section \<open>Properties\<close>

text \<open>
  Registering a write, an update or a removal in a transaction that is being processed
  appends exactly the corresponding record to the slot's log, leaves the earlier records as
  they were, and changes nothing outside the slot; so does registering an in-place update, whose
  record holds the offset and a copy of the client's bytes, however many there are, as long
  as the slot has room for them.
\<close>

theorem tx_slot_ops_append:
  assumes "tx_holds s k PROCESSING rs" and "slot_size s k + 24 \<le> slot_cap s"
  shows "(\<exists>s'. tx_slot_op_write s k blk_id len = (PMB_OK, s') \<and> tx_holds s' k PROCESSING (rs @ [LWrite blk_id]) \<and> slot_only s k s') \<and>
    (\<exists>s'. tx_slot_op_update s k old new len = (PMB_OK, s') \<and> tx_holds s' k PROCESSING (rs @ [LUpdate old new]) \<and> slot_only s k s') \<and>
    (\<exists>s'. tx_slot_op_remove s k blk_id = (PMB_OK, s') \<and> tx_holds s' k PROCESSING (rs @ [LRemove blk_id]) \<and> slot_only s k s') \<and>
    (slot_size s k + 24 + unat n \<le> slot_cap s \<and> apart (tx_slot_ptr s k) (slot_cap s) data (unat n) \<longrightarrow>
      (\<exists>s'. tx_slot_op_small_update s k blk_id data off n = (PMB_OK, s') \<and>
        tx_holds s' k PROCESSING (rs @ [LInplace blk_id off (ld_bytes (mem s) data (unat n))]) \<and> slot_only s k s'))"
  using op_write_appends [OF assms] op_update_appends [OF assms] op_remove_appends [OF assms]
    op_small_update_appends [OF assms(1)] by blast

lemma sample_tx_ok: "tx_ok sample_store 1"
  by (simp add: tx_ok_def sample_store_def sample_layout sample_backend_fields)

lemma sample_ptr: "tx_slot_ptr sample_store 1 = 0x10002000" "slot_cap sample_store = 0x800000"
  by (simp_all add: tx_slot_ptr_def backend_tx_direct_def sample_store_def sample_backend_fields ptr_add_def)

lemma sample_started:
  obtains s where "tx_slot_init sample_store 1 = (PMB_OK, s)" "tx_holds s 1 PROCESSING []" "slot_size s 1 = 24"
    "slot_cap s = 0x800000" "tx_slot_ptr s 1 = 0x10002000"
proof -
  obtain s where s: "tx_slot_init sample_store 1 = (PMB_OK, s)" "tx_holds s 1 PROCESSING []" "slot_size s 1 = 24"
      "s = sample_store\<lparr>mem := mem s, plog := plog s\<rparr>"
    using tx_slot_init_processing [OF sample_tx_ok] by (auto simp: slot_only_def)
  have "bck s = bck sample_store"
    by (subst s(4)) simp
  then show ?thesis
    using that [of s] s(1-3) sample_ptr by (simp add: tx_slot_ptr_def)
qed

theorem tx_slot_ops_append_witness:
  "\<exists>s s' s'' bs. tx_slot_init sample_store 1 = (PMB_OK, s) \<and> tx_slot_op_update s 1 5 7 100 = (PMB_OK, s') \<and>
    tx_holds s' 1 PROCESSING [LUpdate 5 7] \<and> tx_slot_op_small_update s 1 6 0x1000 2 3 = (PMB_OK, s'') \<and>
    tx_holds s'' 1 PROCESSING [LInplace 6 2 bs] \<and> length bs = 3"
proof (rule sample_started)
  fix s
  assume s: "tx_slot_init sample_store 1 = (PMB_OK, s)" "tx_holds s 1 PROCESSING []" "slot_size s 1 = 24" "slot_cap s = 0x800000"
    "tx_slot_ptr s 1 = 0x10002000"
  have "apart (tx_slot_ptr s 1) (slot_cap s) 0x1000 3"
    using s(4,5) by (simp add: apart_def)
  then show ?thesis
    using tx_slot_ops_append [OF s(2), of 0 100 5 7 3 "0x1000" 2] tx_slot_ops_append [OF s(2), of 6 100 5 7 3 "0x1000" 2] s by fastforce
qed

end
