(* ===== verification/Tx_Exec.thy ===== *)
theory Tx_Exec
  imports Slot_Log
begin

text \<open>
  What \<open>tx_slot_execute\<close> does, in terms of the records of the slot. \<open>exec_rec\<close> gives the effect
  of one record on the store without reading the log; \<open>tx_execute_loop_recs\<close> shows that the
  loop of the code, which walks over the bytes of the slot while it changes the pool, has
  the effect of the records one after the other.
\<close>

abbreviation blk_ptr :: "pmb_handle \<Rightarrow> u64 \<Rightarrow> ptr" where
  "blk_ptr s i \<equiv> backend_direct (Some (bck s)) i"

abbreviation blk_hdr :: "pmb_handle \<Rightarrow> u64 \<Rightarrow> pmb_data_hdr" where
  "blk_hdr s i \<equiv> hdr_at (mem s) (blk_ptr s i)"

text \<open>\<open>present\<close>: \<open>backend_get\<close> finds an object. \<open>fits\<close>: its lengths stay inside the block.\<close>

definition present :: "pmb_handle \<Rightarrow> u64 \<Rightarrow> bool" where
  "present s i \<longleftrightarrow> i \<noteq> 0 \<and> h_flch64 (blk_hdr s i) \<noteq> 0"

definition obj_len :: "pmb_handle \<Rightarrow> u64 \<Rightarrow> nat" where
  "obj_len s i = 32 + unat (h_key_len (blk_hdr s i)) + unat (h_val_len (blk_hdr s i))"

definition fits :: "pmb_handle \<Rightarrow> u64 \<Rightarrow> bool" where
  "fits s i \<longleftrightarrow> obj_len s i \<le> block_len (bck s) i"

lemma backend_get_present:
  "block_ok (bck s) i \<Longrightarrow> fst (backend_get (Some (bck s)) i e s) = (if present s i then blk_ptr s i else NULL)"
  using bs.direct_not_null by (simp add: backend_get_def present_def Let_def)

text \<open>The effect of releasing a block.\<close>

definition clear_block :: "u64 \<Rightarrow> pmb_handle \<Rightarrow> pmb_handle" where
  "clear_block i s = s\<lparr>mem := memset (mem s) (blk_ptr s i) 0 (obj_len s i)\<rparr>"

definition release :: "u64 \<Rightarrow> pmb_handle \<Rightarrow> pmb_handle" where
  "release i s = (if present s i then push_free i (clear_block i s) else s)"

lemma set_zero_clear:
  "block_ok (bck s) i \<Longrightarrow> snd (backend_set_zero (Some (bck s)) (blk_ptr s i) s) = clear_block i s"
  using bs.direct_not_null
  by (simp add: backend_set_zero_def clear_block_def obj_len_def Let_def sizeof_pmb_data_hdr_def)

text \<open>The effect of an in-place update: the bytes are stored, the header update is noted.\<close>

definition store_val :: "u64 \<Rightarrow> u32 \<Rightarrow> u8 list \<Rightarrow> pmb_handle \<Rightarrow> pmb_handle" where
  "store_val i off bs s =
     (let dest = blk_ptr s i + 32 + unat (max_key_len s) + unat off;
          s = s\<lparr>mem := st_bytes (mem s) dest bs\<rparr>
      in case b_memcpy (bck s) of
           Pmem_memcpy_persist \<Rightarrow> s\<lparr>plog := plog s @ [Durable dest (length bs)]\<rparr>
         | Libc_memcpy \<Rightarrow> s)"

fun exec_rec :: "u8 \<Rightarrow> log_rec \<Rightarrow> pmb_handle \<Rightarrow> crash + pmb_handle" where
  "exec_rec t (LUpdate old new) s = Inr (release old s)"
| "exec_rec t (LRemove i) s = Inr (release i s)"
| "exec_rec t (LInplace i off bs) s =
     tx_slot_meta_upd_add t i (off + of_nat (length bs)) (store_val i off bs s)"
| "exec_rec t r s = Inr s"

primrec exec_recs :: "u8 \<Rightarrow> log_rec list \<Rightarrow> pmb_handle \<Rightarrow> crash + pmb_handle" where
  "exec_recs t [] s = Inr s"
| "exec_recs t (r # rs) s = bindR (exec_rec t r s) (exec_recs t rs)"

text \<open>The records whose blocks are in order.\<close>

fun rec_ok :: "pmb_handle \<Rightarrow> log_rec \<Rightarrow> bool" where
  "rec_ok s (LUpdate old new) \<longleftrightarrow> block_ok (bck s) old \<and> fits s old"
| "rec_ok s (LRemove i) \<longleftrightarrow> block_ok (bck s) i \<and> fits s i"
| "rec_ok s (LInplace i off bs) \<longleftrightarrow> block_ok (bck s) i \<and> i \<noteq> 0 \<and>
     32 + unat (max_key_len s) + unat off + length bs \<le> block_len (bck s) i"
| "rec_ok s _ \<longleftrightarrow> True"

section \<open>Frames\<close>

text \<open>\<open>conf_eq\<close>: the configuration of the store, which no operation of a transaction changes.\<close>

definition conf_eq :: "pmb_handle \<Rightarrow> pmb_handle \<Rightarrow> bool" where
  "conf_eq s s' \<longleftrightarrow> bck s' = bck s \<and> total_objs_count s' = total_objs_count s \<and> meta_objs_count s' = meta_objs_count s \<and>
     max_key_len s' = max_key_len s \<and> max_val_len s' = max_val_len s \<and>
     tx_slots_list (op_log s') = tx_slots_list (op_log s) \<and> tx_slots_count (op_log s') = tx_slots_count (op_log s) \<and>
     objs_list s' = objs_list s \<and> meta_objs_list s' = meta_objs_list s"

lemma conf_eq_refl [simp]: "conf_eq s s"
  by (simp add: conf_eq_def)

lemma conf_eq_trans: "conf_eq s s' \<Longrightarrow> conf_eq s' s'' \<Longrightarrow> conf_eq s s''"
  by (simp add: conf_eq_def)

lemma push_free_simps [simp]:
  "mem (push_free i s) = mem s" "bck (push_free i s) = bck s" "conf_eq s (push_free i s)"
  "op_log (push_free i s) = op_log s" "max_key_len (push_free i s) = max_key_len s"
  "total_objs_count (push_free i s) = total_objs_count s"
  by (simp_all add: push_free_def conf_eq_def)

lemma push_free_only: "i < total_objs_count s \<Longrightarrow> meta_free_list (push_free i s) = meta_free_list s"
  "\<not> i < total_objs_count s \<Longrightarrow> free_list (push_free i s) = free_list s"
  by (simp_all add: push_free_def)

lemma clear_block_simps [simp]:
  "bck (clear_block i s) = bck s" "op_log (clear_block i s) = op_log s" "conf_eq s (clear_block i s)"
  "max_key_len (clear_block i s) = max_key_len s" "total_objs_count (clear_block i s) = total_objs_count s"
  "free_list (clear_block i s) = free_list s" "meta_free_list (clear_block i s) = meta_free_list s"
  by (simp_all add: clear_block_def conf_eq_def)

lemma clear_block_only: "fits s i \<Longrightarrow> only (blk_ptr s i) (block_len (bck s) i) (mem s) (mem (clear_block i s))"
  by (simp add: clear_block_def fits_def only_memset)

lemma clear_block_hdr:
  "h_flch64 (hdr_at (mem (clear_block i s)) (blk_ptr s i)) = 0"
  "h_key_len (hdr_at (mem (clear_block i s)) (blk_ptr s i)) = 0"
  "h_val_len (hdr_at (mem (clear_block i s)) (blk_ptr s i)) = 0"
  by (simp_all add: clear_block_def hdr_at_def obj_len_def)

lemma release_simps [simp]:
  "bck (release i s) = bck s" "op_log (release i s) = op_log s" "conf_eq s (release i s)"
  "max_key_len (release i s) = max_key_len s" "total_objs_count (release i s) = total_objs_count s"
  using conf_eq_trans [OF clear_block_simps(3) push_free_simps(3)] by (simp_all add: release_def)

lemma mem_release: "mem (release i s) = (if present s i then mem (clear_block i s) else mem s)"
  by (simp add: release_def)

lemma release_only: "fits s i \<Longrightarrow> only (blk_ptr s i) (block_len (bck s) i) (mem s) (mem (release i s))"
  by (simp add: mem_release clear_block_only)

lemma store_val_simps [simp]:
  "bck (store_val i off bs s) = bck s" "op_log (store_val i off bs s) = op_log s"
  "conf_eq s (store_val i off bs s)" "max_key_len (store_val i off bs s) = max_key_len s"
  "free_list (store_val i off bs s) = free_list s" "meta_free_list (store_val i off bs s) = meta_free_list s"
  "total_objs_count (store_val i off bs s) = total_objs_count s"
  "mem (store_val i off bs s) = st_bytes (mem s) (blk_ptr s i + 32 + unat (max_key_len s) + unat off) bs"
  by (simp_all add: store_val_def Let_def conf_eq_def split: copy_fn.split)

text \<open>\<open>tx_slot_meta_upd_add\<close> changes the list of pending header updates of its slot and nothing else.\<close>

lemma meta_upd_add_frame:
  assumes "tx_slot_meta_upd_add t i len s = Inr s'"
  shows "\<exists>ml. s' = s\<lparr>op_log := (op_log s)\<lparr>upd_id_list := (upd_id_list (op_log s))[unat t := ml]\<rparr>\<rparr>"
  using assms by (auto simp: tx_slot_meta_upd_add_def Let_def bindR_eq_Inr_iff split: if_splits)

lemma meta_upd_add_mem:
  "tx_slot_meta_upd_add t i len s = Inr s' \<Longrightarrow> mem s' = mem s"
  "tx_slot_meta_upd_add t i len s = Inr s' \<Longrightarrow> conf_eq s s'"
  "tx_slot_meta_upd_add t i len s = Inr s' \<Longrightarrow> free_list s' = free_list s \<and> meta_free_list s' = meta_free_list s"
  by (auto simp: conf_eq_def dest!: meta_upd_add_frame)

text \<open>The block a record works on.\<close>

fun rec_block :: "log_rec \<Rightarrow> u64 option" where
  "rec_block (LUpdate old new) = Some old"
| "rec_block (LRemove i) = Some i"
| "rec_block (LInplace i off bs) = Some i"
| "rec_block r = None"

lemma exec_rec_conf: "exec_rec t r s = Inr s' \<Longrightarrow> conf_eq s s'"
  by (cases r) (auto intro: conf_eq_trans [OF store_val_simps(3)] dest: meta_upd_add_mem)

lemma exec_rec_only:
  assumes "rec_ok s r" and "exec_rec t r s = Inr s'"
  shows "case rec_block r of None \<Rightarrow> mem s' = mem s
    | Some i \<Rightarrow> block_ok (bck s) i \<and> only (blk_ptr s i) (block_len (bck s) i) (mem s) (mem s')"
  using assms by (cases r) (auto simp: release_only only_st_bytes dest!: meta_upd_add_mem(1))

lemma exec_rec_other_block:
  assumes "rec_ok s r" and "exec_rec t r s = Inr s'" and "block_ok (bck s) j" and "rec_block r \<noteq> Some j"
  shows "same_on (blk_ptr s j) (block_len (bck s) j) (mem s') (mem s)"
  using exec_rec_only [OF assms(1,2)] assms(3,4) bs.other_block_same [of "bck s" _ j "mem s'" "mem s"]
  by (cases "rec_block r") (auto dest: only_apart)

lemma exec_rec_slot:
  assumes "rec_ok s r" and "exec_rec t r s = Inr s'" and "slot_ok (bck s) k"
  shows "same_on (backend_tx_direct (Some (bck s)) k) (slot_cap s) (mem s') (mem s)"
  using exec_rec_only [OF assms(1,2)] assms(3) bs.slot_same [of "bck s" _ k "mem s'" "mem s"]
  by (cases "rec_block r") (auto dest: only_apart)

text \<open>Headers keep describing objects inside their blocks.\<close>

lemma fits_cong:
  assumes "bck s' = bck s" and "hdr_at (mem s') (blk_ptr s j) = hdr_at (mem s) (blk_ptr s j)"
  shows "fits s' j = fits s j"
  using assms by (simp add: fits_def obj_len_def)

lemma hdr_same_block:
  assumes "block_ok (bck s) j" and "same_on (blk_ptr s j) (block_len (bck s) j) m' (mem s)"
  shows "hdr_at m' (blk_ptr s j) = blk_hdr s j"
  using assms bs.extent_header [OF assms(1)] by (metis hdr_at_cong same_on_sub le_refl add_le_cancel_left)

lemma exec_rec_hdr:
  assumes r: "rec_ok s r" and ex: "exec_rec t r s = Inr s'" and j: "block_ok (bck s) j"
  shows "hdr_at (mem s') (blk_ptr s j) = blk_hdr s j \<or>
    (\<exists>n. r = LUpdate j n \<or> r = LRemove j) \<and> mem s' = mem (clear_block j s)"
proof (cases "rec_block r = Some j")
  case False
  then show ?thesis
    using exec_rec_other_block [OF r ex j] hdr_same_block [OF j] by blast
next
  case True
  show ?thesis
  proof (cases r)
    case (LInplace i off bs)
    then have "mem s' = st_bytes (mem s) (blk_ptr s j + 32 + unat (max_key_len s) + unat off) bs"
      using True ex by (auto dest!: meta_upd_add_mem(1))
    then have "same_on (blk_ptr s j) 32 (mem s') (mem s)"
      by (auto intro: same_on_st_bytes)
    then show ?thesis
      using hdr_at_cong by blast
  qed (use True ex in \<open>auto simp: mem_release\<close>)
qed

lemma exec_rec_fits:
  assumes r: "rec_ok s r" and ex: "exec_rec t r s = Inr s'" and j: "block_ok (bck s) j" "fits s j"
  shows "fits s' j"
proof -
  have b: "bck s' = bck s"
    using exec_rec_conf [OF ex] by (simp add: conf_eq_def)
  show ?thesis
    using exec_rec_hdr [OF r ex j(1)]
  proof
    assume "hdr_at (mem s') (blk_ptr s j) = blk_hdr s j"
    then show ?thesis
      using fits_cong [OF b] j(2) by simp
  next
    assume "(\<exists>n. r = LUpdate j n \<or> r = LRemove j) \<and> mem s' = mem (clear_block j s)"
    then show ?thesis
      using bs.extent_header [OF j(1)] by (simp add: fits_def obj_len_def b clear_block_hdr)
  qed
qed

lemma exec_rec_ok:
  assumes "rec_ok s r" and "exec_rec t r s = Inr s'" and "rec_ok s r'"
  shows "rec_ok s' r'"
  using assms exec_rec_conf [OF assms(2)] by (cases r') (auto simp: conf_eq_def intro: exec_rec_fits)

section \<open>The loop executes the records\<close>

lemma tx_update_block_store:
  assumes "block_ok (bck s) i" and "ld_bytes (mem s) src n = bs" and "n = length bs" and "length bs < 2 ^ 32"
  shows "tx_update_block t i src (ucast (off :: u32)) (of_nat n) s =
    tx_slot_meta_upd_add t i (off + of_nat (length bs)) (store_val i off bs s)"
proof -
  have n: "unat (of_nat n :: u64) = n"
    using assms(3,4) by simp
  have "(ucast (ucast off + of_nat n :: u64) :: u32) = off + of_nat n"
    using n assms(3,4) unat_lt_32 [of off] unat_add_no_wrap [of "ucast off" "of_nat n"]
    by (intro unat_eqI) (simp add: unat_word_ariths unsigned_ucast_eq unsigned_of_nat take_bit_eq_mod mod_simps)
  then show ?thesis
    using assms bs.direct_not_null [OF assms(1)] n
    by (simp add: tx_update_block_def Let_def backend_memcpy_def memcpy_def store_val_def sizeof_pmb_data_hdr_def)
qed

lemma exec_entry:
  assumes t: "slot_ok (bck s) k" and at: "backend_tx_direct (Some (bck s)) k \<le> pos"
    "pos + rec_size r \<le> backend_tx_direct (Some (bck s)) k + slot_cap s"
    and r: "rec_at (mem s) pos = r" "rec_ok s r"
  shows "tx_execute_entry t pos s = bindR (exec_rec t r s) (\<lambda>s'. Inr (pos + rec_size r, s'))"
proof -
  let ?e = "entry_at (mem s) pos"
  have again: "entry_at (mem (clear_block i s)) pos = ?e" if "block_ok (bck s) i" "fits s i" for i
  proof -
    have "same_on (backend_tx_direct (Some (bck s)) k) (slot_cap s) (mem (clear_block i s)) (mem s)"
      using bs.slot_same [OF that(1) t] only_apart [OF clear_block_only [OF that(2)]] by blast
    then have "same_on pos 24 (mem (clear_block i s)) (mem s)"
      by (rule same_on_sub) (use at rec_size_ge [of r] in auto)
    then show ?thesis
      by (rule entry_at_cong)
  qed
  consider (none) "op_of_code (e_type ?e) = None" | (some) o' where "op_of_code (e_type ?e) = Some o'"
    by blast
  then show ?thesis
  proof cases
    case none
    then have "r = LOther"
      using r(1) by (simp add: rec_at_def Let_def)
    then show ?thesis
      using none by (simp add: tx_execute_entry_def Let_def sizeof_tx_entry_def)
  next
    case (some o')
    show ?thesis
    proof (cases o')
      case UPDINPLACE
      let ?n = "unat (upd_size (e_blk_id2 ?e))"
      have eq: "r = LInplace (e_blk_id1 ?e) (upd_offset (e_blk_id2 ?e)) (ld_bytes (mem s) (pos + 24) ?n)"
        using r(1) some UPDINPLACE by (simp add: rec_at_def Let_def)
      have "ucast (upd_size (e_blk_id2 ?e)) = (of_nat ?n :: u64)"
        using unat_lt_32 [of "upd_size (e_blk_id2 ?e)"] by (intro unat_eqI) simp
      then have "tx_update_block t (e_blk_id1 ?e) (pos + 24) (ucast (upd_offset (e_blk_id2 ?e)))
          (ucast (upd_size (e_blk_id2 ?e))) s = exec_rec t r s"
        using r(2) unat_lt_32 [of "upd_size (e_blk_id2 ?e)"]
          tx_update_block_store [of s "e_blk_id1 ?e" "pos + 24" ?n, OF _ refl, of t "upd_offset (e_blk_id2 ?e)"]
        by (simp add: eq)
      then show ?thesis
        using some UPDINPLACE by (simp add: tx_execute_entry_def Let_def sizeof_tx_entry_def eq add.assoc)
    qed (use some r again in \<open>auto simp: rec_at_def tx_execute_entry_def Let_def sizeof_tx_entry_def
          backend_get_present set_zero_clear release_def bs.direct_not_null\<close>)
  qed
qed

lemma tx_execute_loop_recs:
  assumes "log_ok (mem s) pos e rs" and "\<forall>r\<in>set rs. rec_ok s r"
    and "slot_ok (bck s) k" and "backend_tx_direct (Some (bck s)) k \<le> pos"
    and "e \<le> backend_tx_direct (Some (bck s)) k + slot_cap s"
  shows "tx_execute_loop t e pos s = exec_recs t rs s"
  using assms
proof (induction rs arbitrary: pos s)
  case Nil
  then show ?case
    by (simp add: tx_execute_loop.simps)
next
  case (Cons r rs)
  let ?p = "backend_tx_direct (Some (bck s)) k"
  have le: "pos + rec_size r \<le> e"
    using Cons.prems(1) log_ok_le by auto
  have step: "tx_execute_entry t pos s = bindR (exec_rec t r s) (\<lambda>s'. Inr (pos + rec_size r, s'))"
    using Cons.prems le by (intro exec_entry [of s k]) auto
  show ?case
  proof (cases "exec_rec t r s")
    case (Inl c)
    then show ?thesis
      using step le rec_size_ge [of r] by (simp add: tx_execute_loop.simps)
  next
    case (Inr s')
    have r: "rec_ok s r" and b: "bck s' = bck s"
      using Cons.prems(2) exec_rec_conf [OF Inr] by (auto simp: conf_eq_def)
    have "same_on ?p (slot_cap s) (mem s') (mem s)"
      using r Inr Cons.prems(3) by (rule exec_rec_slot)
    then have "same_on (pos + rec_size r) (e - (pos + rec_size r)) (mem s) (mem s')"
      using Cons.prems(4,5) le by (auto intro: same_on_sym same_on_sub)
    then have "log_ok (mem s') (pos + rec_size r) e rs"
      using Cons.prems(1) by (auto intro: log_ok_cong)
    then have "tx_execute_loop t e (pos + rec_size r) s' = exec_recs t rs s'"
      using Cons.prems b exec_rec_ok [OF r Inr] by (intro Cons.IH) auto
    then show ?thesis
      using step Inr le rec_size_ge [of r] by (subst tx_execute_loop.simps) simp
  qed
qed

end
