(* ===== verification/Tx_Pend.thy ===== *)
theory Tx_Pend
  imports Tx_Exec
begin

text \<open>
  The list of pending header updates of a slot (\<open>tx_metalist\<close>) as a map from identifiers to
  version and length: \<open>ml_ok\<close> is its invariant, \<open>pend\<close> the abstraction, and
  \<open>meta_upd_add_pend\<close> shows that \<open>tx_slot_meta_upd_add\<close> updates the map, as long as no
  more than the 128 entries of the array are needed.
\<close>

section \<open>Pending header updates\<close>

definition ml_ok :: "tx_metalist \<Rightarrow> bool" where
  "ml_ok ml \<longleftrightarrow> length (ml_list ml) = 128 \<and> ml_count ml \<le> 128 \<and>
     distinct (map tm_id (take (ml_count ml) (ml_list ml))) \<and>
     (\<forall>m\<in>set (take (ml_count ml) (ml_list ml)). tm_id m \<noteq> 0) \<and>
     (\<forall>m\<in>set (drop (ml_count ml) (ml_list ml)). tm_id m = 0)"

definition meta_pair :: "tx_meta \<Rightarrow> u64 \<times> (u32 \<times> u32)" where
  "meta_pair m = (tm_id m, tm_version m, tm_val_len m)"

definition pend :: "tx_metalist \<Rightarrow> u64 \<rightharpoonup> (u32 \<times> u32)" where
  "pend ml = map_of (map meta_pair (take (ml_count ml) (ml_list ml)))"

definition bump :: "u32 \<Rightarrow> u32 \<times> u32 \<Rightarrow> u32 \<times> u32" where
  "bump len = (\<lambda>(v, l). (v + 1, if l < len then len else l))"

lemma nth_in_take: "k < n \<Longrightarrow> n \<le> length xs \<Longrightarrow> xs ! k \<in> set (take n xs)"
  by (metis in_set_conv_nth length_take min.absorb2 nth_take)

lemma meta_index_found:
  assumes "n \<le> length ms" and "\<forall>m\<in>set (take n ms). tm_id m \<noteq> 0" and "i \<le> n"
    and "\<forall>x<i. tm_id (ms ! x) \<noteq> v"
  shows "\<exists>k. meta_index ms n v i = Inr k \<and> k \<le> n \<and> (\<forall>x<k. tm_id (ms ! x) \<noteq> v) \<and>
    (k < n \<longrightarrow> tm_id (ms ! k) = v)"
  using assms(3,4)
proof (induction "n - i" arbitrary: i)
  case 0
  then show ?case
    using assms(1) by (subst meta_index.simps) auto
next
  case (Suc d)
  then have i: "i < n"
    by simp
  then have "ms ! i \<in> set (take n ms)"
    using assms(1) by (rule nth_in_take)
  then have nz: "tm_id (ms ! i) \<noteq> 0"
    using assms(2) by blast
  show ?case
  proof (cases "tm_id (ms ! i) = v")
    case True
    then show ?thesis
      using i assms(1) Suc.prems by (subst meta_index.simps) auto
  next
    case False
    have "\<exists>k. meta_index ms n v (i + 1) = Inr k \<and> k \<le> n \<and> (\<forall>x<k. tm_id (ms ! x) \<noteq> v) \<and>
        (k < n \<longrightarrow> tm_id (ms ! k) = v)"
      using Suc False i by (intro Suc.hyps(1)) (auto simp: less_Suc_eq)
    then show ?thesis
      using i assms(1) nz False by (subst meta_index.simps) auto
  qed
qed

lemma pend_dom: "dom (pend ml) = tm_id ` set (take (ml_count ml) (ml_list ml))"
  by (simp add: pend_def dom_map_of_conv_image_fst image_image meta_pair_def)

lemma pend_nth:
  assumes "ml_ok ml" and "k < ml_count ml"
  shows "pend ml (tm_id (ml_list ml ! k)) = Some (tm_version (ml_list ml ! k), tm_val_len (ml_list ml ! k))"
proof -
  have "meta_pair (ml_list ml ! k) \<in> set (map meta_pair (take (ml_count ml) (ml_list ml)))"
    using assms nth_in_take [of k "ml_count ml" "ml_list ml"] by (simp add: ml_ok_def)
  moreover have "distinct (map fst (map meta_pair (take (ml_count ml) (ml_list ml))))"
    using assms(1) by (simp add: ml_ok_def meta_pair_def comp_def)
  ultimately show ?thesis
    by (simp add: pend_def map_of_is_SomeI meta_pair_def)
qed

text \<open>The list after an entry \<open>k\<close> was changed or the first free entry taken.\<close>

lemma ml_ok_change:
  assumes ok: "ml_ok ml" and k: "k < ml_count ml" and m: "tm_id m = tm_id (ml_list ml ! k)"
  shows "ml_ok (ml\<lparr>ml_list := (ml_list ml)[k := m]\<rparr>)"
    and "pend (ml\<lparr>ml_list := (ml_list ml)[k := m]\<rparr>) = (pend ml)(tm_id m \<mapsto> (tm_version m, tm_val_len m))"
proof -
  let ?n = "ml_count ml" and ?ms = "ml_list ml"
  have len: "length ?ms = 128" "?n \<le> 128" and ids: "\<forall>m\<in>set (take ?n ?ms). tm_id m \<noteq> 0"
    using ok by (auto simp: ml_ok_def)
  have map: "map tm_id ((take ?n ?ms)[k := m]) = map tm_id (take ?n ?ms)"
    using k m len by (intro nth_equalityI) (auto simp: nth_list_update)
  have tk: "take ?n (?ms[k := m]) = (take ?n ?ms)[k := m]" "drop ?n (?ms[k := m]) = drop ?n ?ms"
    using k by (simp_all add: take_update_swap)
  have "tm_id m \<noteq> 0"
    using ids k m len nth_in_take [of k ?n ?ms] by auto
  then show ok': "ml_ok (ml\<lparr>ml_list := ?ms[k := m]\<rparr>)"
    using ok map by (auto simp: ml_ok_def tk dest: set_update_subset_insert [THEN subsetD])
  show "pend (ml\<lparr>ml_list := ?ms[k := m]\<rparr>) = (pend ml)(tm_id m \<mapsto> (tm_version m, tm_val_len m))"
  proof
    fix j
    show "pend (ml\<lparr>ml_list := ?ms[k := m]\<rparr>) j = ((pend ml)(tm_id m \<mapsto> (tm_version m, tm_val_len m))) j"
    proof (cases "j = tm_id m")
      case True
      then show ?thesis
        using pend_nth [OF ok', of k] k len by simp
    next
      case False
      have "map_of (map meta_pair ((take ?n ?ms)[k := m])) j = map_of (map meta_pair (take ?n ?ms)) j"
        using False m k len by (subst id_take_nth_drop [of k "take ?n ?ms"], simp)
          (subst upd_conv_take_nth_drop, simp_all add: meta_pair_def map_add_def split: option.split)
      then show ?thesis
        using False by (simp add: pend_def tk)
    qed
  qed
qed

lemma ml_ok_take_free:
  assumes ok: "ml_ok ml" and n: "ml_count ml < 128" and m: "tm_id m \<noteq> 0" "tm_id m \<notin> dom (pend ml)"
  shows "ml_ok (ml\<lparr>ml_count := ml_count ml + 1, ml_list := (ml_list ml)[ml_count ml := m]\<rparr>)"
    and "pend (ml\<lparr>ml_count := ml_count ml + 1, ml_list := (ml_list ml)[ml_count ml := m]\<rparr>) =
      (pend ml)(tm_id m \<mapsto> (tm_version m, tm_val_len m))"
proof -
  let ?n = "ml_count ml" and ?ms = "ml_list ml"
  have len: "length ?ms = 128"
    using ok by (simp add: ml_ok_def)
  have tk: "take (Suc ?n) (?ms[?n := m]) = take ?n ?ms @ [m]" "drop (Suc ?n) (?ms[?n := m]) = drop (Suc ?n) ?ms"
    using n len by (simp_all add: take_Suc_conv_app_nth)
  have sub: "set (drop (Suc ?n) ?ms) \<subseteq> set (drop ?n ?ms)"
    by (rule set_drop_subset_set_drop) simp
  show "ml_ok (ml\<lparr>ml_count := ?n + 1, ml_list := ?ms[?n := m]\<rparr>)"
    using ok n m sub by (auto simp: ml_ok_def tk pend_dom)
  have "map_of (map meta_pair (take ?n ?ms)) (tm_id m) = None"
    using m(2) by (simp only: pend_def domIff not_not)
  then show "pend (ml\<lparr>ml_count := ?n + 1, ml_list := ?ms[?n := m]\<rparr>) =
      (pend ml)(tm_id m \<mapsto> (tm_version m, tm_val_len m))"
    by (auto simp: pend_def tk meta_pair_def map_add_def fun_eq_iff split: option.split)
qed

text \<open>
  \<open>tx_slot_meta_upd_add\<close> as a change of the pending updates: the version grows by one, the
  length to the end of the update, starting from the object's header at the first update.
\<close>

lemma meta_upd_add_pend:
  assumes t: "unat t < length (upd_id_list (op_log s))" and ok: "ml_ok (upd_id_list (op_log s) ! unat t)"
    and i: "i \<noteq> 0" "blk_ptr s i \<noteq> NULL"
    and room: "i \<in> dom (pend (upd_id_list (op_log s) ! unat t)) \<or> card (dom (pend (upd_id_list (op_log s) ! unat t))) < 128"
  defines "ml \<equiv> upd_id_list (op_log s) ! unat t"
  shows "\<exists>ml'. tx_slot_meta_upd_add t i len s =
      Inr (s\<lparr>op_log := (op_log s)\<lparr>upd_id_list := (upd_id_list (op_log s))[unat t := ml']\<rparr>\<rparr>) \<and> ml_ok ml' \<and>
    pend ml' = (pend ml)(i \<mapsto> bump len (case pend ml i of
      None \<Rightarrow> (h_version (blk_hdr s i), h_val_len (blk_hdr s i)) | Some x \<Rightarrow> x))"
proof -
  note ok = ok [folded ml_def]
  let ?n = "ml_count ml" and ?ms = "ml_list ml"
  have len: "length ?ms = 128" "?n \<le> 128" "\<forall>m\<in>set (take ?n ?ms). tm_id m \<noteq> 0"
      "distinct (map tm_id (take ?n ?ms))" "\<forall>m\<in>set (drop ?n ?ms). tm_id m = 0"
    using ok by (simp_all add: ml_ok_def)
  obtain k where k: "meta_index ?ms ?n i 0 = Inr k" "k \<le> ?n" "\<forall>x<k. tm_id (?ms ! x) \<noteq> i"
      "k < ?n \<longrightarrow> tm_id (?ms ! k) = i"
    using meta_index_found [of ?n ?ms 0 i] len by auto
  have card: "card (dom (pend ml)) = ?n"
    using len distinct_card [OF len(4)] by (simp add: pend_dom)
  show ?thesis
  proof (cases "k < ?n")
    case True
    then have id: "tm_id (?ms ! k) = i" and old: "pend ml i = Some (tm_version (?ms ! k), tm_val_len (?ms ! k))"
      using k(4) pend_nth [OF ok True] by auto
    define m where "m = (let m = (?ms ! k)\<lparr>tm_version := tm_version (?ms ! k) + 1\<rparr>
      in if tm_val_len m < len then m\<lparr>tm_val_len := len\<rparr> else m)"
    have m: "tm_id m = i" "(tm_version m, tm_val_len m) = bump len (tm_version (?ms ! k), tm_val_len (?ms ! k))"
      using id by (simp_all add: m_def Let_def bump_def)
    have "tx_slot_meta_upd_add t i len s = Inr (s\<lparr>op_log := (op_log s)\<lparr>
        upd_id_list := (upd_id_list (op_log s))[unat t := ml\<lparr>ml_list := ?ms[k := m]\<rparr>]\<rparr>\<rparr>)"
      using t k(1) True len(1,2) i id by (simp add: tx_slot_meta_upd_add_def m_def Let_def flip: ml_def)
    then show ?thesis
      using ml_ok_change [OF ok True, of m] m id old by auto
  next
    case False
    then have kn: "k = ?n"
      using k(2) by simp
    have new: "i \<notin> dom (pend ml)"
    proof
      assume "i \<in> dom (pend ml)"
      then obtain m where "m \<in> set (take ?n ?ms)" and m: "i = tm_id m"
        unfolding pend_dom by (rule imageE)
      then obtain x where "x < ?n" "m = ?ms ! x"
        using len(1,2) unfolding in_set_conv_nth by (auto simp: min_def split: if_splits)
      then show False
        using k(3) kn m by blast
    qed
    then have n: "?n < 128"
      using room card by (simp flip: ml_def)
    have "?ms ! ?n \<in> set (drop ?n ?ms)"
      using n len(1) by (metis Cons_nth_drop_Suc list.set_intros(1))
    then have z: "tm_id (?ms ! ?n) = 0"
      using len(5) by blast
    define m where "m = (let m = (?ms ! ?n)\<lparr>tm_id := i, tm_val_len := h_val_len (blk_hdr s i),
        tm_version := h_version (blk_hdr s i) + 1\<rparr> in if tm_val_len m < len then m\<lparr>tm_val_len := len\<rparr> else m)"
    have m: "tm_id m = i" "(tm_version m, tm_val_len m) = bump len (h_version (blk_hdr s i), h_val_len (blk_hdr s i))"
      by (simp_all add: m_def Let_def bump_def)
    have "tx_slot_meta_upd_add t i len s = Inr (s\<lparr>op_log := (op_log s)\<lparr>
        upd_id_list := (upd_id_list (op_log s))[unat t := ml\<lparr>ml_count := ?n + 1, ml_list := ?ms[?n := m]\<rparr>]\<rparr>\<rparr>)"
      using t k(1) n len(1) i z by (simp add: tx_slot_meta_upd_add_def m_def Let_def kn flip: ml_def)
    moreover have "pend ml i = None"
      using new by (simp only: domIff not_not)
    ultimately show ?thesis
      using ml_ok_take_free [OF ok n, of m] m i new by auto
  qed
qed

end
