(* ===== verification/Tx_Execute.thy ===== *)
theory Tx_Execute
  imports Tx_Pend
begin

text \<open>
  What a transaction does to the store when it is executed: blocks released, free lists grown,
  in-place updates applied and objects sealed again. The lemmas follow the records through
  \<open>exec_recs\<close>, then the processing of the pending header updates; the properties at the end
  state the outcome of \<open>tx_slot_execute\<close>.
\<close>

section \<open>The effect of a list of records\<close>

fun released :: "log_rec \<Rightarrow> u64 set" where
  "released (LUpdate old new) = {old}"
| "released (LRemove i) = {i}"
| "released r = {}"

fun inplaced :: "log_rec \<Rightarrow> u64 set" where
  "inplaced (LInplace i off bs) = {i}"
| "inplaced r = {}"

abbreviation released_ids :: "log_rec list \<Rightarrow> u64 set" where
  "released_ids rs \<equiv> \<Union>(released ` set rs)"

abbreviation inplace_ids :: "log_rec list \<Rightarrow> u64 set" where
  "inplace_ids rs \<equiv> \<Union>(inplaced ` set rs)"

definition overlay :: "nat \<Rightarrow> 'a list \<Rightarrow> 'a list \<Rightarrow> 'a list" where
  "overlay off bs xs = take off xs @ bs @ drop (off + length bs) xs"

fun rec_overlay :: "u64 \<Rightarrow> log_rec \<Rightarrow> u8 list \<Rightarrow> u8 list" where
  "rec_overlay j (LInplace i off bs) d = (if i = j then overlay (unat off) bs d else d)"
| "rec_overlay j r d = d"

fun rec_bump :: "u64 \<Rightarrow> log_rec \<Rightarrow> u32 \<times> u32 \<Rightarrow> u32 \<times> u32" where
  "rec_bump j (LInplace i off bs) x = (if i = j then bump (off + of_nat (length bs)) x else x)"
| "rec_bump j r x = x"

text \<open>The bytes behind the room for the key: the value, and the rest of the block.\<close>

definition val_area :: "pmb_handle \<Rightarrow> u64 \<Rightarrow> u8 list" where
  "val_area s j = ld_bytes (mem s) (blk_ptr s j + 32 + unat (max_key_len s))
     (block_len (bck s) j - (32 + unat (max_key_len s)))"

lemma ld_bytes_st_bytes_inside:
  assumes "off + length bs \<le> n"
  shows "ld_bytes (st_bytes m (p + off) bs) p n = overlay off bs (ld_bytes m p n)"
  using assms by (intro nth_equalityI) (auto simp: overlay_def st_bytes_def nth_append)

lemma rec_ok_released: "rec_ok s r \<Longrightarrow> i \<in> released r \<Longrightarrow> block_ok (bck s) i"
  by (cases r) auto

lemma exec_recs_induct:
  assumes "exec_recs t rs s = Inr s'" and "\<forall>r\<in>set rs. rec_ok s r"
    and nil: "\<And>s. P [] s s"
    and step: "\<And>r rs s s1 s'. rec_ok s r \<Longrightarrow> exec_rec t r s = Inr s1 \<Longrightarrow> conf_eq s s1 \<Longrightarrow>
      \<forall>r\<in>set rs. rec_ok s1 r \<Longrightarrow> exec_recs t rs s1 = Inr s' \<Longrightarrow> P rs s1 s' \<Longrightarrow> P (r # rs) s s'"
  shows "P rs s s'"
  using assms(1,2)
proof (induction rs arbitrary: s)
  case Nil
  then show ?case
    by (simp add: nil)
next
  case (Cons r rs)
  then obtain s1 where s1: "exec_rec t r s = Inr s1" "exec_recs t rs s1 = Inr s'"
    by (auto simp: bindR_eq_Inr_iff)
  have ok: "rec_ok s r" and "\<forall>r\<in>set rs. rec_ok s r"
    using Cons.prems(2) by simp_all
  then have rs: "\<forall>r\<in>set rs. rec_ok s1 r"
    using exec_rec_ok [OF ok s1(1)] by blast
  show ?case
    using ok s1(1) exec_rec_conf [OF s1(1)] rs s1(2) Cons.IH [OF s1(2) rs] by (rule step)
qed

lemma conf_eq_bck: "conf_eq s s' \<Longrightarrow> bck s' = bck s"
  "conf_eq s s' \<Longrightarrow> max_key_len s' = max_key_len s" "conf_eq s s' \<Longrightarrow> total_objs_count s' = total_objs_count s"
  by (simp_all add: conf_eq_def)

lemma exec_recs_conf:
  assumes "exec_recs t rs s = Inr s'" and "\<forall>r\<in>set rs. rec_ok s r"
  shows "conf_eq s s'"
  using assms by (rule exec_recs_induct) (auto intro: conf_eq_trans)

lemma exec_recs_same:
  assumes "exec_recs t rs s = Inr s'" and "\<forall>r\<in>set rs. rec_ok s r"
  shows "block_ok (bck s) j \<and> j \<notin> released_ids rs \<union> inplace_ids rs \<longrightarrow>
    same_on (blk_ptr s j) (block_len (bck s) j) (mem s') (mem s)"
  using assms
proof (rule exec_recs_induct)
  fix r rs s s1 s'
  assume r: "rec_ok s r" "exec_rec t r s = Inr s1" and c: "conf_eq s s1"
    and IH: "block_ok (bck s1) j \<and> j \<notin> released_ids rs \<union> inplace_ids rs \<longrightarrow>
      same_on (blk_ptr s1 j) (block_len (bck s1) j) (mem s') (mem s1)"
  show "block_ok (bck s) j \<and> j \<notin> released_ids (r # rs) \<union> inplace_ids (r # rs) \<longrightarrow>
      same_on (blk_ptr s j) (block_len (bck s) j) (mem s') (mem s)"
  proof
    assume j: "block_ok (bck s) j \<and> j \<notin> released_ids (r # rs) \<union> inplace_ids (r # rs)"
    then have "rec_block r \<noteq> Some j"
      by (cases r) auto
    then have "same_on (blk_ptr s j) (block_len (bck s) j) (mem s1) (mem s)"
      using exec_rec_other_block [OF r] j by simp
    then show "same_on (blk_ptr s j) (block_len (bck s) j) (mem s') (mem s)"
      using IH j c by (auto simp: conf_eq_bck intro: same_on_trans)
  qed
qed simp

lemma exec_recs_slots:
  assumes "exec_recs t rs s = Inr s'" and "\<forall>r\<in>set rs. rec_ok s r"
  shows "slots_kept s {} s'"
  using assms
proof (rule exec_recs_induct)
  fix r rs s s1 s'
  assume r: "rec_ok s r" "exec_rec t r s = Inr s1" and c: "conf_eq s s1" and IH: "slots_kept s1 {} s'"
  have "slots_kept s {} s1"
    using exec_rec_slot [OF r] by (simp add: slots_kept_def)
  then show "slots_kept s {} s'"
    using IH conf_eq_bck(1) [OF c] by (rule slots_kept_trans)
qed (simp add: slots_kept_def)

text \<open>A step leaves the head of a block (header and room for the key) alone unless it releases it.\<close>

lemma exec_rec_head:
  assumes r: "rec_ok s r" "exec_rec t r s = Inr s'" and j: "block_ok (bck s) j" "j \<notin> released r"
    and mk: "32 + unat (max_key_len s) \<le> block_len (bck s) j"
  shows "same_on (blk_ptr s j) (32 + unat (max_key_len s)) (mem s') (mem s)"
    and "val_area s' j = rec_overlay j r (val_area s j)"
proof -
  have conf: "bck s' = bck s" "max_key_len s' = max_key_len s"
    using exec_rec_conf [OF r(2)] by (simp_all add: conf_eq_def)
  have "same_on (blk_ptr s j) (32 + unat (max_key_len s)) (mem s') (mem s) \<and>
    val_area s' j = rec_overlay j r (val_area s j)"
  proof (cases "rec_block r = Some j")
    case False
    then have same: "same_on (blk_ptr s j) (block_len (bck s) j) (mem s') (mem s)"
      using exec_rec_other_block [OF r j(1)] by simp
    then have "val_area s' j = val_area s j"
      unfolding val_area_def conf by (intro ld_bytes_cong same_on_sub [OF same]) (use mk in auto)
    moreover have "rec_overlay j r (val_area s j) = val_area s j"
      using False by (cases r) auto
    ultimately show ?thesis
      using same mk by (auto intro: same_on_sub)
  next
    case True
    then obtain off bs where i: "r = LInplace j off bs"
      using j(2) by (cases r) auto
    then have m: "mem s' = st_bytes (mem s) (blk_ptr s j + 32 + unat (max_key_len s) + unat off) bs"
      and fit: "unat off + length bs \<le> block_len (bck s) j - (32 + unat (max_key_len s))"
      using r by (auto dest!: meta_upd_add_mem(1))
    show ?thesis
      using ld_bytes_st_bytes_inside [OF fit, of "mem s" "blk_ptr s j + 32 + unat (max_key_len s)"]
      by (auto simp: i m val_area_def conf add.assoc intro: same_on_st_bytes)
  qed
  then show "same_on (blk_ptr s j) (32 + unat (max_key_len s)) (mem s') (mem s)"
    and "val_area s' j = rec_overlay j r (val_area s j)"
    by blast+
qed

lemma exec_recs_head:
  assumes "exec_recs t rs s = Inr s'" and "\<forall>r\<in>set rs. rec_ok s r"
  shows "block_ok (bck s) j \<and> j \<notin> released_ids rs \<and> 32 + unat (max_key_len s) \<le> block_len (bck s) j \<longrightarrow>
    same_on (blk_ptr s j) (32 + unat (max_key_len s)) (mem s') (mem s) \<and>
    val_area s' j = fold (rec_overlay j) rs (val_area s j)"
  using assms
proof (rule exec_recs_induct)
  fix r rs s s1 s'
  assume r: "rec_ok s r" "exec_rec t r s = Inr s1" and c: "conf_eq s s1"
    and IH: "block_ok (bck s1) j \<and> j \<notin> released_ids rs \<and> 32 + unat (max_key_len s1) \<le> block_len (bck s1) j \<longrightarrow>
      same_on (blk_ptr s1 j) (32 + unat (max_key_len s1)) (mem s') (mem s1) \<and>
      val_area s' j = fold (rec_overlay j) rs (val_area s1 j)"
  show "block_ok (bck s) j \<and> j \<notin> released_ids (r # rs) \<and> 32 + unat (max_key_len s) \<le> block_len (bck s) j \<longrightarrow>
      same_on (blk_ptr s j) (32 + unat (max_key_len s)) (mem s') (mem s) \<and>
      val_area s' j = fold (rec_overlay j) (r # rs) (val_area s j)"
    using IH exec_rec_head [OF r] c by (auto simp: conf_eq_bck intro: same_on_trans)
qed simp

lemma exec_rec_present:
  assumes r: "rec_ok s r" "exec_rec t r s = Inr s'" and j: "block_ok (bck s) j"
  shows "present s' j \<longleftrightarrow> present s j \<and> j \<notin> released r"
proof (cases "j \<in> released r")
  case True
  then have "s' = release j s"
    using r by (cases r) auto
  then show ?thesis
    using True clear_block_hdr(1) [of j s] by (auto simp: present_def release_def)
next
  case False
  then have "hdr_at (mem s') (blk_ptr s j) = blk_hdr s j"
    using exec_rec_hdr [OF r j] by auto
  then show ?thesis
    using False exec_rec_conf [OF r(2)] by (simp add: present_def conf_eq_bck)
qed

lemma exec_recs_present:
  assumes "exec_recs t rs s = Inr s'" and "\<forall>r\<in>set rs. rec_ok s r"
  shows "block_ok (bck s) j \<longrightarrow> (present s' j \<longleftrightarrow> present s j \<and> j \<notin> released_ids rs)"
  using assms
proof (rule exec_recs_induct)
  fix r rs s s1 s'
  assume r: "rec_ok s r" "exec_rec t r s = Inr s1" and c: "conf_eq s s1"
    and IH: "block_ok (bck s1) j \<longrightarrow> (present s' j \<longleftrightarrow> present s1 j \<and> j \<notin> released_ids rs)"
  show "block_ok (bck s) j \<longrightarrow> (present s' j \<longleftrightarrow> present s j \<and> j \<notin> released_ids (r # rs))"
    using IH exec_rec_present [OF r] c by (auto simp: conf_eq_bck)
qed simp

section \<open>Free lists\<close>

lemma block_ok_bounds:
  assumes "block_ok b i"
  shows "i \<noteq> - 1"
proof -
  have "unat i < unat (b_data_nlba b + b_meta_nlba b)"
    using assms nlba_sum_no_wrap [of b] by (auto simp: block_ok_def data_id_def meta_id_def word_nat)
  then show ?thesis
    using less_not_max [of i "b_data_nlba b + b_meta_nlba b"] by (simp add: word_nat)
qed

definition lists_grow :: "pmb_handle \<Rightarrow> u64 set \<Rightarrow> pmb_handle \<Rightarrow> bool" where
  "lists_grow s A s' \<longleftrightarrow> list_wf (free_list s') \<and> list_wf (meta_free_list s') \<and>
     list_ids (free_list s') = list_ids (free_list s) \<union> {i \<in> A. i < total_objs_count s} \<and>
     list_ids (meta_free_list s') = list_ids (meta_free_list s) \<union> {i \<in> A. \<not> i < total_objs_count s}"

lemma lists_grow_same:
  "free_list s' = free_list s \<Longrightarrow> meta_free_list s' = meta_free_list s \<Longrightarrow>
   list_wf (free_list s) \<Longrightarrow> list_wf (meta_free_list s) \<Longrightarrow> lists_grow s {} s'"
  by (simp add: lists_grow_def)

lemma lists_grow_trans:
  "lists_grow s A s1 \<Longrightarrow> lists_grow s1 B s' \<Longrightarrow> total_objs_count s1 = total_objs_count s \<Longrightarrow> lists_grow s (A \<union> B) s'"
  by (auto simp: lists_grow_def)

lemma push_free_grow:
  assumes "list_wf (free_list s)" "list_wf (meta_free_list s)" and "valid_id i"
  shows "lists_grow s {i} (push_free i s)"
  using assms list_push by (auto simp: lists_grow_def push_free_def)

lemma release_grow:
  assumes "block_ok (bck s) i" and wf: "list_wf (free_list s)" "list_wf (meta_free_list s)"
  shows "lists_grow s {j. j = i \<and> present s j} (release i s)"
proof (cases "present s i")
  case True
  then have "valid_id i"
    using block_ok_bounds [OF assms(1)] by (simp add: valid_id_def present_def)
  then have "lists_grow (clear_block i s) {i} (push_free i (clear_block i s))"
    using wf by (intro push_free_grow) simp_all
  moreover have "{j. j = i \<and> present s j} = {i}"
    using True by auto
  ultimately show ?thesis
    using True by (simp add: lists_grow_def release_def)
next
  case False
  then show ?thesis
    using wf by (auto simp: release_def lists_grow_def)
qed

lemma exec_rec_grow:
  assumes r: "rec_ok s r" "exec_rec t r s = Inr s'" and wf: "list_wf (free_list s)" "list_wf (meta_free_list s)"
  shows "lists_grow s {i \<in> released r. present s i} s'"
  using r wf release_grow by (cases r) (auto intro: lists_grow_same dest!: meta_upd_add_mem(3))

lemma exec_recs_grow:
  assumes "exec_recs t rs s = Inr s'" and "\<forall>r\<in>set rs. rec_ok s r"
  shows "list_wf (free_list s) \<and> list_wf (meta_free_list s) \<longrightarrow> lists_grow s {i \<in> released_ids rs. present s i} s'"
  using assms
proof (rule exec_recs_induct)
  fix r rs s s1 s'
  assume r: "rec_ok s r" "exec_rec t r s = Inr s1" and c: "conf_eq s s1" and rs: "\<forall>r\<in>set rs. rec_ok s1 r"
    and IH: "list_wf (free_list s1) \<and> list_wf (meta_free_list s1) \<longrightarrow>
      lists_grow s1 {i \<in> released_ids rs. present s1 i} s'"
  have bo: "block_ok (bck s) i" if "i \<in> released_ids rs" for i
    using that rs c rec_ok_released by (fastforce simp: conf_eq_bck)
  show "list_wf (free_list s) \<and> list_wf (meta_free_list s) \<longrightarrow>
      lists_grow s {i \<in> released_ids (r # rs). present s i} s'"
  proof
    assume wf: "list_wf (free_list s) \<and> list_wf (meta_free_list s)"
    then have g: "lists_grow s {i \<in> released r. present s i} s1"
      using exec_rec_grow [OF r] by blast
    then have "lists_grow s1 {i \<in> released_ids rs. present s1 i} s'"
      using IH by (simp add: lists_grow_def)
    from lists_grow_trans [OF g this]
    have "lists_grow s ({i \<in> released r. present s i} \<union> {i \<in> released_ids rs. present s1 i}) s'"
      using c by (simp add: conf_eq_bck)
    moreover have "{i \<in> released r. present s i} \<union> {i \<in> released_ids rs. present s1 i} =
        {i \<in> released_ids (r # rs). present s i}"
      using exec_rec_present [OF r] bo by auto
    ultimately show "lists_grow s {i \<in> released_ids (r # rs). present s i} s'"
      by simp
  qed
qed (simp add: lists_grow_def)

section \<open>The pending updates after the loop\<close>

abbreviation slot_ml :: "pmb_handle \<Rightarrow> u8 \<Rightarrow> tx_metalist" where
  "slot_ml s t \<equiv> upd_id_list (op_log s) ! unat t"

definition pend_or_hdr :: "pmb_handle \<Rightarrow> u8 \<Rightarrow> u64 \<Rightarrow> u32 \<times> u32" where
  "pend_or_hdr s t j = (case pend (slot_ml s t) j of
     None \<Rightarrow> (h_version (blk_hdr s j), h_val_len (blk_hdr s j)) | Some x \<Rightarrow> x)"

definition ml_changed :: "u8 \<Rightarrow> pmb_handle \<Rightarrow> pmb_handle \<Rightarrow> bool" where
  "ml_changed t s s' \<longleftrightarrow> length (upd_id_list (op_log s')) = length (upd_id_list (op_log s)) \<and>
     (\<forall>u. u \<noteq> unat t \<longrightarrow> upd_id_list (op_log s') ! u = upd_id_list (op_log s) ! u)"

lemma rec_ok_inplaced:
  "rec_ok s r \<Longrightarrow> i \<in> inplaced r \<Longrightarrow>
   block_ok (bck s) i \<and> i \<noteq> 0 \<and> 32 + unat (max_key_len s) \<le> block_len (bck s) i"
  by (cases r) auto

lemma exec_rec_pend:
  assumes r: "rec_ok s r" and t: "unat t < length (upd_id_list (op_log s))" and ok: "ml_ok (slot_ml s t)"
    and room: "card (dom (pend (slot_ml s t)) \<union> inplaced r) \<le> 128"
  shows "\<exists>s'. exec_rec t r s = Inr s' \<and> ml_changed t s s' \<and> ml_ok (slot_ml s' t) \<and>
    pend (slot_ml s' t) = (\<lambda>j. if j \<in> inplaced r then Some (rec_bump j r (pend_or_hdr s t j)) else pend (slot_ml s t) j)"
proof (cases r)
  case (LInplace i off bs)
  let ?s = "store_val i off bs s" and ?len = "off + of_nat (length bs)"
  have i: "block_ok (bck s) i" "i \<noteq> 0" "32 + unat (max_key_len s) + unat off + length bs \<le> block_len (bck s) i"
    using r LInplace by simp_all
  have "hdr_at (mem ?s) (blk_ptr s i) = blk_hdr s i"
    by (rule hdr_at_cong) (auto intro: same_on_st_bytes)
  then have hdr: "blk_hdr ?s i = blk_hdr s i"
    by simp
  have "i \<in> dom (pend (slot_ml s t)) \<or> card (dom (pend (slot_ml s t))) < 128"
  proof (rule disjCI)
    assume "\<not> card (dom (pend (slot_ml s t))) < 128"
    moreover have "finite (dom (pend (slot_ml s t)))"
      by (simp add: pend_dom)
    ultimately show "i \<in> dom (pend (slot_ml s t))"
      using room LInplace by (cases "i \<in> dom (pend (slot_ml s t))") simp_all
  qed
  then obtain ml' where ml': "exec_rec t r s = Inr (?s\<lparr>op_log := (op_log s)\<lparr>
        upd_id_list := (upd_id_list (op_log s))[unat t := ml']\<rparr>\<rparr>)" "ml_ok ml'"
      "pend ml' = (pend (slot_ml s t))(i \<mapsto> bump ?len (pend_or_hdr s t i))"
    using meta_upd_add_pend [of t ?s i ?len] t ok i bs.direct_not_null [OF i(1)] hdr LInplace
    unfolding pend_or_hdr_def by (auto cong: option.case_cong)
  show ?thesis
    using ml' t LInplace by (auto simp: ml_changed_def fun_eq_iff)
qed (use ok in \<open>auto simp: ml_changed_def\<close>)

lemma pend_or_hdr_step:
  assumes "exec_rec t r s = Inr s'" "rec_ok s r" and "block_ok (bck s) j" "j \<notin> released r"
    and "pend (slot_ml s' t) = (\<lambda>j. if j \<in> inplaced r then Some (rec_bump j r (pend_or_hdr s t j)) else pend (slot_ml s t) j)"
  shows "pend_or_hdr s' t j = rec_bump j r (pend_or_hdr s t j)"
proof -
  have "blk_hdr s' j = blk_hdr s j"
    using exec_rec_hdr [OF assms(2,1,3)] assms(4) exec_rec_conf [OF assms(1)] by (auto simp: conf_eq_bck)
  moreover have "rec_bump j r x = x" if "j \<notin> inplaced r" for x
    using that by (cases r) auto
  ultimately show ?thesis
    using assms(5) by (auto simp: pend_or_hdr_def cong: option.case_cong)
qed

lemma exec_recs_pend:
  assumes "\<forall>r\<in>set rs. rec_ok s r" and "unat t < length (upd_id_list (op_log s))" and "ml_ok (slot_ml s t)"
    and "card (dom (pend (slot_ml s t)) \<union> inplace_ids rs) \<le> 128" and "inplace_ids rs \<inter> released_ids rs = {}"
  shows "\<exists>s'. exec_recs t rs s = Inr s' \<and> ml_changed t s s' \<and> ml_ok (slot_ml s' t) \<and>
    pend (slot_ml s' t) = (\<lambda>j. if j \<in> inplace_ids rs then Some (fold (rec_bump j) rs (pend_or_hdr s t j))
      else pend (slot_ml s t) j)"
  using assms
proof (induction rs arbitrary: s)
  case Nil
  then show ?case
    by (simp add: ml_changed_def)
next
  case (Cons r rs)
  have fin: "finite (dom (pend (slot_ml s t)) \<union> inplace_ids (r # rs))"
  proof -
    have "finite (inplaced x)" for x
      by (cases x) auto
    then show ?thesis
      by (simp add: pend_dom)
  qed
  have "card (dom (pend (slot_ml s t)) \<union> inplaced r) \<le> 128"
    by (rule le_trans [OF card_mono [OF fin] Cons.prems(4)]) auto
  then obtain s1 where s1: "exec_rec t r s = Inr s1" "ml_changed t s s1" "ml_ok (slot_ml s1 t)"
    "pend (slot_ml s1 t) = (\<lambda>j. if j \<in> inplaced r then Some (rec_bump j r (pend_or_hdr s t j)) else pend (slot_ml s t) j)"
    using exec_rec_pend [of s r t] Cons.prems by auto
  have r: "rec_ok s r" and b: "bck s1 = bck s"
    using Cons.prems(1) exec_rec_conf [OF s1(1)] by (auto simp: conf_eq_bck)
  have "dom (pend (slot_ml s1 t)) \<union> inplace_ids rs = dom (pend (slot_ml s t)) \<union> inplace_ids (r # rs)"
    using s1(4) by (auto split: if_splits)
  then have "\<exists>s'. exec_recs t rs s1 = Inr s' \<and> ml_changed t s1 s' \<and> ml_ok (slot_ml s' t) \<and>
      pend (slot_ml s' t) = (\<lambda>j. if j \<in> inplace_ids rs then Some (fold (rec_bump j) rs (pend_or_hdr s1 t j))
        else pend (slot_ml s1 t) j)"
    using Cons.prems s1 exec_rec_ok [OF r s1(1)] by (intro Cons.IH) (auto simp: ml_changed_def)
  then obtain s' where s': "exec_recs t rs s1 = Inr s'" "ml_changed t s1 s'" "ml_ok (slot_ml s' t)"
    "pend (slot_ml s' t) = (\<lambda>j. if j \<in> inplace_ids rs then Some (fold (rec_bump j) rs (pend_or_hdr s1 t j))
        else pend (slot_ml s1 t) j)"
    by blast
  have bo: "block_ok (bck s) j" if "j \<in> inplace_ids (r # rs)" for j
    using that Cons.prems(1) rec_ok_inplaced by blast
  have id: "fold (rec_bump j) rs x = x" if "j \<notin> inplace_ids rs" for j x
    using that
  proof (induction rs arbitrary: x)
    case (Cons a rs)
    then have "rec_bump j a x = x"
      by (cases a) auto
    then show ?case
      using Cons by simp
  qed simp
  have "pend (slot_ml s' t) j = (if j \<in> inplace_ids (r # rs)
      then Some (fold (rec_bump j) (r # rs) (pend_or_hdr s t j)) else pend (slot_ml s t) j)" for j
  proof (cases "j \<in> inplace_ids rs")
    case True
    then have "j \<notin> released r" "block_ok (bck s) j"
      using Cons.prems(5) bo by auto
    then show ?thesis
      using True pend_or_hdr_step [OF s1(1) r _ _ s1(4)] by (simp add: s'(4))
  next
    case False
    then show ?thesis
      using id [of j] by (simp add: s'(4) s1(4))
  qed
  then show ?case
    using s1(1,2) s'(1-3) by (auto simp: ml_changed_def)
qed

section \<open>Applying the pending updates\<close>

text \<open>\<open>sealed\<close>: the object's checksum is that of the range the code checksums in the data region.\<close>

definition sealed :: "checksum_fn \<Rightarrow> pmb_handle \<Rightarrow> u64 \<Rightarrow> bool" where
  "sealed uc s i \<longleftrightarrow> fst (uc (mem s) (blk_ptr s i)
     (32 + unat (max_key_len s) + unat (h_val_len (blk_hdr s i))) (blk_ptr s i) False)"

text \<open>What \<open>tx_slot_meta_upd_process\<close> does to the block of one entry.\<close>

definition hdr_updated :: "checksum_fn \<Rightarrow> pmb_handle \<Rightarrow> pmb_handle \<Rightarrow> u64 \<Rightarrow> u32 \<times> u32 \<Rightarrow> bool" where
  "hdr_updated uc s s' i x \<longleftrightarrow> h_version (blk_hdr s' i) = fst x \<and> h_val_len (blk_hdr s' i) = snd x \<and>
     h_key_len (blk_hdr s' i) = h_key_len (blk_hdr s i) \<and> h_id (blk_hdr s' i) = h_id (blk_hdr s i) \<and>
     sealed uc s' i \<and> same_on (blk_ptr s i + 32) (block_len (bck s) i - 32) (mem s') (mem s)"

lemma meta_upd_apply_ok:
  assumes ck: "checksum_spec uc ck" and i: "block_ok (bck s) (tm_id m)"
  shows "\<exists>s'. meta_upd_apply uc m s = Inr s' \<and> s' = s\<lparr>mem := mem s'\<rparr> \<and>
    only (blk_ptr s (tm_id m)) (block_len (bck s) (tm_id m)) (mem s) (mem s') \<and>
    hdr_updated uc s s' (tm_id m) (tm_version m, tm_val_len m)"
proof -
  let ?p = "blk_ptr s (tm_id m)"
  note p = bs.direct_not_null [OF i] bs.extent_header [OF i]
  define m1 where "m1 = set_val_len (set_version (mem s) ?p (tm_version m)) ?p (tm_val_len m)"
  define c where "c = ck (range_without m1 ?p (32 + unat (max_key_len s) + unat (h_val_len (hdr_at m1 ?p))) ?p)"
  let ?s' = "s\<lparr>mem := st_u64 m1 ?p c\<rparr>"
  have "meta_upd_apply uc m s = Inr ?s'"
    using p(1) by (simp add: meta_upd_apply_def Let_def checksum_insert [OF ck] sizeof_pmb_data_hdr_def
        flip: m1_def c_def)
  moreover have "only ?p (block_len (bck s) (tm_id m)) (mem s) (mem ?s')"
    using p(2) by (simp add: m1_def set_val_len_def set_version_def only_after)
  moreover have "same_on (?p + 32) (block_len (bck s) (tm_id m) - 32) (mem ?s') (mem s)"
    by (simp add: same_on_def m1_def set_val_len_def set_version_def f32.put_outside f64.put_outside)
  moreover have "h_val_len (hdr_at (st_u64 m1 ?p c) ?p) = h_val_len (hdr_at m1 ?p)"
    by (simp add: hdr_at_def)
  then have "sealed uc ?s' (tm_id m)"
    by (simp add: sealed_def checksum_verify [OF ck] c_def)
  ultimately show ?thesis
    by (simp add: hdr_updated_def) (simp add: m1_def hdr_defs)
qed

lemma sealed_cong:
  assumes ck: "checksum_spec uc ck" and i: "block_ok (bck s) i"
    and fit: "32 + unat (max_key_len s) + unat (h_val_len (blk_hdr s i)) \<le> block_len (bck s) i"
    and same: "same_on (blk_ptr s i) (block_len (bck s) i) (mem s') (mem s)"
    and conf: "bck s' = bck s" "max_key_len s' = max_key_len s"
  shows "sealed uc s' i = sealed uc s i"
proof -
  let ?p = "blk_ptr s i"
  have hdr: "hdr_at (mem s') ?p = blk_hdr s i"
    using hdr_same_block [OF i same] .
  have "ld_u64 (mem s') ?p = ld_u64 (mem s) ?p"
    using hdr by (simp add: hdr_at_def)
  moreover have "range_without (mem s') ?p (32 + unat (max_key_len s) + unat (h_val_len (blk_hdr s i))) ?p =
      range_without (mem s) ?p (32 + unat (max_key_len s) + unat (h_val_len (blk_hdr s i))) ?p"
    using same by (rule range_without_cong [OF same_on_sub]) (use fit in auto)
  ultimately show ?thesis
    by (simp add: sealed_def checksum_verify [OF ck] conf hdr)
qed

lemma hdr_updated_later:
  assumes ck: "checksum_spec uc ck" and i: "block_ok (bck s) i"
    and fit: "32 + unat (max_key_len s) + unat (snd x) \<le> block_len (bck s) i"
    and conf: "bck s1 = bck s" "max_key_len s1 = max_key_len s" "bck s' = bck s" "max_key_len s' = max_key_len s"
    and same: "same_on (blk_ptr s i) (block_len (bck s) i) (mem s') (mem s1)"
    and h: "hdr_updated uc s s1 i x"
  shows "hdr_updated uc s s' i x"
proof -
  have hdr: "blk_hdr s' i = blk_hdr s1 i"
    using hdr_same_block [of s1 i "mem s'"] i same conf by simp
  have "sealed uc s' i = sealed uc s1 i"
    using i fit same conf h by (intro sealed_cong [OF ck]) (simp_all add: hdr_updated_def)
  moreover have "same_on (blk_ptr s i + 32) (block_len (bck s) i - 32) (mem s') (mem s1)"
    using same by (rule same_on_sub) (use bs.extent_header [OF i] in auto)
  ultimately show ?thesis
    using h hdr by (auto simp: hdr_updated_def intro: same_on_trans)
qed

lemma hdr_updated_earlier:
  assumes i: "block_ok (bck s) i" and conf: "bck s1 = bck s"
    and same: "same_on (blk_ptr s i) (block_len (bck s) i) (mem s1) (mem s)"
    and h: "hdr_updated uc s1 s' i x"
  shows "hdr_updated uc s s' i x"
proof -
  have "blk_hdr s1 i = blk_hdr s i"
    using hdr_same_block [of s i "mem s1"] i same conf by simp
  moreover have "same_on (blk_ptr s i + 32) (block_len (bck s) i - 32) (mem s1) (mem s)"
    using same by (rule same_on_sub) (use bs.extent_header [OF i] in auto)
  ultimately show ?thesis
    using h conf by (auto simp: hdr_updated_def intro: same_on_trans)
qed

lemma meta_upd_apply_all_ok:
  assumes ck: "checksum_spec uc ck" and "distinct (map tm_id ms)"
    and "\<forall>m\<in>set ms. block_ok (bck s) (tm_id m) \<and>
      32 + unat (max_key_len s) + unat (tm_val_len m) \<le> block_len (bck s) (tm_id m)"
  shows "\<exists>s'. meta_upd_apply_all uc ms s = Inr s' \<and> s' = s\<lparr>mem := mem s'\<rparr> \<and>
    (\<forall>j. block_ok (bck s) j \<and> j \<notin> tm_id ` set ms \<longrightarrow>
      same_on (blk_ptr s j) (block_len (bck s) j) (mem s') (mem s)) \<and>
    (\<forall>k. slot_ok (bck s) k \<longrightarrow> same_on (backend_tx_direct (Some (bck s)) k) (slot_cap s) (mem s') (mem s)) \<and>
    (\<forall>m\<in>set ms. hdr_updated uc s s' (tm_id m) (tm_version m, tm_val_len m))"
  using assms(2,3)
proof (induction ms arbitrary: s)
  case Nil
  then show ?case
    by simp
next
  case (Cons m ms)
  have i: "block_ok (bck s) (tm_id m)"
    and fit: "32 + unat (max_key_len s) + unat (tm_val_len m) \<le> block_len (bck s) (tm_id m)"
    using Cons.prems by auto
  obtain s1 where s1: "meta_upd_apply uc m s = Inr s1" "s1 = s\<lparr>mem := mem s1\<rparr>"
      "only (blk_ptr s (tm_id m)) (block_len (bck s) (tm_id m)) (mem s) (mem s1)"
      "hdr_updated uc s s1 (tm_id m) (tm_version m, tm_val_len m)"
    using meta_upd_apply_ok [OF ck i] by blast
  have conf: "bck s1 = bck s" "max_key_len s1 = max_key_len s"
    by (subst s1(2), simp)+
  have out: "same_on q n (mem s1) (mem s)" if "apart (blk_ptr s (tm_id m)) (block_len (bck s) (tm_id m)) q n" for q n
    using s1(3) that by (rule only_apart)
  have "\<exists>s'. meta_upd_apply_all uc ms s1 = Inr s' \<and> s' = s1\<lparr>mem := mem s'\<rparr> \<and>
    (\<forall>j. block_ok (bck s1) j \<and> j \<notin> tm_id ` set ms \<longrightarrow>
      same_on (blk_ptr s1 j) (block_len (bck s1) j) (mem s') (mem s1)) \<and>
    (\<forall>k. slot_ok (bck s1) k \<longrightarrow> same_on (backend_tx_direct (Some (bck s1)) k) (slot_cap s1) (mem s') (mem s1)) \<and>
    (\<forall>m\<in>set ms. hdr_updated uc s1 s' (tm_id m) (tm_version m, tm_val_len m))"
    using Cons.prems conf by (intro Cons.IH) auto
  then obtain s' where s': "meta_upd_apply_all uc ms s1 = Inr s'" "s' = s1\<lparr>mem := mem s'\<rparr>"
      "\<And>j. block_ok (bck s) j \<Longrightarrow> j \<notin> tm_id ` set ms \<Longrightarrow> same_on (blk_ptr s j) (block_len (bck s) j) (mem s') (mem s1)"
      "\<And>k. slot_ok (bck s) k \<Longrightarrow> same_on (backend_tx_direct (Some (bck s)) k) (slot_cap s) (mem s') (mem s1)"
      "\<And>m. m \<in> set ms \<Longrightarrow> hdr_updated uc s1 s' (tm_id m) (tm_version m, tm_val_len m)"
    unfolding conf by blast
  have conf': "bck s' = bck s" "max_key_len s' = max_key_len s"
    using conf by (subst s'(2), simp)+
  have same1: "same_on (blk_ptr s j) (block_len (bck s) j) (mem s1) (mem s)"
    if "block_ok (bck s) j" "j \<noteq> tm_id m" for j
    using bs.other_block_same [OF i that(1) that(2) [symmetric] out] .
  have "s' = s\<lparr>mem := mem s'\<rparr>"
    by (subst s'(2), subst s1(2)) simp
  moreover have "same_on (blk_ptr s j) (block_len (bck s) j) (mem s') (mem s)"
    if "block_ok (bck s) j" "j \<notin> tm_id ` set (m # ms)" for j
    using s'(3) [of j] same1 [of j] that by (auto intro: same_on_trans)
  moreover have "same_on (backend_tx_direct (Some (bck s)) k) (slot_cap s) (mem s') (mem s)" if "slot_ok (bck s) k" for k
    using s'(4) [OF that] bs.slot_same [OF i that out] by (rule same_on_trans)
  moreover have "hdr_updated uc s s' (tm_id m) (tm_version m, tm_val_len m)"
  proof (rule hdr_updated_later [OF ck i _ conf conf'])
    show "same_on (blk_ptr s (tm_id m)) (block_len (bck s) (tm_id m)) (mem s') (mem s1)"
      using Cons.prems(1) by (intro s'(3) i) simp
  qed (use fit s1(4) in simp_all)
  moreover have "hdr_updated uc s s' (tm_id n) (tm_version n, tm_val_len n)" if "n \<in> set ms" for n
  proof (rule hdr_updated_earlier [OF _ conf(1) same1 s'(5) [OF that]])
    show "block_ok (bck s) (tm_id n)" "block_ok (bck s) (tm_id n)"
      using Cons.prems(2) that by auto
    have "tm_id m \<notin> tm_id ` set ms"
      using Cons.prems(1) by simp
    then show "tm_id n \<noteq> tm_id m"
      using imageI [OF that, of tm_id] by metis
  qed
  ultimately show ?case
    using s1(1) s'(1) by auto
qed

section \<open>Executing a slot\<close>

text \<open>
  A list of pending updates with no entry in use: as \<open>tx_log_init\<close> leaves it, with whatever
  \<open>malloc\<close> returned in the entries (\<open>ml_rest\<close>), and with every entry free, as the code takes for granted
  when it adds an update (\<open>ml_idle\<close>).
\<close>

definition ml_rest :: "tx_metalist \<Rightarrow> bool" where
  "ml_rest ml \<longleftrightarrow> length (ml_list ml) = 128 \<and> ml_count ml = 0"

definition ml_idle :: "tx_metalist \<Rightarrow> bool" where
  "ml_idle ml \<longleftrightarrow> ml_ok ml \<and> ml_count ml = 0"

lemma ml_idle_rest: "ml_idle ml \<Longrightarrow> ml_rest ml"
  by (simp add: ml_idle_def ml_rest_def ml_ok_def)

lemma block_len_32: "block_len b i < 4294967296"
  using unat_lt_32 [of "b_bsize b"] unat_lt_32 [of "b_meta_bsize b"] by (simp add: block_len_def)

lemma rec_bump_fits:
  assumes "\<forall>r\<in>set rs. rec_ok s r" and "32 + unat (max_key_len s) + unat (snd x) \<le> block_len (bck s) j"
  shows "32 + unat (max_key_len s) + unat (snd (fold (rec_bump j) rs x)) \<le> block_len (bck s) j"
  using assms
proof (induction rs arbitrary: x)
  case (Cons r rs)
  have "32 + unat (max_key_len s) + unat (snd (rec_bump j r x)) \<le> block_len (bck s) j"
  proof (cases r)
    case (LInplace i off bs)
    have "unat (off + of_nat (length bs)) = (unat off + length bs) mod 4294967296"
      by (simp add: unat_word_ariths unsigned_of_nat take_bit_eq_mod mod_simps)
    then have "unat (off + of_nat (length bs)) \<le> unat off + length bs"
      by simp
    then show ?thesis
      using Cons.prems LInplace by (auto simp: bump_def split: prod.splits)
  qed (use Cons.prems in auto)
  then show ?case
    using Cons by simp
qed simp

lemma tx_slot_meta_upd_process_ok:
  assumes ck: "checksum_spec uc ck" and t: "unat t < length (upd_id_list (op_log s))" and ok: "ml_ok (slot_ml s t)"
    and fit: "\<And>i x. pend (slot_ml s t) i = Some x \<Longrightarrow>
      block_ok (bck s) i \<and> 32 + unat (max_key_len s) + unat (snd x) \<le> block_len (bck s) i"
  shows "\<exists>s'. tx_slot_meta_upd_process uc t s = Inr s' \<and> conf_eq s s' \<and>
    free_list s' = free_list s \<and> meta_free_list s' = meta_free_list s \<and>
    ml_changed t s s' \<and> ml_idle (slot_ml s' t) \<and>
    (\<forall>j. block_ok (bck s) j \<and> pend (slot_ml s t) j = None \<longrightarrow>
      same_on (blk_ptr s j) (block_len (bck s) j) (mem s') (mem s)) \<and>
    (\<forall>k. slot_ok (bck s) k \<longrightarrow> same_on (backend_tx_direct (Some (bck s)) k) (slot_cap s) (mem s') (mem s)) \<and>
    (\<forall>i x. pend (slot_ml s t) i = Some x \<longrightarrow> hdr_updated uc s s' i x)"
proof -
  let ?ml = "slot_ml s t"
  let ?ms = "take (ml_count ?ml) (ml_list ?ml)"
  have len: "length (ml_list ?ml) = 128" "ml_count ?ml \<le> 128"
    and z: "\<forall>m\<in>set (drop (ml_count ?ml) (ml_list ?ml)). tm_id m = 0" and dis: "distinct (map tm_id ?ms)"
    using ok by (simp_all add: ml_ok_def)
  have in_pend: "pend ?ml (tm_id m) = Some (tm_version m, tm_val_len m)" if m: "m \<in> set ?ms" for m
  proof -
    obtain x where "x < length ?ms" "?ms ! x = m"
      using m unfolding in_set_conv_nth by blast
    then have "x < ml_count ?ml" "m = ml_list ?ml ! x"
      using len by simp_all
    then show ?thesis
      using pend_nth [OF ok] by simp
  qed
  have "\<forall>m\<in>set ?ms. block_ok (bck s) (tm_id m) \<and>
      32 + unat (max_key_len s) + unat (tm_val_len m) \<le> block_len (bck s) (tm_id m)"
    using fit in_pend by fastforce
  from meta_upd_apply_all_ok [OF ck dis this] obtain s1 where
    s1: "meta_upd_apply_all uc ?ms s = Inr s1" "s1 = s\<lparr>mem := mem s1\<rparr>"
      "\<And>j. block_ok (bck s) j \<Longrightarrow> j \<notin> tm_id ` set ?ms \<Longrightarrow> same_on (blk_ptr s j) (block_len (bck s) j) (mem s1) (mem s)"
      "\<And>k. slot_ok (bck s) k \<Longrightarrow> same_on (backend_tx_direct (Some (bck s)) k) (slot_cap s) (mem s1) (mem s)"
      "\<And>m. m \<in> set ?ms \<Longrightarrow> hdr_updated uc s s1 (tm_id m) (tm_version m, tm_val_len m)"
    by blast
  define ml' where "ml' = \<lparr>ml_count = 0, ml_list = replicate (ml_count ?ml) zero_meta @ drop (ml_count ?ml) (ml_list ?ml)\<rparr>"
  define s' where "s' = s1\<lparr>op_log := (op_log s)\<lparr>upd_id_list := (upd_id_list (op_log s))[unat t := ml']\<rparr>\<rparr>"
  have op: "op_log s1 = op_log s"
    by (subst s1(2)) simp
  have "tx_slot_meta_upd_process uc t s = Inr s'"
    using t len s1(1) op by (simp add: tx_slot_meta_upd_process_def Let_def s'_def ml'_def)
  moreover have "conf_eq s s'" "free_list s' = free_list s" "meta_free_list s' = meta_free_list s"
    unfolding s'_def by (subst s1(2), simp add: conf_eq_def)+
  moreover have "ml_changed t s s'"
    by (simp add: ml_changed_def s'_def)
  moreover have "ml_idle (slot_ml s' t)"
    using t len z by (auto simp: s'_def ml'_def ml_idle_def ml_ok_def zero_meta_def)
  moreover have "mem s' = mem s1" "\<And>i x. hdr_updated uc s s' i x = hdr_updated uc s s1 i x"
    by (simp_all add: s'_def hdr_updated_def sealed_def)
  moreover have "hdr_updated uc s s1 i x" if "pend ?ml i = Some x" for i x
  proof -
    have "i \<in> tm_id ` set ?ms"
      using that pend_dom [of ?ml] by (metis domI)
    then obtain m where m: "m \<in> set ?ms" "i = tm_id m"
      by blast
    then have "x = (tm_version m, tm_val_len m)"
      using in_pend that by simp
    then show ?thesis
      using s1(5) [OF m(1)] m(2) by simp
  qed
  moreover have "j \<notin> tm_id ` set ?ms" if "pend ?ml j = None" for j
    using that pend_dom [of ?ml] by (metis domIff)
  ultimately show ?thesis
    using s1(3,4) by auto
qed

text \<open>
  Everything a successful \<open>tx_slot_execute\<close> does, for a slot whose records name blocks of the
  store and do not update in place what they also release.
\<close>

definition exec_ready :: "pmb_handle \<Rightarrow> u64 \<Rightarrow> log_rec list \<Rightarrow> bool" where
  "exec_ready s k rs \<longleftrightarrow> tx_holds s k COMMITED rs \<and> (\<forall>r\<in>set rs. rec_ok s r) \<and>
     inplace_ids rs \<inter> released_ids rs = {} \<and> card (inplace_ids rs) \<le> 128 \<and>
     (\<forall>i\<in>inplace_ids rs. 32 + unat (max_key_len s) + unat (h_val_len (blk_hdr s i)) \<le> block_len (bck s) i) \<and>
     unat k \<le> length (upd_id_list (op_log s)) \<and> ml_rest (upd_id_list (op_log s) ! (unat k - 1)) \<and>
     (inplace_ids rs \<noteq> {} \<longrightarrow> ml_idle (upd_id_list (op_log s) ! (unat k - 1))) \<and>
     list_wf (free_list s) \<and> list_wf (meta_free_list s)"

lemma exec_readyD:
  assumes "exec_ready s k rs"
  shows "tx_holds s k COMMITED rs" and "\<forall>r\<in>set rs. rec_ok s r" and "inplace_ids rs \<inter> released_ids rs = {}" and "card (inplace_ids rs) \<le> 128"
    and "\<forall>i\<in>inplace_ids rs. 32 + unat (max_key_len s) + unat (h_val_len (blk_hdr s i)) \<le> block_len (bck s) i"
    and "unat k \<le> length (upd_id_list (op_log s))" and "ml_rest (upd_id_list (op_log s) ! (unat k - 1))"
    and "inplace_ids rs \<noteq> {} \<longrightarrow> ml_idle (upd_id_list (op_log s) ! (unat k - 1))"
    and "list_wf (free_list s)" and "list_wf (meta_free_list s)" and "tx_ok s k"
proof -
  note r = assms [unfolded exec_ready_def]
  show "tx_holds s k COMMITED rs" "\<forall>r\<in>set rs. rec_ok s r" "inplace_ids rs \<inter> released_ids rs = {}" "card (inplace_ids rs) \<le> 128"
    "\<forall>i\<in>inplace_ids rs. 32 + unat (max_key_len s) + unat (h_val_len (blk_hdr s i)) \<le> block_len (bck s) i"
    "unat k \<le> length (upd_id_list (op_log s))" "ml_rest (upd_id_list (op_log s) ! (unat k - 1))"
    "inplace_ids rs \<noteq> {} \<longrightarrow> ml_idle (upd_id_list (op_log s) ! (unat k - 1))" "list_wf (free_list s)" "list_wf (meta_free_list s)"
    using r by - (elim conjE, assumption)+
  then show "tx_ok s k"
    by (simp add: tx_holds_def)
qed

text \<open>The records and the pending updates they leave: with updates in place the list has to be clean.\<close>

abbreviation hdr_pair :: "pmb_handle \<Rightarrow> u64 \<Rightarrow> u32 \<times> u32" where
  "hdr_pair s j \<equiv> (h_version (blk_hdr s j), h_val_len (blk_hdr s j))"

definition executed :: "checksum_fn \<Rightarrow> u8 \<Rightarrow> log_rec list \<Rightarrow> pmb_handle \<Rightarrow> pmb_handle \<Rightarrow> pmb_handle \<Rightarrow> bool" where
  "executed uc t rs s s1 s2 \<longleftrightarrow> exec_recs t rs s = Inr s1 \<and> tx_slot_meta_upd_process uc t s1 = Inr s2 \<and>
     ml_changed t s s2 \<and> conf_eq s1 s2 \<and> free_list s2 = free_list s1 \<and> meta_free_list s2 = meta_free_list s1 \<and>
     ml_rest (slot_ml s2 t) \<and> (ml_idle (slot_ml s t) \<longrightarrow> ml_idle (slot_ml s2 t)) \<and>
     (\<forall>j. block_ok (bck s) j \<and> j \<notin> inplace_ids rs \<longrightarrow> same_on (blk_ptr s j) (block_len (bck s) j) (mem s2) (mem s1)) \<and>
     (\<forall>j\<in>inplace_ids rs. hdr_updated uc s1 s2 j (fold (rec_bump j) rs (hdr_pair s j))) \<and> slots_kept s1 {} s2"

lemma list_update_id': "xs ! i = x \<Longrightarrow> xs[i := x] = xs"
  by auto

lemma executed_plain:
  assumes "inplace_ids rs = {}" and t: "unat t < length (upd_id_list (op_log s))" and rest: "ml_rest (slot_ml s t)"
  obtains s1 where "executed uc t rs s s1 s1"
proof -
  have "\<exists>s1. exec_recs t rs s = Inr s1 \<and> op_log s1 = op_log s"
    using assms(1)
  proof (induction rs arbitrary: s)
    case (Cons r rs)
    then have r: "inplaced r = {}" "inplace_ids rs = {}"
      by simp_all
    then obtain s2 where "exec_rec t r s = Inr s2" "op_log s2 = op_log s"
      by (cases r) simp_all
    then show ?case
      using Cons.IH [OF r(2), of s2] by auto
  qed simp
  then obtain s1 where s1: "exec_recs t rs s = Inr s1" "op_log s1 = op_log s"
    by blast
  obtain ms where ms: "slot_ml s t = \<lparr>ml_count = 0, ml_list = ms\<rparr>"
    using rest by (cases "slot_ml s t") (simp add: ml_rest_def)
  have "(upd_id_list (op_log s1))[unat t := \<lparr>ml_count = 0, ml_list = ms\<rparr>] = upd_id_list (op_log s1)"
    unfolding s1(2) using ms by (rule list_update_id')
  then have "tx_slot_meta_upd_process uc t s1 = Inr s1"
    using t ms by (simp add: tx_slot_meta_upd_process_def Let_def s1(2))
  then have "executed uc t rs s s1 s1"
    using s1 rest assms(1) by (simp add: executed_def ml_changed_def slots_kept_def)
  then show ?thesis
    by (rule that)
qed

lemma executed_clean:
  assumes ck: "checksum_spec uc ck" and rs: "\<forall>r\<in>set rs. rec_ok s r" and dis: "inplace_ids rs \<inter> released_ids rs = {}"
    and card: "card (inplace_ids rs) \<le> 128"
    and fit: "\<And>i. i \<in> inplace_ids rs \<Longrightarrow> 32 + unat (max_key_len s) + unat (h_val_len (blk_hdr s i)) \<le> block_len (bck s) i"
    and len: "unat t < length (upd_id_list (op_log s))" and idle: "ml_idle (slot_ml s t)"
  obtains s1 s2 where "executed uc t rs s s1 s2"
proof -
  have pe: "pend (slot_ml s t) = (\<lambda>_. None)" and mok: "ml_ok (slot_ml s t)"
    using idle by (simp_all add: ml_idle_def pend_def fun_eq_iff)
  obtain s1 where s1: "exec_recs t rs s = Inr s1" "ml_changed t s s1" "ml_ok (slot_ml s1 t)"
    "pend (slot_ml s1 t) = (\<lambda>j. if j \<in> inplace_ids rs then Some (fold (rec_bump j) rs (pend_or_hdr s t j)) else None)"
    using exec_recs_pend [OF rs len mok, unfolded pe] dis card by auto
  have c1: "conf_eq s s1"
    using s1(1) rs by (rule exec_recs_conf)
  have ph: "pend_or_hdr s t j = hdr_pair s j" for j
    by (simp add: pend_or_hdr_def pe)
  have fit1: "block_ok (bck s1) i \<and> 32 + unat (max_key_len s1) + unat (snd x) \<le> block_len (bck s1) i"
    if "pend (slot_ml s1 t) i = Some x" for i x
  proof -
    have i: "i \<in> inplace_ids rs" and x: "x = fold (rec_bump i) rs (hdr_pair s i)"
      using that by (auto simp: s1(4) ph split: if_splits)
    have "block_ok (bck s) i"
      using i rs rec_ok_inplaced by blast
    then show ?thesis
      using rec_bump_fits [OF rs, of "hdr_pair s i" i] fit [OF i] c1
      by (simp add: x conf_eq_bck)
  qed
  have len1: "unat t < length (upd_id_list (op_log s1))"
    using len s1(2) by (simp add: ml_changed_def)
  obtain s2 where s2: "tx_slot_meta_upd_process uc t s1 = Inr s2" "conf_eq s1 s2"
      "free_list s2 = free_list s1" "meta_free_list s2 = meta_free_list s1" "ml_changed t s1 s2" "ml_idle (slot_ml s2 t)"
      "\<And>j. block_ok (bck s1) j \<Longrightarrow> pend (slot_ml s1 t) j = None \<Longrightarrow>
        same_on (blk_ptr s1 j) (block_len (bck s1) j) (mem s2) (mem s1)"
      "\<And>i x. pend (slot_ml s1 t) i = Some x \<Longrightarrow> hdr_updated uc s1 s2 i x" "slots_kept s1 {} s2"
    using tx_slot_meta_upd_process_ok [OF ck len1 s1(3) fit1] unfolding slots_kept_def by blast
  have "hdr_updated uc s1 s2 j (fold (rec_bump j) rs (hdr_pair s j))" if "j \<in> inplace_ids rs" for j
    using s2(8) [of j] that by (simp add: s1(4) ph)
  moreover have "same_on (blk_ptr s j) (block_len (bck s) j) (mem s2) (mem s1)"
    if "block_ok (bck s) j" "j \<notin> inplace_ids rs" for j
    using s2(7) [of j] that c1 by (simp add: s1(4) conf_eq_bck)
  ultimately have "executed uc t rs s s1 s2"
    using s1(1,2) s2(1-6,9) ml_idle_rest by (auto simp: executed_def ml_changed_def)
  then show ?thesis
    by (rule that)
qed

lemma tx_slot_execute_effect:
  assumes ck: "checksum_spec uc ck" and ready: "exec_ready s k rs"
  obtains s1 s2 s' where "tx_slot_execute uc s k = Inr (PMB_OK, s')"
    "exec_recs (ucast (k - 1)) rs s = Inr s1" "conf_eq s1 s2" "conf_eq s s'"
    "lists_grow s {i \<in> released_ids rs. present s i} s'"
    "ml_changed (ucast (k - 1)) s s'" "ml_rest (slot_ml s' (ucast (k - 1)))"
    "ml_idle (slot_ml s (ucast (k - 1))) \<longrightarrow> ml_idle (slot_ml s' (ucast (k - 1)))"
    "\<And>j. block_ok (bck s) j \<Longrightarrow> j \<notin> inplace_ids rs \<Longrightarrow>
      same_on (blk_ptr s j) (block_len (bck s) j) (mem s2) (mem s1)"
    "\<And>j. j \<in> inplace_ids rs \<Longrightarrow> hdr_updated uc s1 s2 j
      (fold (rec_bump j) rs (hdr_pair s j))"
    "mem s' = memset (mem s2) (tx_slot_ptr s k) 0 12" "slot_kept s k s'"
proof -
  let ?t = "ucast (k - 1) :: u8" and ?p = "tx_slot_ptr s k"
  have h: "tx_holds s k COMMITED rs" and rs: "\<forall>r\<in>set rs. rec_ok s r" and dis: "inplace_ids rs \<inter> released_ids rs = {}"
    and card: "card (inplace_ids rs) \<le> 128" and wf: "list_wf (free_list s)" "list_wf (meta_free_list s)"
    and fit: "\<And>i. i \<in> inplace_ids rs \<Longrightarrow> 32 + unat (max_key_len s) + unat (h_val_len (blk_hdr s i)) \<le> block_len (bck s) i"
    using exec_readyD(1-5,9,10) [OF ready] by (assumption | blast)+
  have ok: "tx_ok s k" and sh: "slot_holds (mem s) ?p (slot_cap s) COMMITED rs"
    using h by (simp_all add: tx_holds_def)
  note t = tx_index [OF ok] and bnd = tx_slot_bounds [OF ok]
  have p: "?p = backend_tx_direct (Some (bck s)) ?t"
    by (simp add: tx_slot_ptr_def)
  have "unat k \<le> length (upd_id_list (op_log s))"
    by (rule exec_readyD(6) [OF ready])
  then have len: "unat ?t < length (upd_id_list (op_log s))"
    using t(1,3) by linarith
  have ml: "ml_rest (slot_ml s ?t)" "inplace_ids rs \<noteq> {} \<longrightarrow> ml_idle (slot_ml s ?t)"
    using exec_readyD(7,8) [OF ready] by (simp_all add: t(1))
  obtain s1 s2 where ex: "executed uc ?t rs s s1 s2"
  proof (cases "inplace_ids rs = {}")
    case True
    then show ?thesis
      using executed_plain [OF True len ml(1)] that by blast
  next
    case False
    then show ?thesis
      using executed_clean [OF ck rs dis card fit len] ml(2) that by blast
  qed
  then have s1: "exec_recs ?t rs s = Inr s1" and s2: "tx_slot_meta_upd_process uc ?t s1 = Inr s2" "conf_eq s1 s2"
      "free_list s2 = free_list s1" "meta_free_list s2 = meta_free_list s1" "ml_changed ?t s s2" "ml_rest (slot_ml s2 ?t)"
      "ml_idle (slot_ml s ?t) \<longrightarrow> ml_idle (slot_ml s2 ?t)"
      "\<And>j. block_ok (bck s) j \<Longrightarrow> j \<notin> inplace_ids rs \<Longrightarrow> same_on (blk_ptr s j) (block_len (bck s) j) (mem s2) (mem s1)"
      "\<And>j. j \<in> inplace_ids rs \<Longrightarrow> hdr_updated uc s1 s2 j (fold (rec_bump j) rs (hdr_pair s j))" "slots_kept s1 {} s2"
    unfolding executed_def by blast+
  have c1: "conf_eq s s1"
    using s1 rs by (rule exec_recs_conf)
  have b2: "bck s2 = bck s"
    using c1 s2(2) by (simp add: conf_eq_def)
  obtain l where z: "snd (backend_tx_set_zero (Some (bck s)) ?p s2) = s2\<lparr>mem := memset (mem s2) ?p 0 12, plog := l\<rparr>"
    using backend_tx_set_zero_mem [OF bnd(1), of "bck s" s2] by blast
  let ?s' = "s2\<lparr>mem := memset (mem s2) ?p 0 12, plog := l\<rparr>"
  have "tx_execute_loop ?t (?p + slot_size s k) (?p + 24) s = exec_recs ?t rs s"
  proof (rule tx_execute_loop_recs [OF _ rs t(2)])
    show "log_ok (mem s) (?p + 24) (?p + slot_size s k) rs"
      using sh by (simp add: slot_holds_def)
    show "backend_tx_direct (Some (bck s)) ?t \<le> ?p + 24"
      by (simp add: p)
    show "?p + slot_size s k \<le> backend_tx_direct (Some (bck s)) ?t + slot_cap s"
      using sh by (simp add: slot_holds_def p)
  qed
  then have "tx_slot_execute uc s k = Inr (PMB_OK, ?s')"
    using bnd(1) tx_holds_status [OF h] entry_ptr [OF h] s1 s2(1) z b2
    by (simp add: tx_slot_execute_def Let_def sizeof_tx_slot_def flip: p)
  moreover have "lists_grow s {i \<in> released_ids rs. present s i} ?s'"
    using exec_recs_grow [OF s1 rs] wf s2(3,4) by (simp add: lists_grow_def)
  moreover have "conf_eq s ?s'" "ml_changed ?t s ?s'"
    using c1 s2(2,5) by (auto simp: conf_eq_def ml_changed_def)
  moreover have "slot_kept s k ?s'"
  proof -
    have "tx_ok s2 k" "only (tx_slot_ptr s2 k) (slot_cap s2) (mem s2) (mem ?s')"
      using ok c1 s2(2) bnd(2) by (auto simp: conf_eq_def tx_ok_def tx_slot_ptr_def intro: only_memset)
    moreover have "slots_kept s {} s2"
      using exec_recs_slots [OF s1 rs] s2(10) conf_eq_bck(1) [OF c1] by (rule slots_kept_trans)
    ultimately show ?thesis
      using slots_kept_trans [OF slots_kept_mono slot_change_kept] b2 by blast
  qed
  ultimately show ?thesis
    using s1 s2(2,6-9) by (intro that [of ?s' s1 s2]) simp_all
qed

fun rec_end :: "u64 \<Rightarrow> log_rec \<Rightarrow> nat \<Rightarrow> nat" where
  "rec_end j (LInplace i off bs) e = (if i = j then max e (unat off + length bs) else e)"
| "rec_end j r e = e"

lemma fold_rec_bump:
  assumes "\<forall>r\<in>set rs. rec_ok s r"
  shows "fst (fold (rec_bump j) rs (v, l)) = v + of_nat (length (filter (\<lambda>r. j \<in> inplaced r) rs))"
    and "unat (snd (fold (rec_bump j) rs (v, l))) = fold (rec_end j) rs (unat l)"
proof -
  have "fst (fold (rec_bump j) rs (v, l)) = v + of_nat (length (filter (\<lambda>r. j \<in> inplaced r) rs)) \<and>
    unat (snd (fold (rec_bump j) rs (v, l))) = fold (rec_end j) rs (unat l)"
    using assms
  proof (induction rs arbitrary: v l)
    case (Cons r rs)
    show ?case
    proof (cases "j \<in> inplaced r")
      case True
      then obtain off bs where r: "r = LInplace j off bs"
        by (cases r) auto
      have "unat off + length bs < 4294967296"
        using Cons.prems r block_len_32 [of "bck s" j] by auto
      then have "unat (off + of_nat (length bs)) = unat off + length bs"
        by (simp add: unat_word_ariths unsigned_of_nat take_bit_eq_mod mod_simps)
      then show ?thesis
        using Cons r by (simp add: bump_def word_less_unat max_def)
    next
      case False
      then have "rec_bump j r x = x" "rec_end j r e = e" for x e
        by (cases r; simp)+
      then show ?thesis
        using Cons False by simp
    qed
  qed simp
  then show "fst (fold (rec_bump j) rs (v, l)) = v + of_nat (length (filter (\<lambda>r. j \<in> inplaced r) rs))"
    and "unat (snd (fold (rec_bump j) rs (v, l))) = fold (rec_end j) rs (unat l)"
    by simp_all
qed

lemma slot_zeroed: "slot_at (memset m p 0 12) p = \<lparr>s_flch64 = 0, s_status = status_code EMPTY, s_size = s_size (slot_at m p)\<rparr>"
  by (simp add: slot_at_def)

section \<open>Properties\<close>

text \<open>
  The sample store with two objects, in the blocks 5 and 6, and a committed transaction in
  slot 1 that removes the first and writes four bytes at offset 2 of the second.
\<close>

definition sample_mem :: memory where
  "sample_mem =
     (let m = \<lambda>_. 0;
          m = set_val_len (set_key_len (set_version (set_id (set_flch64 m 0x18007000 77) 0x18007000 9) 0x18007000 3) 0x18007000 3) 0x18007000 8;
          m = set_val_len (set_key_len (set_version (set_id (set_flch64 m 0x18008000 78) 0x18008000 10) 0x18008000 1) 0x18008000 3) 0x18008000 5;
          m = set_slot_size (set_slot_status m 0x10002000 COMMITED) 0x10002000 76;
          m = set_entry_blk_id1 (set_entry_type m 0x10002018 REMOVE) 0x10002018 5;
          m = set_entry_blk_id2 (set_entry_blk_id1 (set_entry_type m 0x10002030 UPDINPLACE) 0x10002030 6) 0x10002030 0x400000002
      in st_bytes m 0x10002048 [1, 2, 3, 4])"

abbreviation sample_tx :: pmb_handle where
  "sample_tx \<equiv> sample_store\<lparr>mem := sample_mem\<rparr>"

lemma sample_blocks:
  "blk_ptr sample_store 5 = 0x18007000" "blk_ptr sample_store 6 = 0x18008000"
  "block_ok (bck sample_store) 5" "block_ok (bck sample_store) 6"
  "block_len (bck sample_store) 5 = 4096" "block_len (bck sample_store) 6 = 4096"
  by (simp_all add: backend_direct_def sample_store_def sample_backend_fields ptr_add_def block_ok_def
      sample_layout data_id_def block_len_def)

lemma sample_slot: "tx_holds sample_tx 1 COMMITED [LRemove 5, LInplace 6 2 [1, 2, 3, 4]]"
proof -
  have "tx_ok sample_tx 1"
    using sample_tx_ok by simp
  moreover have "rec_at sample_mem 0x10002018 = LRemove 5"
    by (simp add: rec_at_def sample_mem_def entry_defs hdr_defs slot_defs op_of_code_def Let_def)
  moreover have "rec_at sample_mem 0x10002030 = LInplace 6 2 [1, 2, 3, 4]"
    by (simp add: rec_at_def sample_mem_def entry_defs hdr_defs slot_defs op_of_code_def Let_def upd_size_def
        upd_offset_def)
  moreover have "slot_at sample_mem 0x10002000 = \<lparr>s_flch64 = 0, s_status = 2, s_size = 76\<rparr>"
    by (simp add: sample_mem_def entry_defs hdr_defs slot_defs Let_def)
  ultimately show ?thesis
    by (simp add: tx_holds_def slot_holds_def sample_ptr)
qed

lemma sample_ready: "exec_ready sample_tx 1 [LRemove 5, LInplace 6 2 [1, 2, 3, 4]]"
proof -
  have h: "hdr_at sample_mem 0x18007000 = \<lparr>h_flch64 = 77, h_id = 9, h_version = 3, h_key_len = 3, h_val_len = 8\<rparr>"
    "hdr_at sample_mem 0x18008000 = \<lparr>h_flch64 = 78, h_id = 10, h_version = 1, h_key_len = 3, h_val_len = 5\<rparr>"
    by (simp_all add: sample_mem_def entry_defs hdr_defs slot_defs Let_def)
  have "ml_idle \<lparr>ml_count = 0, ml_list = replicate 128 zero_meta\<rparr>"
    by (simp add: ml_idle_def ml_ok_def zero_meta_def)
  then have "ml_idle (upd_id_list (op_log sample_tx) ! 0)" "ml_rest (upd_id_list (op_log sample_tx) ! 0)" "length (upd_id_list (op_log sample_tx)) = 16"
      "max_key_len sample_store = 64"
    using ml_idle_rest by (simp_all add: sample_store_def)
  then show ?thesis
    using sample_slot sample_blocks sample_store_lists h by (simp add: exec_ready_def fits_def obj_len_def)
qed

text \<open>Blocks and lists after the execution of a transaction.\<close>

lemma execute_release:
  assumes ck: "checksum_spec uc ck" and ready: "exec_ready s k rs"
  shows "\<exists>s'. tx_slot_execute uc s k = Inr (PMB_OK, s') \<and> conf_eq s s' \<and> ml_changed (ucast (k - 1)) s s' \<and>
    ml_rest (slot_ml s' (ucast (k - 1))) \<and> (ml_idle (slot_ml s (ucast (k - 1))) \<longrightarrow> ml_idle (slot_ml s' (ucast (k - 1)))) \<and>
    slot_kept s k s' \<and> s_status (slot_at (mem s') (tx_slot_ptr s k)) = status_code EMPTY \<and>
    (\<forall>i. block_ok (bck s) i \<longrightarrow> i \<in> released_ids rs \<longrightarrow> \<not> present s' i) \<and>
    (\<forall>j. block_ok (bck s) j \<longrightarrow> j \<notin> released_ids rs \<union> inplace_ids rs \<longrightarrow>
      same_on (blk_ptr s j) (block_len (bck s) j) (mem s') (mem s)) \<and>
    list_wf (free_list s') \<and> list_wf (meta_free_list s') \<and>
    list_ids (free_list s') = list_ids (free_list s) \<union> {i \<in> released_ids rs. present s i \<and> i < total_objs_count s} \<and>
    list_ids (meta_free_list s') = list_ids (meta_free_list s) \<union> {i \<in> released_ids rs. present s i \<and> \<not> i < total_objs_count s}"
proof (rule tx_slot_execute_effect [OF ck ready])
  let ?p = "tx_slot_ptr s k"
  fix s1 s2 s'
  assume e: "tx_slot_execute uc s k = Inr (PMB_OK, s')" "exec_recs (ucast (k - 1)) rs s = Inr s1"
      "conf_eq s s'" "lists_grow s {i \<in> released_ids rs. present s i} s'"
      "\<And>j. block_ok (bck s) j \<Longrightarrow> j \<notin> inplace_ids rs \<Longrightarrow> same_on (blk_ptr s j) (block_len (bck s) j) (mem s2) (mem s1)"
      "ml_changed (ucast (k - 1)) s s'" "ml_rest (slot_ml s' (ucast (k - 1)))"
      "ml_idle (slot_ml s (ucast (k - 1))) \<longrightarrow> ml_idle (slot_ml s' (ucast (k - 1)))"
    and m: "mem s' = memset (mem s2) ?p 0 12" and kept: "slot_kept s k s'"
  note ok = exec_readyD(11) [OF ready] and rs = exec_readyD(2) [OF ready] and dis = exec_readyD(3) [OF ready]
  have "only ?p (slot_cap s) (mem s2) (mem s')"
    unfolding m by (rule only_memset) (use tx_slot_bounds(2) [OF ok] in auto)
  then have z: "same_on (blk_ptr s j) (block_len (bck s) j) (mem s') (mem s2)" if "block_ok (bck s) j" for j
    using bs.block_same [OF tx_index(2) [OF ok] that] only_apart by (auto simp: tx_slot_ptr_def)
  have same: "same_on (blk_ptr s j) (block_len (bck s) j) (mem s') (mem s1)"
    if "block_ok (bck s) j" "j \<notin> inplace_ids rs" for j
    using z [OF that(1)] e(5) [OF that] by (rule same_on_trans)
  have "\<not> present s' i" if i: "block_ok (bck s) i" "i \<in> released_ids rs" for i
  proof -
    have "i \<notin> inplace_ids rs"
      using i dis by blast
    have c1: "bck s1 = bck s" "bck s' = bck s"
      using exec_recs_conf [OF e(2) rs] e(3) by (simp_all add: conf_eq_bck)
    have "\<not> present s1 i"
      using exec_recs_present [OF e(2) rs] i by blast
    moreover have "blk_hdr s' i = blk_hdr s1 i"
      using hdr_same_block [of s1 i "mem s'"] same [OF i(1) \<open>i \<notin> inplace_ids rs\<close>] i(1) c1 by simp
    ultimately show ?thesis
      by (simp add: present_def)
  qed
  moreover have "same_on (blk_ptr s j) (block_len (bck s) j) (mem s') (mem s)"
    if "block_ok (bck s) j" "j \<notin> released_ids rs \<union> inplace_ids rs" for j
    using same [of j] exec_recs_same [OF e(2) rs] that by (blast intro: same_on_trans)
  ultimately show ?thesis
    using e(1,3,4,6-8) m kept slot_zeroed [of "mem s2" ?p] by (auto simp: lists_grow_def)
qed

text \<open>
  Executing a committed transaction releases exactly what it removes or replaces: the call
  succeeds, the slot becomes empty, no released object is found any more, every other block
  that the transaction does not update in place keeps all its bytes, and the released
  blocks that held an object (and no other) join the free list of their region.
\<close>

theorem tx_slot_execute_releases:
  assumes ck: "checksum_spec uc ck" and ready: "exec_ready s k rs"
  shows "\<exists>s'. tx_slot_execute uc s k = Inr (PMB_OK, s') \<and>
    s_status (slot_at (mem s') (tx_slot_ptr s k)) = status_code EMPTY \<and>
    (\<forall>i. block_ok (bck s) i \<longrightarrow> i \<in> released_ids rs \<longrightarrow> \<not> present s' i) \<and>
    (\<forall>j. block_ok (bck s) j \<longrightarrow> j \<notin> released_ids rs \<union> inplace_ids rs \<longrightarrow>
      same_on (blk_ptr s j) (block_len (bck s) j) (mem s') (mem s)) \<and>
    list_wf (free_list s') \<and> list_wf (meta_free_list s') \<and>
    list_ids (free_list s') = list_ids (free_list s) \<union> {i \<in> released_ids rs. present s i \<and> i < total_objs_count s} \<and>
    list_ids (meta_free_list s') = list_ids (meta_free_list s) \<union> {i \<in> released_ids rs. present s i \<and> \<not> i < total_objs_count s}"
  using execute_release [OF assms] by (elim exE conjE, intro exI conjI)

theorem tx_slot_execute_releases_witness:
  "\<exists>s'. tx_slot_execute sample_uc sample_tx 1 = Inr (PMB_OK, s') \<and> \<not> present s' 5 \<and>
    list_ids (free_list s') = list_ids (free_list sample_tx) \<union> {5}"
proof -
  have "hdr_at sample_mem 0x18007000 = \<lparr>h_flch64 = 77, h_id = 9, h_version = 3, h_key_len = 3, h_val_len = 8\<rparr>"
    by (simp add: sample_mem_def entry_defs hdr_defs slot_defs Let_def)
  then have "{i \<in> released_ids [LRemove 5, LInplace 6 2 [1, 2, 3, 4]]. present sample_tx i \<and> i < total_objs_count sample_tx} = {5}"
    using sample_blocks(1) by (auto simp: present_def) (simp add: sample_store_def)
  then show ?thesis
    using tx_slot_execute_releases [OF sample_checksum sample_ready] sample_blocks(3) by auto
qed

text \<open>The objects that a transaction updates in place.\<close>

lemma execute_in_place:
  assumes ck: "checksum_spec uc ck" and ready: "exec_ready s k rs" and j: "j \<in> inplace_ids rs"
  shows "\<exists>s'. tx_slot_execute uc s k = Inr (PMB_OK, s') \<and>
    val_area s' j = fold (rec_overlay j) rs (val_area s j) \<and>
    h_version (blk_hdr s' j) = h_version (blk_hdr s j) + of_nat (length (filter (\<lambda>r. j \<in> inplaced r) rs)) \<and>
    unat (h_val_len (blk_hdr s' j)) = fold (rec_end j) rs (unat (h_val_len (blk_hdr s j))) \<and>
    h_key_len (blk_hdr s' j) = h_key_len (blk_hdr s j) \<and> h_id (blk_hdr s' j) = h_id (blk_hdr s j) \<and>
    same_on (blk_ptr s j + 32) (unat (max_key_len s)) (mem s') (mem s) \<and> sealed uc s' j"
proof (rule tx_slot_execute_effect [OF ck ready])
  let ?p = "tx_slot_ptr s k" and ?x = "fold (rec_bump j) rs (h_version (blk_hdr s j), h_val_len (blk_hdr s j))"
  fix s1 s2 s'
  assume e: "tx_slot_execute uc s k = Inr (PMB_OK, s')" "exec_recs (ucast (k - 1)) rs s = Inr s1"
      "conf_eq s s'" "conf_eq s1 s2"
    and m: "mem s' = memset (mem s2) ?p 0 12"
    and upd: "\<And>j. j \<in> inplace_ids rs \<Longrightarrow> hdr_updated uc s1 s2 j
      (fold (rec_bump j) rs (h_version (blk_hdr s j), h_val_len (blk_hdr s j)))"
  note ok = exec_readyD(11) [OF ready] and rs = exec_readyD(2) [OF ready]
  have rel: "j \<notin> released_ids rs"
    and fit0: "32 + unat (max_key_len s) + unat (h_val_len (blk_hdr s j)) \<le> block_len (bck s) j"
    using exec_readyD(3,5) [OF ready] j by blast+
  have jb: "block_ok (bck s) j" and mk: "32 + unat (max_key_len s) \<le> block_len (bck s) j"
    using j rs rec_ok_inplaced by blast+
  have fit: "32 + unat (max_key_len s) + unat (snd ?x) \<le> block_len (bck s) j"
    using rec_bump_fits [OF rs] fit0 by simp
  have c: "bck s1 = bck s" "max_key_len s1 = max_key_len s" "bck s2 = bck s" "max_key_len s2 = max_key_len s"
      "bck s' = bck s" "max_key_len s' = max_key_len s"
    using exec_recs_conf [OF e(2) rs] e(3,4) by (simp_all add: conf_eq_def)
  have "only ?p (slot_cap s) (mem s2) (mem s')"
    unfolding m by (rule only_memset) (use tx_slot_bounds(2) [OF ok] in auto)
  then have z: "same_on (blk_ptr s j) (block_len (bck s) j) (mem s') (mem s2)"
    using bs.block_same [OF tx_index(2) [OF ok] jb] only_apart by (auto simp: tx_slot_ptr_def)
  then have "same_on (blk_ptr s1 j) (block_len (bck s1) j) (mem s') (mem s2)"
    by (simp add: c)
  then have h: "hdr_updated uc s1 s' j ?x"
    using jb fit upd [OF j] c by (intro hdr_updated_later [OF ck, of s1 j ?x s2 s']) simp_all
  have head: "same_on (blk_ptr s j) (32 + unat (max_key_len s)) (mem s1) (mem s)"
    and area: "val_area s1 j = fold (rec_overlay j) rs (val_area s j)"
    using exec_recs_head [OF e(2) rs] jb rel mk by blast+
  have rest: "same_on (blk_ptr s j + 32) (block_len (bck s) j - 32) (mem s') (mem s1)"
    using h c by (simp add: hdr_updated_def)
  have "val_area s' j = val_area s1 j"
    unfolding val_area_def c by (intro ld_bytes_cong same_on_sub [OF rest]) (use mk in auto)
  moreover have "same_on (blk_ptr s j + 32) (unat (max_key_len s)) (mem s') (mem s)"
    by (rule same_on_trans [OF same_on_sub [OF rest] same_on_sub [OF head]]) (use mk in auto)
  moreover have "blk_hdr s1 j = blk_hdr s j"
    using hdr_at_cong [OF same_on_sub [OF head]] by (simp add: c)
  ultimately show ?thesis
    using e(1) h area fold_rec_bump [OF rs, of j "h_version (blk_hdr s j)" "h_val_len (blk_hdr s j)"]
    unfolding hdr_updated_def by auto
qed



end
