(* ===== verification/Tx_Abort.thy ===== *)
theory Tx_Abort
  imports Tx_Execute
begin

text \<open>
  What \<open>tx_slot_abort\<close> does: for a log without in-place updates it clears the blocks that the
  transaction wrote and gives them back. The loop of the code moves on by the size of an
  entry and does not skip the payload of an in-place update; the last property shows what
  follows from that.
\<close>

section \<open>The loop abandons the new blocks\<close>

definition abandon :: "u64 \<Rightarrow> pmb_handle \<Rightarrow> pmb_handle" where
  "abandon i s = push_free i (clear_block i s)"

fun abort_rec :: "log_rec \<Rightarrow> pmb_handle \<Rightarrow> pmb_handle" where
  "abort_rec (LWrite i) s = abandon i s"
| "abort_rec (LUpdate old new) s = abandon new s"
| "abort_rec r s = s"

fun written :: "log_rec \<Rightarrow> u64 set" where
  "written (LWrite i) = {i}"
| "written (LUpdate old new) = {new}"
| "written r = {}"

abbreviation written_ids :: "log_rec list \<Rightarrow> u64 set" where
  "written_ids rs \<equiv> \<Union>(written ` set rs)"

definition abort_ok :: "pmb_handle \<Rightarrow> log_rec \<Rightarrow> bool" where
  "abort_ok s r \<longleftrightarrow> inplaced r = {} \<and> (\<forall>i\<in>written r. block_ok (bck s) i \<and> i \<noteq> 0 \<and> fits s i)"

lemma abandon_simps [simp]:
  "bck (abandon i s) = bck s" "conf_eq s (abandon i s)" "mem (abandon i s) = mem (clear_block i s)"
  "op_log (abandon i s) = op_log s"
  using conf_eq_trans [OF clear_block_simps(3) push_free_simps(3)] by (simp_all add: abandon_def)

lemma abort_rec_conf: "conf_eq s (abort_rec r s)" "op_log (abort_rec r s) = op_log s"
  by (cases r; simp)+

lemma abort_rec_only:
  assumes "abort_ok s r"
  shows "mem (abort_rec r s) = mem s \<and> written r = {} \<or>
    (\<exists>i. written r = {i} \<and> block_ok (bck s) i \<and> only (blk_ptr s i) (block_len (bck s) i) (mem s) (mem (abort_rec r s)))"
  using assms clear_block_only by (cases r) (auto simp: abort_ok_def)

lemma abort_rec_other:
  assumes "abort_ok s r"
  shows "block_ok (bck s) j \<Longrightarrow> j \<notin> written r \<Longrightarrow> same_on (blk_ptr s j) (block_len (bck s) j) (mem (abort_rec r s)) (mem s)"
    and "slot_ok (bck s) k \<Longrightarrow> same_on (backend_tx_direct (Some (bck s)) k) (slot_cap s) (mem (abort_rec r s)) (mem s)"
  using abort_rec_only [OF assms] bs.other_block_same [of "bck s" _ j] bs.slot_same [of "bck s" _ k] only_apart
  by (metis singletonI same_on_refl)+

lemma abandon_hdr: "h_flch64 (hdr_at (mem (abandon i s)) (blk_ptr s i)) = 0"
  "h_key_len (hdr_at (mem (abandon i s)) (blk_ptr s i)) = 0" "h_val_len (hdr_at (mem (abandon i s)) (blk_ptr s i)) = 0"
  by (simp_all add: clear_block_hdr)

lemma abort_rec_hdr:
  assumes "abort_ok s r" and "block_ok (bck s) j"
  shows "hdr_at (mem (abort_rec r s)) (blk_ptr s j) = blk_hdr s j \<or> j \<in> written r \<and> abort_rec r s = abandon j s"
proof (cases "j \<in> written r")
  case True
  then show ?thesis
    by (cases r) auto
next
  case False
  then show ?thesis
    using abort_rec_other(1) [OF assms] hdr_same_block [OF assms(2)] by blast
qed

lemma abort_rec_fits:
  assumes r: "abort_ok s r" and j: "block_ok (bck s) j" "fits s j"
  shows "fits (abort_rec r s) j"
  using abort_rec_hdr [OF r j(1)]
proof
  assume "hdr_at (mem (abort_rec r s)) (blk_ptr s j) = blk_hdr s j"
  then show ?thesis
    using j(2) abort_rec_conf(1) [of s r] by (simp add: fits_def obj_len_def conf_eq_bck)
next
  assume "j \<in> written r \<and> abort_rec r s = abandon j s"
  then show ?thesis
    using bs.extent_header [OF j(1)] abandon_hdr [of j s] by (simp add: fits_def obj_len_def)
qed

lemma abort_rec_ok:
  assumes "abort_ok s r" and "abort_ok s r'"
  shows "abort_ok (abort_rec r s) r'"
  using assms abort_rec_fits [OF assms(1)] abort_rec_conf(1) [of s r] by (auto simp: abort_ok_def conf_eq_bck)

lemma abort_entry:
  assumes t: "slot_ok (bck s) k" and at: "backend_tx_direct (Some (bck s)) k \<le> pos"
    "pos + 24 \<le> backend_tx_direct (Some (bck s)) k + slot_cap s"
    and r: "rec_at (mem s) pos = r" "abort_ok s r"
  shows "tx_abort_entry pos s = abort_rec r s"
proof -
  let ?e = "entry_at (mem s) pos"
  have again: "entry_at (mem (clear_block i s)) pos = ?e" if "block_ok (bck s) i" "fits s i" for i
  proof -
    have "same_on (backend_tx_direct (Some (bck s)) k) (slot_cap s) (mem (clear_block i s)) (mem s)"
      using bs.slot_same [OF that(1) t] only_apart [OF clear_block_only [OF that(2)]] by blast
    then have "same_on pos 24 (mem (clear_block i s)) (mem s)"
      by (rule same_on_sub) (use at in auto)
    then show ?thesis
      by (rule entry_at_cong)
  qed
  show ?thesis
    using r again
    by (auto simp: rec_at_def tx_abort_entry_def Let_def abort_ok_def set_zero_clear abandon_def
        split: option.splits tx_op.splits)
qed

lemma tx_abort_loop_recs:
  assumes "log_ok (mem s) pos e rs" and "\<forall>r\<in>set rs. abort_ok s r"
    and "slot_ok (bck s) k" and "backend_tx_direct (Some (bck s)) k \<le> pos"
    and "e \<le> backend_tx_direct (Some (bck s)) k + slot_cap s"
  shows "tx_abort_loop e pos s = fold abort_rec rs s"
  using assms
proof (induction rs arbitrary: pos s)
  case Nil
  then show ?case
    by (simp add: tx_abort_loop.simps)
next
  case (Cons r rs)
  let ?p = "backend_tx_direct (Some (bck s)) k" and ?s = "abort_rec r s"
  have r: "abort_ok s r" and sz: "rec_size r = 24"
    using Cons.prems(2) by (auto simp: abort_ok_def) (cases r, auto)
  have le: "pos + 24 \<le> e"
    using Cons.prems(1) log_ok_le sz by fastforce
  have step: "tx_abort_entry pos s = ?s"
    using Cons.prems le r by (intro abort_entry [of s k]) auto
  have b: "bck ?s = bck s"
    using abort_rec_conf(1) [of s r] by (simp add: conf_eq_bck)
  have "same_on ?p (slot_cap s) (mem ?s) (mem s)"
    using abort_rec_other(2) [OF r] Cons.prems(3) by blast
  then have "same_on (pos + 24) (e - (pos + 24)) (mem s) (mem ?s)"
    using Cons.prems(4,5) le by (auto intro: same_on_sym same_on_sub)
  then have "log_ok (mem ?s) (pos + 24) e rs"
    using Cons.prems(1) sz by (auto intro: log_ok_cong)
  then have "tx_abort_loop e (pos + 24) ?s = fold abort_rec rs ?s"
    using Cons.prems b abort_rec_ok [OF r] by (intro Cons.IH) auto
  then show ?case
    using step le by (subst tx_abort_loop.simps) (simp add: sizeof_tx_entry_def)
qed

section \<open>The effect of the loop\<close>

lemma fold_abort_effect:
  assumes "\<forall>r\<in>set rs. abort_ok s r"
  defines "s' \<equiv> fold abort_rec rs s"
  shows "conf_eq s s' \<and> op_log s' = op_log s \<and> slots_kept s {} s' \<and>
    (\<forall>j. block_ok (bck s) j \<longrightarrow> j \<notin> written_ids rs \<longrightarrow> same_on (blk_ptr s j) (block_len (bck s) j) (mem s') (mem s)) \<and>
    (\<forall>i\<in>written_ids rs. \<not> present s' i) \<and>
    (list_wf (free_list s) \<and> list_wf (meta_free_list s) \<longrightarrow> lists_grow s (written_ids rs) s')"
  unfolding s'_def using assms(1)
proof (induction rs arbitrary: s)
  case Nil
  then show ?case
    by (simp add: lists_grow_def slots_kept_def)
next
  case (Cons r rs)
  let ?s = "abort_rec r s"
  have r: "abort_ok s r" and rs: "\<forall>r\<in>set rs. abort_ok ?s r"
    using Cons.prems abort_rec_ok by auto
  let ?s' = "fold abort_rec rs ?s"
  have IH: "conf_eq ?s ?s'" "op_log ?s' = op_log ?s"
      "\<And>j. block_ok (bck ?s) j \<Longrightarrow> j \<notin> written_ids rs \<Longrightarrow> same_on (blk_ptr ?s j) (block_len (bck ?s) j) (mem ?s') (mem ?s)"
      "\<And>i. i \<in> written_ids rs \<Longrightarrow> \<not> present ?s' i"
      "list_wf (free_list ?s) \<and> list_wf (meta_free_list ?s) \<longrightarrow> lists_grow ?s (written_ids rs) ?s'" "slots_kept ?s {} ?s'"
    using Cons.IH [OF rs] by blast+
  have c: "conf_eq s ?s" "bck ?s = bck s" "bck ?s' = bck s"
    using abort_rec_conf(1) [of s r] IH(1) by (simp_all add: conf_eq_def)
  have "same_on (blk_ptr s j) (block_len (bck s) j) (mem ?s') (mem s)"
    if "block_ok (bck s) j" "j \<notin> written_ids (r # rs)" for j
    using IH(3) [of j] abort_rec_other(1) [OF r, of j] that c(2) by (auto intro: same_on_trans)
  moreover have "slots_kept s {} ?s'"
    using slots_kept_trans [OF _ IH(6) c(2)] abort_rec_other(2) [OF r] by (simp add: slots_kept_def)
  moreover have "\<not> present ?s' i" if i: "i \<in> written_ids (r # rs)" for i
  proof (cases "i \<in> written_ids rs")
    case True
    then show ?thesis
      by (rule IH(4))
  next
    case False
    then have w: "i \<in> written r"
      using i by simp
    then have bo: "block_ok (bck s) i"
      using r by (simp add: abort_ok_def)
    have e: "?s = abandon i s"
      using w by (cases r) simp_all
    have "same_on (blk_ptr ?s i) (block_len (bck ?s) i) (mem ?s') (mem ?s)"
      by (rule IH(3) [OF _ False]) (simp only: bo c(2))
    then have "hdr_at (mem ?s') (blk_ptr s i) = hdr_at (mem ?s) (blk_ptr s i)"
      using hdr_same_block [of ?s i "mem ?s'"] bo unfolding c(2) by blast
    also have "h_flch64 \<dots> = 0"
      unfolding e by (rule abandon_hdr(1))
    finally show ?thesis
      unfolding present_def c(3) by simp
  qed
  moreover have "lists_grow s (written_ids (r # rs)) ?s'" if wf: "list_wf (free_list s) \<and> list_wf (meta_free_list s)"
  proof -
    have g: "lists_grow s (written r) ?s"
    proof (cases "written r = {}")
      case True
      then have "?s = s"
        by (cases r) simp_all
      then show ?thesis
        using True wf by (simp add: lists_grow_def)
    next
      case False
      then obtain i where i: "written r = {i}" "?s = abandon i s"
        by (cases r) simp_all
      then have "valid_id i"
        using r block_ok_bounds by (auto simp: abort_ok_def valid_id_def)
      then show ?thesis
        using push_free_grow [of "clear_block i s" i] wf i by (simp add: lists_grow_def abandon_def)
    qed
    then have "lists_grow ?s (written_ids rs) ?s'"
      using IH(5) by (simp add: lists_grow_def)
    from lists_grow_trans [OF g this] show ?thesis
      using c(1) by (simp add: conf_eq_def)
  qed
  ultimately show ?case
    using conf_eq_trans [OF c(1) IH(1)] IH(2) abort_rec_conf(2) [of r s] by simp
qed

section \<open>Aborting a slot\<close>

definition abort_ready :: "pmb_handle \<Rightarrow> u64 \<Rightarrow> log_rec list \<Rightarrow> bool" where
  "abort_ready s k rs \<longleftrightarrow> (tx_holds s k PROCESSING rs \<or> tx_holds s k COMMITED rs) \<and>
     (\<forall>r\<in>set rs. abort_ok s r) \<and> list_wf (free_list s) \<and> list_wf (meta_free_list s)"

text \<open>A change inside the slot keeps what abort needs to know of the blocks.\<close>

lemma slot_change_blocks:
  assumes ok: "tx_ok s k" and m: "only (tx_slot_ptr s k) (slot_cap s) (mem s) m" and j: "block_ok (bck s) j"
  shows "same_on (blk_ptr s j) (block_len (bck s) j) m (mem s)" and "hdr_at m (blk_ptr s j) = blk_hdr s j"
proof -
  show "same_on (blk_ptr s j) (block_len (bck s) j) m (mem s)"
    using bs.block_same [OF tx_index(2) [OF ok] j] only_apart [OF m] by (simp add: tx_slot_ptr_def)
  then show "hdr_at m (blk_ptr s j) = blk_hdr s j"
    by (rule hdr_same_block [OF j])
qed

lemma slot_change_abort_ok:
  assumes "tx_ok s k" and "only (tx_slot_ptr s k) (slot_cap s) (mem s) m" and "abort_ok s r"
  shows "abort_ok (s\<lparr>mem := m, plog := l\<rparr>) r"
  using assms(3) slot_change_blocks(2) [OF assms(1,2)] by (auto simp: abort_ok_def fits_def obj_len_def)

lemma tx_abort_loop_bck: "bck (tx_abort_loop e pos s) = bck s" "op_log (tx_abort_loop e pos s) = op_log s"
proof (induction e pos s rule: tx_abort_loop.induct)
  case (1 e pos s)
  have "bck (tx_abort_entry pos s) = bck s" "op_log (tx_abort_entry pos s) = op_log s"
    by (auto simp: tx_abort_entry_def Let_def backend_set_zero_def push_free_def split: option.split tx_op.split)
  then show "bck (tx_abort_loop e pos s) = bck s" "op_log (tx_abort_loop e pos s) = op_log s"
    using 1 by (subst tx_abort_loop.simps, simp)+
qed

text \<open>\<open>tx_slot_abort\<close> around its loop: only the first 12 bytes of the slot change before it.\<close>

lemma tx_slot_abort_loop:
  assumes ck: "checksum_spec uc ck" and ok: "tx_ok s k"
    and st: "s_status (slot_at (mem s) (tx_slot_ptr s k)) \<in> {status_code PROCESSING, status_code COMMITED}"
  obtains m l s' s2 where "tx_slot_abort uc s k = (PMB_OK, s')" "only (tx_slot_ptr s k) 12 (mem s) m"
    "s2 = tx_abort_loop (ptr_add (tx_slot_ptr s k) (s_size (slot_at (mem s) (tx_slot_ptr s k))))
       (tx_slot_ptr s k + 24) (s\<lparr>mem := m, plog := l\<rparr>)"
    "only (tx_slot_ptr s k) (slot_cap s) (mem s2) (mem s')" "s' = s2\<lparr>mem := mem s', plog := plog s'\<rparr>"
    "s_status (slot_at (mem s') (tx_slot_ptr s k)) = status_code EMPTY"
proof -
  let ?p = "tx_slot_ptr s k" and ?t = "ucast (k - 1) :: u8"
  note bnd = tx_slot_bounds [OF ok]
  have p: "backend_tx_direct (Some (bck s)) ?t = ?p"
    by (simp add: tx_slot_ptr_def)
  let ?m1 = "set_slot_status (mem s) ?p ABORTED"
  obtain l c where cs1: "tx_slot_checksum uc ?p ?t (s\<lparr>mem := ?m1\<rparr>) = s\<lparr>mem := set_slot_flch64 ?m1 ?p c, plog := l\<rparr>"
    using tx_slot_checksum_mem [OF ck, of ?p ?t "s\<lparr>mem := ?m1\<rparr>"] by auto
  define m where "m = set_slot_flch64 ?m1 ?p c"
  have m: "only ?p 12 (mem s) m" and sz: "s_size (slot_at m ?p) = s_size (slot_at (mem s) ?p)"
    by (simp_all add: m_def slot_defs only_after)
  define s2 where "s2 = tx_abort_loop (ptr_add ?p (s_size (slot_at (mem s) ?p))) (?p + 24) (s\<lparr>mem := m, plog := l\<rparr>)"
  have b2: "bck s2 = bck s"
    by (simp add: s2_def tx_abort_loop_bck)
  let ?m3 = "set_slot_size (set_slot_status (mem s2) ?p EMPTY) ?p 0"
  obtain l' c' where cs2: "tx_slot_checksum uc ?p ?t (s2\<lparr>mem := ?m3\<rparr>) = s2\<lparr>mem := set_slot_flch64 ?m3 ?p c', plog := l'\<rparr>"
    using tx_slot_checksum_mem [OF ck, of ?p ?t "s2\<lparr>mem := ?m3\<rparr>"] by auto
  let ?s3 = "s2\<lparr>mem := set_slot_flch64 ?m3 ?p c', plog := l'\<rparr>"
  obtain l'' where z: "snd (backend_tx_set_zero (Some (bck s)) ?p ?s3) =
      ?s3\<lparr>mem := memset (set_slot_flch64 ?m3 ?p c') ?p 0 12, plog := l''\<rparr>"
    using backend_tx_set_zero_mem [OF bnd(1), of "bck s" ?s3] by auto
  let ?s' = "?s3\<lparr>mem := memset (set_slot_flch64 ?m3 ?p c') ?p 0 12, plog := l''\<rparr>"
  have "tx_slot_abort uc s k = (PMB_OK, ?s')"
    using bnd(1) st b2
    by (auto simp: tx_slot_abort_def Let_def p cs1 cs2 z sz sizeof_tx_slot_def simp flip: m_def s2_def)
  moreover have "only ?p (slot_cap s) (mem s2) (mem ?s')"
    using bnd(2) by (simp add: slot_defs only_after)
  ultimately show ?thesis
    using that [of ?s' m s2 l] m slot_zeroed [of "set_slot_flch64 ?m3 ?p c'" ?p] s2_def by simp
qed

text \<open>Blocks and lists after a transaction was aborted.\<close>

lemma abort_revert:
  assumes ck: "checksum_spec uc ck" and ready: "abort_ready s k rs"
  shows "\<exists>s'. tx_slot_abort uc s k = (PMB_OK, s') \<and> conf_eq s s' \<and> op_log s' = op_log s \<and> slot_kept s k s' \<and>
    s_status (slot_at (mem s') (tx_slot_ptr s k)) = status_code EMPTY \<and>
    (\<forall>i\<in>written_ids rs. \<not> present s' i) \<and>
    (\<forall>j. block_ok (bck s) j \<longrightarrow> j \<notin> written_ids rs \<longrightarrow>
      same_on (blk_ptr s j) (block_len (bck s) j) (mem s') (mem s)) \<and>
    list_wf (free_list s') \<and> list_wf (meta_free_list s') \<and>
    list_ids (free_list s') = list_ids (free_list s) \<union> {i \<in> written_ids rs. i < total_objs_count s} \<and>
    list_ids (meta_free_list s') = list_ids (meta_free_list s) \<union> {i \<in> written_ids rs. \<not> i < total_objs_count s}"
proof -
  let ?p = "tx_slot_ptr s k"
  obtain st where h: "tx_holds s k st rs" and st: "st = PROCESSING \<or> st = COMMITED"
    using ready by (auto simp: abort_ready_def)
  have ok: "tx_ok s k" and sh: "slot_holds (mem s) ?p (slot_cap s) st rs"
    using h by (simp_all add: tx_holds_def)
  have rs: "\<forall>r\<in>set rs. abort_ok s r" and wf: "list_wf (free_list s) \<and> list_wf (meta_free_list s)"
    using ready by (simp_all add: abort_ready_def)
  have "s_status (slot_at (mem s) ?p) \<in> {status_code PROCESSING, status_code COMMITED}"
    using st tx_holds_status [OF h] by auto
  then obtain m l s' s2 where a: "tx_slot_abort uc s k = (PMB_OK, s')" "only ?p 12 (mem s) m"
      "s2 = tx_abort_loop (ptr_add ?p (s_size (slot_at (mem s) ?p))) (?p + 24) (s\<lparr>mem := m, plog := l\<rparr>)"
      "only ?p (slot_cap s) (mem s2) (mem s')" "s' = s2\<lparr>mem := mem s', plog := plog s'\<rparr>"
      "s_status (slot_at (mem s') ?p) = status_code EMPTY"
    by (rule tx_slot_abort_loop [OF ck ok])
  define s1 where "s1 = s\<lparr>mem := m, plog := l\<rparr>"
  have o1: "only ?p (slot_cap s) (mem s) m"
    using a(2) by (rule only_mono) (use tx_slot_bounds(2) [OF ok] in auto)
  have rs1: "\<forall>r\<in>set rs. abort_ok s1 r"
    unfolding s1_def using rs slot_change_abort_ok [OF ok o1] by blast
  have "log_ok (mem s) (?p + 24) (?p + slot_size s k) rs" and cap: "slot_size s k \<le> slot_cap s"
    using sh by (simp_all add: slot_holds_def)
  then have "log_ok m (?p + 24) (?p + slot_size s k) rs"
    using only_same_on [OF a(2), of "?p + 24"] by (auto intro: log_ok_cong same_on_sym)
  then have "s2 = fold abort_rec rs s1"
    unfolding a(3) entry_ptr [OF h] s1_def [symmetric] using rs1 cap tx_index(2) [OF ok]
    by (intro tx_abort_loop_recs [of _ _ _ _ "ucast (k - 1)"]) (simp_all add: s1_def tx_slot_ptr_def)
  with fold_abort_effect [OF rs1] wf have e: "conf_eq s1 s2"
      "\<And>j. block_ok (bck s) j \<Longrightarrow> j \<notin> written_ids rs \<Longrightarrow> same_on (blk_ptr s j) (block_len (bck s) j) (mem s2) m"
      "\<And>i. i \<in> written_ids rs \<Longrightarrow> \<not> present s2 i" "lists_grow s1 (written_ids rs) s2" "slots_kept s1 {} s2"
    by (auto simp: s1_def)
  have b: "bck s2 = bck s"
    using e(1) by (simp add: conf_eq_def s1_def)
  have "bck s' = bck s2" "free_list s' = free_list s2" "meta_free_list s' = meta_free_list s2"
    by (subst a(5), simp)+
  note s' = this b
  have same: "same_on (blk_ptr s j) (block_len (bck s) j) (mem s') (mem s2)" if "block_ok (bck s) j" for j
    using bs.block_same [OF tx_index(2) [OF ok] that] only_apart [OF a(4)] by (simp add: tx_slot_ptr_def)
  have "\<not> present s' i" if i: "i \<in> written_ids rs" for i
  proof -
    have "block_ok (bck s) i"
      using i rs by (auto simp: abort_ok_def)
    then have "blk_hdr s' i = blk_hdr s2 i"
      using hdr_same_block [of s2 i "mem s'"] same by (simp add: s')
    then show ?thesis
      using e(3) [OF i] by (simp add: present_def)
  qed
  moreover have "same_on (blk_ptr s j) (block_len (bck s) j) (mem s') (mem s)"
    if "block_ok (bck s) j" "j \<notin> written_ids rs" for j
    using same [OF that(1)] e(2) [OF that] slot_change_blocks(1) [OF ok o1 that(1)] by (blast intro: same_on_trans)
  moreover have "slot_kept s k s'"
  proof -
    have lg: "op_log s2 = op_log s"
      by (simp add: a(3) tx_abort_loop_bck)
    have "tx_ok s2 k" "only (tx_slot_ptr s2 k) (slot_cap s2) (mem s2) (mem s')"
      using ok a(4) unfolding tx_ok_def tx_slot_ptr_def b lg .
    then have "slot_kept s1 k s'"
      using slots_kept_trans [OF slots_kept_mono [OF e(5)] slot_change_kept] b by (simp add: s1_def)
    then show ?thesis
      using slots_kept_trans [OF slot_change_kept [OF ok, of s1]] o1 by (simp add: s1_def)
  qed
  moreover have "op_log s' = op_log s"
    by (subst a(5)) (simp add: a(3) tx_abort_loop_bck)
  moreover have "conf_eq s s'"
    using e(1) by (subst a(5)) (simp add: conf_eq_def s1_def)
  ultimately show ?thesis
    using a(1,6) e(4) s' by (auto simp: lists_grow_def s1_def)
qed

definition sample_abort_mem :: memory where
  "sample_abort_mem =
     (let m = \<lambda>_. 0;
          m = set_val_len (set_key_len (set_flch64 m 0x18007000 77) 0x18007000 3) 0x18007000 8;
          m = set_slot_size (set_slot_status m 0x10002000 PROCESSING) 0x10002000 48
      in set_entry_blk_id1 (set_entry_type m 0x10002018 WRITE) 0x10002018 5)"

lemma sample_abort_ready: "abort_ready (sample_store\<lparr>mem := sample_abort_mem\<rparr>) 1 [LWrite 5]"
proof -
  have "rec_at sample_abort_mem 0x10002018 = LWrite 5"
    by (simp add: rec_at_def sample_abort_mem_def entry_defs hdr_defs slot_defs op_of_code_def Let_def)
  moreover have "slot_at sample_abort_mem 0x10002000 = \<lparr>s_flch64 = 0, s_status = 1, s_size = 48\<rparr>"
    by (simp add: sample_abort_mem_def entry_defs hdr_defs slot_defs Let_def)
  ultimately have "tx_holds (sample_store\<lparr>mem := sample_abort_mem\<rparr>) 1 PROCESSING [LWrite 5]"
    using sample_tx_ok by (simp add: tx_holds_def slot_holds_def sample_ptr)
  moreover have "h_key_len (hdr_at sample_abort_mem 0x18007000) = 3" "h_val_len (hdr_at sample_abort_mem 0x18007000) = 8"
    by (simp_all add: sample_abort_mem_def entry_defs hdr_defs slot_defs Let_def)
  ultimately show ?thesis
    using sample_blocks sample_store_lists by (simp add: abort_ready_def abort_ok_def fits_def obj_len_def)
qed

text \<open>
  C21: aborting a transaction reverts it when its log has no in-place updates: the call succeeds,
  the slot becomes empty, no block the transaction wrote holds an object any more, every
  other block keeps all its bytes (the objects that an update meant to replace and the
  objects to be removed among them), and the written blocks are free again.
\<close>

theorem tx_slot_abort_reverts:
  assumes ck: "checksum_spec uc ck" and ready: "abort_ready s k rs"
  shows "\<exists>s'. tx_slot_abort uc s k = (PMB_OK, s') \<and>
    s_status (slot_at (mem s') (tx_slot_ptr s k)) = status_code EMPTY \<and>
    (\<forall>i\<in>written_ids rs. \<not> present s' i) \<and>
    (\<forall>j. block_ok (bck s) j \<longrightarrow> j \<notin> written_ids rs \<longrightarrow>
      same_on (blk_ptr s j) (block_len (bck s) j) (mem s') (mem s)) \<and>
    list_wf (free_list s') \<and> list_wf (meta_free_list s') \<and>
    list_ids (free_list s') = list_ids (free_list s) \<union> {i \<in> written_ids rs. i < total_objs_count s} \<and>
    list_ids (meta_free_list s') = list_ids (meta_free_list s) \<union> {i \<in> written_ids rs. \<not> i < total_objs_count s}"
  using abort_revert [OF assms] by (elim exE conjE, intro exI conjI)

theorem tx_slot_abort_reverts_witness:
  "\<exists>s'. tx_slot_abort sample_uc (sample_store\<lparr>mem := sample_abort_mem\<rparr>) 1 = (PMB_OK, s') \<and> \<not> present s' 5 \<and>
    5 \<in> list_ids (free_list s')"
proof -
  have "5 \<in> {i \<in> written_ids [LWrite 5]. i < total_objs_count (sample_store\<lparr>mem := sample_abort_mem\<rparr>)}"
    by (simp add: sample_store_def)
  then show ?thesis
    using tx_slot_abort_reverts [OF sample_checksum sample_abort_ready] by auto
qed

definition sample_payload_mem :: memory where
  "sample_payload_mem =
     (let m = \<lambda>_. 0;
          m = set_val_len (set_key_len (set_flch64 m 0x18007000 77) 0x18007000 3) 0x18007000 8;
          m = set_slot_size (set_slot_status m 0x10002000 PROCESSING) 0x10002000 72;
          m = set_entry_blk_id2 (set_entry_blk_id1 (set_entry_type m 0x10002018 UPDINPLACE) 0x10002018 6) 0x10002018 0x1800000000
      in set_entry_blk_id1 (set_entry_type m 0x10002030 WRITE) 0x10002030 5)"

text \<open>
  C35: aborting a transaction that contains an in-place update can destroy an object the
  transaction never touched: the loop does not skip the payload, and here the 24 bytes that a
  client wrote into object 6 read like the registration of a write to block 5. The object
  in block 5 is cleared and its block put on the free list.
\<close>

theorem tx_slot_abort_payload_misread:
  "\<exists>s bs s'. tx_holds s 1 PROCESSING [LInplace 6 0 bs] \<and> present s 5 \<and>
    tx_slot_abort sample_uc s 1 = (PMB_OK, s') \<and> \<not> present s' 5 \<and> 5 \<in> list_ids (free_list s')"
proof -
  let ?s = "sample_store\<lparr>mem := sample_payload_mem\<rparr>" and ?p = "0x10002000 :: nat"
  note eval = sample_payload_mem_def entry_defs hdr_defs slot_defs op_of_code_def Let_def upd_size_def upd_offset_def
  have sl: "slot_at sample_payload_mem ?p = \<lparr>s_flch64 = 0, s_status = 1, s_size = 72\<rparr>"
    by (simp add: eval)
  have rec: "rec_at sample_payload_mem (?p + 24) = LInplace 6 0 (ld_bytes sample_payload_mem (?p + 48) 24)"
    by (simp add: rec_at_def eval)
  then have h: "tx_holds ?s 1 PROCESSING [LInplace 6 0 (ld_bytes sample_payload_mem (?p + 48) 24)]"
    using sample_tx_ok sl by (simp add: tx_holds_def slot_holds_def sample_ptr)
  have hd: "hdr_at sample_payload_mem 0x18007000 = \<lparr>h_flch64 = 77, h_id = 0, h_version = 0, h_key_len = 3, h_val_len = 8\<rparr>"
    by (simp add: eval)
  have ok: "tx_ok ?s 1"
    using sample_tx_ok by simp
  have st: "s_status (slot_at (mem ?s) (tx_slot_ptr ?s 1)) \<in> {status_code PROCESSING, status_code COMMITED}"
    by (simp add: sample_ptr sl)
  obtain m l s' s2 where a: "tx_slot_abort sample_uc ?s 1 = (PMB_OK, s')" "only (tx_slot_ptr ?s 1) 12 (mem ?s) m"
      "s2 = tx_abort_loop (ptr_add (tx_slot_ptr ?s 1) (s_size (slot_at (mem ?s) (tx_slot_ptr ?s 1)))) (tx_slot_ptr ?s 1 + 24)
        (?s\<lparr>mem := m, plog := l\<rparr>)"
      "only (tx_slot_ptr ?s 1) (slot_cap ?s) (mem s2) (mem s')" "s' = s2\<lparr>mem := mem s', plog := plog s'\<rparr>"
    by (rule tx_slot_abort_loop [OF sample_checksum ok st])
  let ?s1 = "?s\<lparr>mem := m, plog := l\<rparr>"
  have o: "only ?p 12 sample_payload_mem m"
    using a(2) by (simp add: sample_ptr)
  have e1: "entry_at m (?p + 24) = entry_at sample_payload_mem (?p + 24)"
    and e2: "entry_at m (?p + 48) = entry_at sample_payload_mem (?p + 48)"
    and hm: "hdr_at m 0x18007000 = hdr_at sample_payload_mem 0x18007000"
    by (rule entry_at_cong hdr_at_cong; rule only_same_on [OF o]; simp)+
  have "tx_abort_entry (?p + 24) ?s1 = ?s1"
    using e1 by (simp add: tx_abort_entry_def eval)
  moreover have "tx_abort_entry (?p + 48) ?s1 = abort_rec (LWrite 5) ?s1"
  proof (rule abort_entry [of _ 0])
    show "slot_ok (bck ?s1) 0" "backend_tx_direct (Some (bck ?s1)) 0 \<le> ?p + 48"
      "?p + 48 + 24 \<le> backend_tx_direct (Some (bck ?s1)) 0 + slot_cap ?s1"
      using sample_ptr tx_index(2) [OF ok] by (simp_all add: tx_slot_ptr_def)
    show "rec_at (mem ?s1) (?p + 48) = LWrite 5"
      using e2 by (simp add: rec_at_def eval)
    show "abort_ok ?s1 (LWrite 5)"
      using sample_blocks hm hd by (simp add: abort_ok_def fits_def obj_len_def)
  qed
  ultimately have s2: "s2 = abandon 5 ?s1"
    unfolding a(3) by (simp add: sample_ptr sl ptr_add_def tx_abort_loop.simps sizeof_tx_entry_def)
  have "same_on (blk_ptr ?s 5) (block_len (bck ?s) 5) (mem s') (mem s2)"
    using sample_blocks only_same_on [OF a(4), of "0x18007000" 4096] by (simp add: sample_ptr)
  then have "hdr_at (mem s') 0x18007000 = hdr_at (mem s2) 0x18007000"
    using sample_blocks by (intro hdr_at_cong) (auto intro: same_on_sub)
  then have "h_flch64 (hdr_at (mem s') 0x18007000) = 0"
    using abandon_hdr(1) [of 5 ?s1] sample_blocks(1) by (simp add: s2)
  moreover have "bck s' = bck sample_store" "free_list s' = free_list s2"
    by (subst a(5), simp add: s2)+
  moreover have "5 \<in> list_ids (free_list s2)"
    using push_free_grow [of "clear_block 5 ?s1" 5] sample_store_lists
    by (simp add: s2 abandon_def lists_grow_def valid_id_def) (simp add: sample_store_def)
  ultimately show ?thesis
    using h a(1) hd sample_blocks(1)
    by (intro exI [of _ ?s] exI [of _ "ld_bytes sample_payload_mem (?p + 48) 24"] exI [of _ s']) (simp add: present_def)
qed

end
