(* ===== verification/Pmbackend.thy ===== *)
theory Pmbackend
  imports Tx_Log
begin

text \<open>
  The functions of the API in \<open>src/pmbackend.c\<close> that work on an open store: transactions, get,
  put, delete, the counters, inspection, conflict resolution and error messages. A pointer
  argument that the code compares with NULL is an option; what the code stores through it
  is returned. Opening and closing, recovery and the iterators have their own theories.
\<close>

unbundle bit_operations_syntax

section \<open>Client data\<close>

record pmb_pair =
  p_blk_id :: u64
  p_id :: u64
  p_offset :: u32
  p_key :: ptr
  p_key_len :: u32
  p_val :: ptr
  p_val_len :: u32

section \<open>Transactions\<close>

text \<open>\<open>pmb_tx_begin\<close>: status, the cell behind \<open>tx_slot\<close> and the handle.\<close>

definition pmb_tx_begin ::
  "pmb_handle option \<Rightarrow> u64 option \<Rightarrow> u8 \<times> u64 option \<times> pmb_handle option" where
  "pmb_tx_begin handle tx_slot =
     (case (handle, tx_slot) of
        (Some s, Some cell) \<Rightarrow>
          (case tx_log_get_slot s cell of (st, cell, s) \<Rightarrow>
             if st \<noteq> 0 then (PMB_ERR, Some cell, Some s)
             else case tx_slot_init s cell of (ret, s) \<Rightarrow> (ret, Some cell, Some s))
      | _ \<Rightarrow> (PMB_EARGS, tx_slot, handle))"

definition pmb_tx_commit :: "checksum_fn \<Rightarrow> pmb_handle option \<Rightarrow> u64 \<Rightarrow> u8 \<times> pmb_handle option" where
  "pmb_tx_commit uc handle tx_slot =
     (case handle of
        None \<Rightarrow> (PMB_EARGS, handle)
      | Some s \<Rightarrow>
          (if tx_slot = 0 \<or> tx_slot > ucast (tx_slots_count (op_log s)) then (PMB_EARGS, handle)
           else case tx_slot_commit uc s tx_slot of (ret, s) \<Rightarrow> (ret, Some s)))"

definition pmb_tx_execute ::
  "checksum_fn \<Rightarrow> pmb_handle option \<Rightarrow> u64 \<Rightarrow> crash + (u8 \<times> pmb_handle option)" where
  "pmb_tx_execute uc handle tx_slot =
     (case handle of
        None \<Rightarrow> Inr (PMB_EARGS, handle)
      | Some s \<Rightarrow>
          (if tx_slot = 0 \<or> tx_slot > ucast (tx_slots_count (op_log s)) then Inr (PMB_EARGS, handle)
           else bindR (tx_slot_execute uc s tx_slot) (\<lambda>(ret, s).
                  Inr (ret, Some (tx_log_free_slot s tx_slot)))))"

definition pmb_tx_abort :: "checksum_fn \<Rightarrow> pmb_handle option \<Rightarrow> u64 \<Rightarrow> u8 \<times> pmb_handle option" where
  "pmb_tx_abort uc handle tx_slot =
     (case handle of
        None \<Rightarrow> (PMB_EARGS, handle)
      | Some s \<Rightarrow>
          (if tx_slot = 0 \<or> tx_slot > ucast (tx_slots_count (op_log s)) then (PMB_EARGS, handle)
           else case tx_slot_abort uc s tx_slot of (ret, s) \<Rightarrow> (ret, Some (tx_log_free_slot s tx_slot))))"

section \<open>Reading\<close>

definition pmb_get :: "pmb_handle option \<Rightarrow> u64 \<Rightarrow> pmb_pair option \<Rightarrow> u8 \<times> pmb_pair option" where
  "pmb_get handle blk_id kv =
     (case (handle, kv) of
        (Some s, Some pair) \<Rightarrow>
          (let obj = fst (backend_get (Some (bck s)) blk_id 0 s);
               hdr = hdr_at (mem s) obj
           in if obj = NULL then (PMB_ENOENT, kv)
              else (PMB_OK, Some (pair\<lparr>p_blk_id := blk_id, p_key_len := h_key_len hdr,
                 p_key := obj + sizeof_pmb_data_hdr, p_val_len := h_val_len hdr,
                 p_val := (if h_val_len hdr = 0 then NULL
                           else if blk_id < total_objs_count s
                           then obj + sizeof_pmb_data_hdr + unat (max_key_len s)
                           else obj + sizeof_pmb_data_hdr + unat (h_key_len hdr)),
                 p_offset := 0, p_id := h_id hdr\<rparr>)))
      | _ \<Rightarrow> (PMB_EARGS, kv))"

section \<open>Writing to the data region\<close>

text \<open>
  The part of \<open>pmb_tput\<close> that keeps the old bytes on an update: what lies before the offset, and
  what lies behind the new data when the old value is longer. Returned are the state and
  the \<open>obj_size\<close> that the checksum covers.
\<close>

definition tput_keep_old ::
  "pmb_pair \<Rightarrow> ptr \<Rightarrow> ptr \<Rightarrow> u64 \<Rightarrow> u32 \<Rightarrow> pmb_handle \<Rightarrow> u32 \<times> pmb_handle" where
  "tput_keep_old kv obj old_obj data_len obj_size s =
     (let val = obj + sizeof_pmb_data_hdr + unat (max_key_len s);
          old_val = old_obj + sizeof_pmb_data_hdr + unat (max_key_len s);
          old_len = h_val_len (hdr_at (mem s) old_obj);
          beginning = (if p_offset kv > old_len then old_len else p_offset kv);
          s = backend_memcpy (bck s) val old_val (unat beginning) s;
          old_len = h_val_len (hdr_at (mem s) old_obj)
      in if ucast old_len > data_len then
           (let size_diff = ucast old_len - data_len;
                s = backend_memcpy (bck s) (val + unat data_len) (old_val + unat data_len) (unat size_diff) s;
                obj_size = ucast (ucast obj_size + size_diff);
                s = s\<lparr>mem := set_val_len (mem s) obj (h_val_len (hdr_at (mem s) old_obj))\<rparr>
            in (obj_size, s))
         else (obj_size, s))"

text \<open>The part of \<open>pmb_tput\<close> that fills the new block, after the operation was registered.\<close>

definition tput_fill :: "checksum_fn \<Rightarrow> pmb_pair \<Rightarrow> ptr \<Rightarrow> ptr \<Rightarrow> pmb_handle \<Rightarrow> pmb_handle" where
  "tput_fill uc kv obj old_obj s =
     (let data_len = ucast (p_val_len kv + p_offset kv) :: u64;
          obj_size = ucast (of_nat sizeof_pmb_data_hdr + ucast (max_key_len s) + data_len) :: u32;
          m = set_key_len (mem s) obj (p_key_len kv);
          m = set_version m obj (if p_blk_id kv \<noteq> 0 then h_version (hdr_at m old_obj) + 1 else 1);
          key = obj + sizeof_pmb_data_hdr;
          val = key + unat (max_key_len s);
          s = backend_memcpy (bck s) key (p_key kv) (unat (p_key_len kv)) (s\<lparr>mem := m\<rparr>);
          m = set_id (mem s) obj (p_id kv);
          m = set_val_len m obj (ucast data_len);
          (obj_size, s) =
            (if p_val_len kv \<noteq> 0 then
               (let (obj_size, s) =
                      (if p_blk_id kv \<noteq> 0 \<and> h_val_len (hdr_at m old_obj) > 0
                       then tput_keep_old kv obj old_obj data_len obj_size (s\<lparr>mem := m\<rparr>)
                       else (obj_size, s\<lparr>mem := m\<rparr>))
                in (obj_size, backend_memcpy (bck s) (val + unat (p_offset kv)) (p_val kv) (unat (p_val_len kv)) s))
             else (obj_size, s\<lparr>mem := m\<rparr>))
      in s\<lparr>mem := snd (uc (mem s) obj (unat obj_size) obj True)\<rparr>)"

text \<open>The arguments \<open>pmb_tput\<close> refuses.\<close>

definition tput_bad_args :: "pmb_handle \<Rightarrow> u64 \<Rightarrow> pmb_pair \<Rightarrow> bool" where
  "tput_bad_args s tx_slot kv \<longleftrightarrow> tx_slot = 0 \<or> tx_slot > ucast (tx_slots_count (op_log s)) \<or>
     p_key_len kv > max_key_len s \<or> p_key_len kv = 0 \<or> p_key kv = NULL \<or>
     (p_val kv = NULL \<and> p_val_len kv \<noteq> 0) \<or> (p_val_len kv = 0 \<and> p_offset kv \<noteq> 0)"

text \<open>
  \<open>pmb_tput\<close> from the allocation of the new block on; \<open>old_obj\<close> is the object to update, or NULL.
\<close>

definition tput_new_block ::
  "checksum_fn \<Rightarrow> pmb_handle \<Rightarrow> u64 \<Rightarrow> pmb_pair \<Rightarrow> ptr \<Rightarrow> u8 \<times> pmb_pair \<times> pmb_handle" where
  "tput_new_block uc s tx_slot kv old_obj =
     (case caslist_pop (free_list s) (Some 0) of (st, cell, l) \<Rightarrow>
        let s = s\<lparr>free_list := l\<rparr>; blk_id = (case cell of None \<Rightarrow> 0 | Some v \<Rightarrow> v)
        in if st \<noteq> 0 then (PMB_ENOSPC, kv, s)
           else let obj = backend_direct (Some (bck s)) blk_id
                in if obj = NULL then (PMB_ERR, kv, s)
                   else let obj_size = ucast (of_nat sizeof_pmb_data_hdr + ucast (max_key_len s) +
                              ucast (p_val_len kv + p_offset kv) :: u64)
                        in case (if p_blk_id kv \<noteq> 0 then tx_slot_op_update s tx_slot (p_blk_id kv) blk_id obj_size
                                 else tx_slot_op_write s tx_slot blk_id obj_size) of
                             (st, s) \<Rightarrow>
                               if st \<noteq> PMB_OK then (st, kv, s)
                               else (PMB_OK, kv\<lparr>p_blk_id := blk_id\<rparr>, tput_fill uc kv obj old_obj s))"

definition pmb_tput ::
  "checksum_fn \<Rightarrow> pmb_handle option \<Rightarrow> u64 \<Rightarrow> pmb_pair option \<Rightarrow> u8 \<times> pmb_pair option \<times> pmb_handle option" where
  "pmb_tput uc handle tx_slot pair =
     (case (handle, pair) of
        (Some s, Some kv) \<Rightarrow>
          (if tput_bad_args s tx_slot kv then (PMB_EARGS, pair, handle)
           else if p_offset kv + p_val_len kv > max_val_len s then (PMB_ESIZE, pair, handle)
           else if p_blk_id kv \<noteq> 0 \<and> p_val_len kv < max_val_len s div 2 then
             (case tx_slot_op_small_update s tx_slot (p_blk_id kv) (p_val kv) (p_offset kv) (p_val_len kv) of
                (ret, s) \<Rightarrow> (ret, pair, Some s))
           else let old_obj = (if p_blk_id kv \<noteq> 0 then fst (backend_get (Some (bck s)) (p_blk_id kv) 0 s) else NULL)
                in if p_blk_id kv \<noteq> 0 \<and> old_obj = NULL then (PMB_ENOENT, pair, handle)
                   else case tput_new_block uc s tx_slot kv old_obj of
                          (ret, kv, s) \<Rightarrow> (ret, Some kv, Some s))
      | _ \<Rightarrow> (PMB_EARGS, pair, handle))"

section \<open>Writing to the meta region\<close>

definition tput_meta_fill :: "checksum_fn \<Rightarrow> pmb_pair \<Rightarrow> ptr \<Rightarrow> ptr \<Rightarrow> pmb_handle \<Rightarrow> pmb_handle" where
  "tput_meta_fill uc kv obj old_meta s =
     (let obj_size = ucast (of_nat sizeof_pmb_data_hdr + ucast (p_key_len kv) + ucast (p_val_len kv) :: u64) :: u32;
          m = set_key_len (mem s) obj (p_key_len kv);
          m = set_val_len m obj (p_val_len kv);
          m = set_version m obj (if p_blk_id kv \<noteq> 0 then h_version (hdr_at m old_meta) + 1 else 1);
          key = obj + sizeof_pmb_data_hdr;
          val = key + unat (p_key_len kv);
          s = backend_memcpy (bck s) key (p_key kv) (unat (p_key_len kv)) (s\<lparr>mem := m\<rparr>);
          s = backend_memcpy (bck s) val (p_val kv) (unat (p_val_len kv)) s
      in s\<lparr>mem := snd (uc (mem s) obj (unat obj_size) obj True)\<rparr>)"

definition tput_meta_new_block ::
  "checksum_fn \<Rightarrow> pmb_handle \<Rightarrow> u64 \<Rightarrow> pmb_pair \<Rightarrow> ptr \<Rightarrow> u8 \<times> pmb_pair \<times> pmb_handle" where
  "tput_meta_new_block uc s tx_slot kv old_meta =
     (case caslist_pop (meta_free_list s) (Some 0) of (st, cell, l) \<Rightarrow>
        let s = s\<lparr>meta_free_list := l\<rparr>; blk_id = (case cell of None \<Rightarrow> 0 | Some v \<Rightarrow> v)
        in if st \<noteq> 0 then (PMB_ENOSPC, kv, s)
           else let obj = backend_direct (Some (bck s)) blk_id
                in if obj = NULL then (PMB_ERR, kv, s)
                   else let obj_size = ucast (of_nat sizeof_pmb_data_hdr + ucast (p_key_len kv) +
                              ucast (p_val_len kv) :: u64)
                        in case (if p_blk_id kv \<noteq> 0 then tx_slot_op_update s tx_slot (p_blk_id kv) blk_id obj_size
                                 else tx_slot_op_write s tx_slot blk_id obj_size) of
                             (st, s) \<Rightarrow>
                               if st \<noteq> PMB_OK then
                                 (st, kv, s\<lparr>meta_free_list := caslist_push (meta_free_list s) blk_id\<rparr>)
                               else (PMB_OK, kv\<lparr>p_blk_id := blk_id\<rparr>, tput_meta_fill uc kv obj old_meta s))"

definition pmb_tput_meta ::
  "checksum_fn \<Rightarrow> pmb_handle option \<Rightarrow> u64 \<Rightarrow> pmb_pair option \<Rightarrow> u8 \<times> pmb_pair option \<times> pmb_handle option" where
  "pmb_tput_meta uc handle tx_slot pair =
     (case (handle, pair) of
        (Some s, Some kv) \<Rightarrow>
          (if tx_slot = 0 \<or> tx_slot > ucast (tx_slots_count (op_log s)) \<or> p_key_len kv = 0 \<or>
              p_key kv = NULL \<or> p_val kv = NULL \<or> p_val_len kv = 0 then (PMB_EARGS, pair, handle)
           else if p_key_len kv + p_val_len kv > meta_max_key_len s + meta_max_val_len s
             then (PMB_ESIZE, pair, handle)
           else if p_blk_id kv < total_objs_count s \<and> p_blk_id kv > 0 then (PMB_EWRGID, pair, handle)
           else let old_meta = (if p_blk_id kv \<noteq> 0 then fst (backend_get (Some (bck s)) (p_blk_id kv) 0 s) else NULL)
                in if p_blk_id kv \<noteq> 0 \<and> old_meta = NULL then (PMB_ENOENT, pair, handle)
                   else case tput_meta_new_block uc s tx_slot kv old_meta of
                          (ret, kv, s) \<Rightarrow> (ret, Some kv, Some s))
      | _ \<Rightarrow> (PMB_EARGS, pair, handle))"

section \<open>Deleting and counting\<close>

definition pmb_tdel :: "pmb_handle option \<Rightarrow> u64 \<Rightarrow> u64 \<Rightarrow> u8 \<times> pmb_handle option" where
  "pmb_tdel handle tx_slot blk_id =
     (case handle of
        None \<Rightarrow> (PMB_EARGS, handle)
      | Some s \<Rightarrow>
          (if tx_slot = 0 \<or> tx_slot > ucast (tx_slots_count (op_log s)) \<or> blk_id = 0 then (PMB_EARGS, handle)
           else case tx_slot_op_remove s tx_slot blk_id of (ret, s) \<Rightarrow> (ret, Some s)))"

text \<open>The result of \<open>pmb_nfree\<close> is an \<open>int64_t\<close>.\<close>

definition pmb_nfree :: "pmb_handle option \<Rightarrow> u8 \<Rightarrow> int" where
  "pmb_nfree handle region =
     (case handle of
        None \<Rightarrow> 0
      | Some s \<Rightarrow> if region \<noteq> 0 then sint (caslist_size (meta_free_list s)) else sint (caslist_size (free_list s)))"

definition pmb_ntotal :: "pmb_handle option \<Rightarrow> u8 \<Rightarrow> u64" where
  "pmb_ntotal handle region =
     (case handle of
        None \<Rightarrow> 0
      | Some s \<Rightarrow> if region \<noteq> 0 then meta_objs_count s else total_objs_count s - 1)"

section \<open>Inspection, conflicts, messages\<close>

text \<open>What \<open>pmb_inspect\<close> prints, in order; the two loops print the bytes of key and value.\<close>

datatype inspect_line =
    Null_obj
  | Object u64 u64 u32 u32 u32
  | Wrong_key_len
  | Key_bytes "u8 list"
  | Wrong_val_len
  | Val_bytes "u8 list"

definition pmb_inspect :: "pmb_handle option \<Rightarrow> u64 \<Rightarrow> crash + inspect_line list" where
  "pmb_inspect handle blk_id =
     (case handle of
        None \<Rightarrow> Inl NullDeref
      | Some s \<Rightarrow>
          (let obj = backend_direct (Some (bck s)) blk_id; h = hdr_at (mem s) obj
           in if obj = NULL then Inr [Null_obj]
              else let head = Object blk_id (h_flch64 h) (h_version h) (h_key_len h) (h_val_len h)
                   in if h_key_len h > max_key_len s then Inr [head, Wrong_key_len]
                      else let key = Key_bytes (ld_bytes (mem s) (obj + sizeof_pmb_data_hdr) (unat (h_key_len h)))
                           in if h_val_len h > max_val_len s then Inr [head, key, Wrong_val_len]
                              else Inr [head, key, Val_bytes (ld_bytes (mem s)
                                 (obj + sizeof_pmb_data_hdr + unat (h_key_len h)) (unat (h_val_len h)))]))"

definition pmb_resolve_conflict ::
  "pmb_handle option \<Rightarrow> u64 \<Rightarrow> u64 \<Rightarrow> crash + (u64 \<times> pmb_handle)" where
  "pmb_resolve_conflict handle blk_id1 blk_id2 =
     (case handle of
        None \<Rightarrow> Inl NullDeref
      | Some s \<Rightarrow>
          (let obj1 = fst (backend_get (Some (bck s)) blk_id1 0 s);
               obj2 = fst (backend_get (Some (bck s)) blk_id2 0 s)
           in if obj1 = NULL then Inr (ucast PMB_ERR, s)
              else if obj2 = NULL then Inr (ucast PMB_ERR, s)
              else let (return_id, delete_id, delete_ptr) =
                         (if h_version (hdr_at (mem s) obj1) > h_version (hdr_at (mem s) obj2)
                          then (blk_id2, blk_id1, obj1) else (blk_id1, blk_id2, obj2));
                       s = snd (backend_set_zero (Some (bck s)) delete_ptr s)
                   in Inr (return_id, s\<lparr>free_list := caslist_push (free_list s) delete_id\<rparr>)))"

definition pmb_strerror :: "int \<Rightarrow> string" where
  "pmb_strerror err =
     (if err = uint PMB_ERR then ''generic error''
      else if err = uint PMB_ENOENT then ''object doesn't exist''
      else if err = uint PMB_ENOSPC then ''no free space''
      else if err = uint PMB_ECREAT then ''cannot create handle''
      else if err = uint PMB_ESBWR then ''cannot write superblock''
      else if err = uint PMB_ESBCR then ''superblock corrupted''
      else if err = uint PMB_ESBIN then ''superblock invalid''
      else if err = uint PMB_ESIZE then ''key or value length invalid''
      else if err = uint PMB_EWRGID then ''update object with obeject from different region''
      else if err = uint PMB_EARGS then ''invalid arguement''
      else ''Invalid error code!'')"

end
