(* ===== verification/Put.thy ===== *)
theory Put
  imports Tx_Abort Pmbackend
begin

text \<open>
  Correctness of \<open>pmb_tput\<close>, \<open>pmb_tput_meta\<close>, \<open>pmb_tdel\<close> and \<open>pmb_get\<close>: what is put can be read
  back, an update is a copy-on-write that leaves the old object alone until the transaction
  is executed, and every other object is untouched.
\<close>

section \<open>Changes of memory only\<close>

definition mem_only :: "pmb_handle \<Rightarrow> pmb_handle \<Rightarrow> bool" where
  "mem_only s s' \<longleftrightarrow> (\<exists>m l. s' = s\<lparr>mem := m, plog := l\<rparr>)"

lemma mem_only_simps:
  assumes "mem_only s s'"
  shows "bck s' = bck s" "op_log s' = op_log s" "free_list s' = free_list s" "meta_free_list s' = meta_free_list s"
    "max_key_len s' = max_key_len s" "max_val_len s' = max_val_len s" "total_objs_count s' = total_objs_count s"
    "meta_objs_count s' = meta_objs_count s"
    "meta_max_key_len s' = meta_max_key_len s" "meta_max_val_len s' = meta_max_val_len s"
  using assms by (auto simp: mem_only_def)

lemma mem_only_trans: "mem_only s s' \<Longrightarrow> mem_only s' s'' \<Longrightarrow> mem_only s s''"
  unfolding mem_only_def by (elim exE) (simp, blast)

lemma mem_only_upd [simp]: "mem_only s s" "mem_only s (s\<lparr>mem := m\<rparr>)" "mem_only s (s\<lparr>mem := m, plog := l\<rparr>)"
proof -
  show "mem_only s s"
    unfolding mem_only_def by (rule exI [of _ "mem s"], rule exI [of _ "plog s"]) simp
  show "mem_only s (s\<lparr>mem := m\<rparr>)"
    unfolding mem_only_def by (rule exI [of _ m], rule exI [of _ "plog s"]) simp
  show "mem_only s (s\<lparr>mem := m, plog := l\<rparr>)"
    unfolding mem_only_def by blast
qed

lemma mem_only_memcpy [simp]:
  "mem_only s (backend_memcpy b dest src n s)" "mem (backend_memcpy b dest src n s) = memcpy (mem s) dest src n"
  for s :: pmb_handle
  using backend_memcpy_mem [of b dest src n s] by auto

lemma mem_only_then:
  "mem_only s t \<Longrightarrow> mem_only s (t\<lparr>mem := m\<rparr>)" "mem_only s t \<Longrightarrow> mem_only s (backend_memcpy b dest src n t)"
  using mem_only_trans by simp_all

lemma slot_only_mem_only: "slot_only s k s' \<Longrightarrow> mem_only s s'"
  unfolding slot_only_def mem_only_def by blast

lemma tx_holds_mem_only:
  assumes "tx_holds s k st rs" and "mem_only s s'" and "same_on (tx_slot_ptr s k) (slot_cap s) (mem s) (mem s')"
  shows "tx_holds s' k st rs" and "tx_slot_ptr s' k = tx_slot_ptr s k"
  using assms slot_holds_cong by (auto simp: tx_holds_def tx_ok_def tx_slot_ptr_def mem_only_simps)

section \<open>Filling a block\<close>

lemma ld_bytes_0 [simp]: "ld_bytes m p 0 = []"
  by (simp add: ld_bytes_def)

lemma hdr_at_tail:
  assumes "same_on (p + 8) 24 m m'"
  shows "h_id (hdr_at m p) = h_id (hdr_at m' p)" "h_version (hdr_at m p) = h_version (hdr_at m' p)"
    "h_key_len (hdr_at m p) = h_key_len (hdr_at m' p)" "h_val_len (hdr_at m p) = h_val_len (hdr_at m' p)"
  unfolding hdr_at_def pmb_data_hdr.select_convs
  by (rule f64.get_cong f32.get_cong, rule same_on_sub [OF assms]; simp)+

text \<open>The bytes of a header behind the checksum; the last four are padding, which no one writes.\<close>

lemma ld_st_bytes_apart: "p + n \<le> q \<or> q + length bs \<le> p \<Longrightarrow> ld_bytes (st_bytes m q bs) p n = ld_bytes m p n"
  by (rule ld_bytes_cong [OF same_on_st_bytes]) auto

lemma header_bytes:
  "ld_bytes (set_val_len (set_id (memcpy (set_version (set_key_len m p kl) p v) (p + 32) q n) p x) p vl) (p + 8) 24 =
    le_enc 8 x @ le_enc 4 v @ le_enc 4 kl @ le_enc 4 vl @ ld_bytes m (p + 28) 4"
proof -
  let ?m = "set_val_len (set_id (memcpy (set_version (set_key_len m p kl) p v) (p + 32) q n) p x) p vl"
  have "ld_bytes ?m (p + 8) (8 + (4 + (4 + (4 + 4)))) =
      ld_bytes ?m (p + 8) 8 @ ld_bytes ?m (p + 16) 4 @ ld_bytes ?m (p + 20) 4 @ ld_bytes ?m (p + 24) 4 @ ld_bytes ?m (p + 28) 4"
    by (simp only: ld_bytes_append add.assoc) simp
  then show ?thesis
    by (simp add: hdr_defs st_u32_def st_u64_def memcpy_def ld_st_bytes_apart)
qed

text \<open>The memory after \<open>tput_fill\<close> for a new object.\<close>

lemma tput_fill_new_mem:
  fixes s :: pmb_handle and kv :: pmb_pair and p :: ptr and m0 :: memory
  assumes ck: "checksum_spec uc ck" and new: "p_blk_id kv = 0"
  defines "dl \<equiv> p_val_len kv + p_offset kv"
  defines "m0 \<equiv> set_val_len (set_id (memcpy (set_version (set_key_len (mem s) p (p_key_len kv)) p 1)
      (p + 32) (p_key kv) (unat (p_key_len kv))) p (p_id kv)) p dl"
  defines "m1 \<equiv> (if p_val_len kv \<noteq> 0 then memcpy m0 (p + 32 + unat (max_key_len s) + unat (p_offset kv)) (p_val kv)
      (unat (p_val_len kv)) else m0)"
  shows "mem_only s (tput_fill uc kv p old s)"
    and "\<exists>n. mem (tput_fill uc kv p old s) = st_u64 m1 p (ck (range_without m1 p n p)) \<and>
      (32 + unat (max_key_len s) + unat dl < 2 ^ 32 \<longrightarrow> n = 32 + unat (max_key_len s) + unat dl)"
proof -
  let ?s1 = "backend_memcpy (bck s) (p + 32) (p_key kv) (unat (p_key_len kv))
      (s\<lparr>mem := set_version (set_key_len (mem s) p (p_key_len kv)) p 1\<rparr>)"
  have s1: "mem_only s ?s1" "max_key_len ?s1 = max_key_len s" "bck ?s1 = bck s"
    using mem_only_trans [OF mem_only_upd(2) mem_only_memcpy(1)] mem_only_simps by blast+
  have m0: "m0 = set_val_len (set_id (mem ?s1) p (p_id kv)) p dl"
    by (simp add: m0_def)
  let ?n = "ucast (of_nat sizeof_pmb_data_hdr + ucast (max_key_len s) + ucast dl :: u64) :: u32"
  have len: "unat ?n = 32 + unat (max_key_len s) + unat dl" if "32 + unat (max_key_len s) + unat dl < 2 ^ 32"
    using that unat_block_size [of "max_key_len s" dl] by (simp add: unat_ucast_64_32)
  have "ucast (ucast dl :: u64) = dl"
    using unat_lt_32 [of dl] by (intro unat_eqI) (simp add: unat_ucast_64_32)
  then have fill: "tput_fill uc kv p old s = (let s2 = (if p_val_len kv \<noteq> 0 then backend_memcpy (bck s)
        (p + 32 + unat (max_key_len s) + unat (p_offset kv)) (p_val kv) (unat (p_val_len kv)) (?s1\<lparr>mem := m0\<rparr>)
      else ?s1\<lparr>mem := m0\<rparr>) in s2\<lparr>mem := snd (uc (mem s2) p (unat ?n) p True)\<rparr>)"
    using new s1(3) by (simp add: tput_fill_def Let_def m0 sizeof_pmb_data_hdr_def flip: dl_def)
  show "mem_only s (tput_fill uc kv p old s)"
    unfolding fill Let_def using s1(1) by (auto intro: mem_only_then)
  show "\<exists>n. mem (tput_fill uc kv p old s) = st_u64 m1 p (ck (range_without m1 p n p)) \<and>
      (32 + unat (max_key_len s) + unat dl < 2 ^ 32 \<longrightarrow> n = 32 + unat (max_key_len s) + unat dl)"
    using len by (intro exI [of _ "unat ?n"]) (auto simp: fill Let_def checksum_insert [OF ck] m1_def)
qed

text \<open>
  What the client passes and what the block must have room for: key and value are outside the
  block, the lengths are within the limits of the store.
\<close>

definition put_args :: "pmb_handle \<Rightarrow> u64 \<Rightarrow> pmb_pair \<Rightarrow> bool" where
  "put_args s i kv \<longleftrightarrow> block_ok (bck s) i \<and> unat (p_key_len kv) \<le> unat (max_key_len s) \<and>
     unat (p_offset kv) + unat (p_val_len kv) \<le> unat (max_val_len s) \<and>
     32 + unat (max_key_len s) + unat (max_val_len s) \<le> block_len (bck s) i \<and>
     apart (blk_ptr s i) (block_len (bck s) i) (p_key kv) (unat (p_key_len kv)) \<and>
     apart (blk_ptr s i) (block_len (bck s) i) (p_val kv) (unat (p_val_len kv))"

lemma put_args_len:
  assumes "put_args s i kv"
  shows "unat (p_val_len kv + p_offset kv) = unat (p_offset kv) + unat (p_val_len kv)"
    and "32 + unat (max_key_len s) + unat (p_val_len kv + p_offset kv) \<le> block_len (bck s) i"
proof -
  have "unat (p_offset kv) + unat (p_val_len kv) < 4294967296"
    using assms unat_lt_32 [of "max_val_len s"] by (auto simp: put_args_def)
  then show "unat (p_val_len kv + p_offset kv) = unat (p_offset kv) + unat (p_val_len kv)"
    by (simp add: unat_word_ariths)
  then show "32 + unat (max_key_len s) + unat (p_val_len kv + p_offset kv) \<le> block_len (bck s) i"
    using assms by (simp add: put_args_def)
qed

lemma tput_fill_new:
  fixes s :: pmb_handle and old :: ptr
  assumes ck: "checksum_spec uc ck" and a: "put_args s i kv" and new: "p_blk_id kv = 0"
  defines "p \<equiv> blk_ptr s i"
  defines "s' \<equiv> tput_fill uc kv p old s"
  shows "mem_only s s'" and "only p (block_len (bck s) i) (mem s) (mem s')"
    and "hdr_at (mem s') p = \<lparr>h_flch64 = h_flch64 (hdr_at (mem s') p), h_id = p_id kv, h_version = 1,
      h_key_len = p_key_len kv, h_val_len = p_val_len kv + p_offset kv\<rparr>"
    and "ld_bytes (mem s') (p + 32) (unat (p_key_len kv)) = ld_bytes (mem s) (p_key kv) (unat (p_key_len kv))"
    and "ld_bytes (mem s') (p + 32 + unat (max_key_len s)) (unat (p_offset kv) + unat (p_val_len kv)) =
      ld_bytes (mem s) (p + 32 + unat (max_key_len s)) (unat (p_offset kv)) @
      ld_bytes (mem s) (p_val kv) (unat (p_val_len kv))"
    and "sealed uc s' i"
    and "ld_bytes (mem s') (p + 8) 24 = le_enc 8 (p_id kv) @ le_enc 4 (1 :: u32) @ le_enc 4 (p_key_len kv) @
      le_enc 4 (p_val_len kv + p_offset kv) @ ld_bytes (mem s) (p + 28) 4"
proof -
  let ?B = "block_len (bck s) i" and ?mk = "unat (max_key_len s)" and ?kl = "unat (p_key_len kv)"
  let ?off = "unat (p_offset kv)" and ?vl = "unat (p_val_len kv)" and ?dl = "p_val_len kv + p_offset kv"
  have bo: "block_ok (bck s) i" and kl: "?kl \<le> ?mk" and fit: "32 + ?mk + ?off + ?vl \<le> ?B"
    and ka: "apart p ?B (p_key kv) ?kl" and va: "apart p ?B (p_val kv) ?vl"
    using a by (auto simp: put_args_def p_def)
  note dl = put_args_len(1) [OF a]
  define m2 where "m2 = set_version (set_key_len (mem s) p (p_key_len kv)) p 1"
  define m0 where "m0 = set_val_len (set_id (memcpy m2 (p + 32) (p_key kv) ?kl) p (p_id kv)) p ?dl"
  define m1 where "m1 = (if p_val_len kv \<noteq> 0 then memcpy m0 (p + 32 + ?mk + ?off) (p_val kv) ?vl else m0)"
  have small: "32 + ?mk + unat ?dl < 2 ^ 32"
    using fit dl block_len_32 [of "bck s" i] by simp
  then have m': "mem s' = st_u64 m1 p (ck (range_without m1 p (32 + ?mk + unat ?dl) p))" and mo: "mem_only s s'"
    using tput_fill_new_mem [OF ck new, where s = s and p = p and old = old] by (auto simp: s'_def m0_def m1_def m2_def)
  show "mem_only s s'" by (rule mo)
  have o2: "only p 32 (mem s) m2" and o0: "only p (32 + ?mk) m2 m0" and o1: "only (p + 32 + ?mk) (?off + ?vl) m0 m1"
    using kl by (auto simp: m2_def m0_def m1_def hdr_defs only_after intro: only_memcpy)
  have all: "only p ?B (mem s) m2" "only p ?B m2 m0" "only p ?B m0 m1" "only p ?B m1 (mem s')"
    using fit by (auto simp: m' intro: only_mono [OF o2] only_mono [OF o0] only_mono [OF o1] only_st_u64)
  then show o: "only p ?B (mem s) (mem s')"
    by (meson only_trans)
  have om0: "only p ?B (mem s) m0"
    using all(1,2) by (rule only_trans)
  have tail: "same_on (p + 8) 24 (mem s') m0"
    by (auto simp: m' m1_def intro!: same_on_trans [OF f64.same_on_put] same_on_memcpy)
  have h0: "h_id (hdr_at m0 p) = p_id kv" "h_version (hdr_at m0 p) = 1" "h_key_len (hdr_at m0 p) = p_key_len kv"
      "h_val_len (hdr_at m0 p) = ?dl"
    by (simp_all add: m0_def m2_def hdr_defs)
  show hdr: "hdr_at (mem s') p = \<lparr>h_flch64 = h_flch64 (hdr_at (mem s') p), h_id = p_id kv, h_version = 1,
      h_key_len = p_key_len kv, h_val_len = ?dl\<rparr>"
    by (rule pmb_data_hdr.equality) (simp_all add: hdr_at_tail [OF tail] h0)
  show "ld_bytes (mem s') (p + 32) ?kl = ld_bytes (mem s) (p_key kv) ?kl"
  proof -
    have "ld_bytes (mem s') (p + 32) ?kl = ld_bytes m1 (p + 32) ?kl"
      unfolding m' by simp
    also have "\<dots> = ld_bytes m0 (p + 32) ?kl"
      using kl by (auto intro!: ld_bytes_cong only_same_on [OF o1])
    also have "\<dots> = ld_bytes m2 (p_key kv) ?kl"
      by (simp add: m0_def hdr_defs)
    also have "\<dots> = ld_bytes (mem s) (p_key kv) ?kl"
      by (rule ld_bytes_cong [OF only_apart [OF all(1) ka]])
    finally show ?thesis .
  qed
  show "ld_bytes (mem s') (p + 32 + ?mk) (?off + ?vl) =
      ld_bytes (mem s) (p + 32 + ?mk) ?off @ ld_bytes (mem s) (p_val kv) ?vl"
  proof -
    have "ld_bytes (mem s') (p + 32 + ?mk) (?off + ?vl) = ld_bytes m1 (p + 32 + ?mk) ?off @ ld_bytes m1 (p + 32 + ?mk + ?off) ?vl"
      unfolding m' by (simp add: ld_bytes_append)
    moreover have "ld_bytes m1 (p + 32 + ?mk) ?off = ld_bytes m0 (p + 32 + ?mk) ?off"
      by (auto simp: m1_def intro!: ld_bytes_cong same_on_memcpy)
    moreover have "\<dots> = ld_bytes (mem s) (p + 32 + ?mk) ?off"
      by (rule ld_bytes_cong, rule same_on_trans [OF only_same_on [OF o0] only_same_on [OF o2]]) auto
    moreover have "ld_bytes m1 (p + 32 + ?mk + ?off) ?vl = ld_bytes m0 (p_val kv) ?vl"
      by (cases "p_val_len kv = 0") (simp_all add: m1_def)
    moreover have "\<dots> = ld_bytes (mem s) (p_val kv) ?vl"
      by (rule ld_bytes_cong [OF only_apart [OF om0 va]])
    ultimately show ?thesis
      by simp
  qed
  show "sealed uc s' i"
    by (simp add: sealed_def checksum_verify [OF ck] mem_only_simps [OF mo] hdr_at_tail [OF tail] h0 flip: p_def)
      (simp add: m')
  show "ld_bytes (mem s') (p + 8) 24 = le_enc 8 (p_id kv) @ le_enc 4 (1 :: u32) @ le_enc 4 (p_key_len kv) @
      le_enc 4 ?dl @ ld_bytes (mem s) (p + 28) 4"
    unfolding ld_bytes_cong [OF tail] m0_def m2_def by (rule header_bytes)
qed

section \<open>Putting a new object\<close>

text \<open>A transaction that can take one more entry, and a free data block.\<close>

definition put_ready :: "pmb_handle \<Rightarrow> u64 \<Rightarrow> log_rec list \<Rightarrow> u64 \<Rightarrow> bool" where
  "put_ready s k rs i \<longleftrightarrow> tx_holds s k PROCESSING rs \<and> slot_size s k + 24 \<le> slot_cap s \<and>
     list_wf (free_list s) \<and> i \<in> list_ids (free_list s) \<and> (\<forall>j\<in>list_ids (free_list s). i \<le> j)"

lemma put_ready_pop:
  assumes "put_ready s k rs i"
  obtains l where "caslist_pop (free_list s) (Some 0) = (0, Some i, l)" "list_wf l" "list_ids l = list_ids (free_list s) - {i}"
proof -
  have wf: "list_wf (free_list s)" and i: "i \<in> list_ids (free_list s)" "\<forall>j\<in>list_ids (free_list s). i \<le> j"
    using assms by (auto simp: put_ready_def)
  show ?thesis
    using wf
  proof (cases rule: list_pop [where x = 0])
    case empty
    then show ?thesis
      using i by simp
  next
    case (taken v list')
    then have "v = i"
      using i by (auto intro: antisym)
    then show ?thesis
      using taken that by blast
  qed
qed

lemma tx_holds_free_list [simp]:
  "tx_holds (s\<lparr>free_list := l\<rparr>) k st rs = tx_holds s k st rs" "tx_slot_ptr (s\<lparr>free_list := l\<rparr>) k = tx_slot_ptr s k"
  "tx_holds (s\<lparr>meta_free_list := l\<rparr>) k st rs = tx_holds s k st rs" "tx_slot_ptr (s\<lparr>meta_free_list := l\<rparr>) k = tx_slot_ptr s k"
  by (simp_all add: tx_holds_def tx_ok_def tx_slot_ptr_def)

lemma outside_slot:
  assumes "tx_ok s k" and "only (tx_slot_ptr s k) (slot_cap s) m m'" and "apart (tx_slot_ptr s k) (slot_cap s) q n"
  shows "ld_bytes m' q n = ld_bytes m q n"
  using only_apart [OF assms(2,3)] by (rule ld_bytes_cong)

text \<open>The client's buffers lie outside the pool.\<close>

definition client_bufs :: "pmb_handle \<Rightarrow> u64 \<Rightarrow> pmb_pair \<Rightarrow> bool" where
  "client_bufs s k kv \<longleftrightarrow> apart (tx_slot_ptr s k) (slot_cap s) (p_key kv) (unat (p_key_len kv)) \<and>
     apart (tx_slot_ptr s k) (slot_cap s) (p_val kv) (unat (p_val_len kv))"

text \<open>After the operation was registered: the store as \<open>tput_fill\<close> finds it.\<close>

lemma put_args_cong: "bck s' = bck s \<Longrightarrow> max_key_len s' = max_key_len s \<Longrightarrow> max_val_len s' = max_val_len s \<Longrightarrow>
   put_args s' i kv = put_args s i kv"
  by (simp add: put_args_def)

lemma registered:
  assumes h: "tx_holds s k st rs" and so: "slot_only s k s2" and bo: "block_ok (bck s) j"
  shows "mem_only s s2" "same_on (blk_ptr s j) (block_len (bck s) j) (mem s2) (mem s)" "slot_kept s k s2"
    "client_bufs s k kv \<Longrightarrow> ld_bytes (mem s2) (p_key kv) (unat (p_key_len kv)) = ld_bytes (mem s) (p_key kv) (unat (p_key_len kv))"
    "client_bufs s k kv \<Longrightarrow> ld_bytes (mem s2) (p_val kv) (unat (p_val_len kv)) = ld_bytes (mem s) (p_val kv) (unat (p_val_len kv))"
proof -
  have ok: "tx_ok s k" and o: "only (tx_slot_ptr s k) (slot_cap s) (mem s) (mem s2)"
    using h so by (auto simp: tx_holds_def slot_only_def)
  show "mem_only s s2"
    using so by (rule slot_only_mem_only)
  show "same_on (blk_ptr s j) (block_len (bck s) j) (mem s2) (mem s)"
    using ok o bo by (rule slot_change_blocks)
  show "slot_kept s k s2"
    using ok o by (rule slot_change_kept)
  show "client_bufs s k kv \<Longrightarrow> ld_bytes (mem s2) (p_key kv) (unat (p_key_len kv)) = ld_bytes (mem s) (p_key kv) (unat (p_key_len kv))"
    "client_bufs s k kv \<Longrightarrow> ld_bytes (mem s2) (p_val kv) (unat (p_val_len kv)) = ld_bytes (mem s) (p_val kv) (unat (p_val_len kv))"
    using outside_slot [OF ok o] by (auto simp: client_bufs_def)
qed

text \<open>Only the slot and the block change, nothing else in memory.\<close>

definition within :: "pmb_handle \<Rightarrow> u64 \<Rightarrow> u64 \<Rightarrow> pmb_handle \<Rightarrow> bool" where
  "within s k i s' \<longleftrightarrow> (\<forall>q n. apart (tx_slot_ptr s k) (slot_cap s) q n \<longrightarrow> apart (blk_ptr s i) (block_len (bck s) i) q n \<longrightarrow>
     same_on q n (mem s') (mem s))"

text \<open>Filling a block leaves the slot and the other blocks alone.\<close>

lemma filled:
  assumes h: "tx_holds s k st rs" and bo: "block_ok (bck s) i" and mo: "mem_only s s'"
    and o: "only (blk_ptr s i) (block_len (bck s) i) (mem s) (mem s')"
  shows "tx_holds s' k st rs" and "block_ok (bck s) j \<Longrightarrow> j \<noteq> i \<Longrightarrow> same_on (blk_ptr s j) (block_len (bck s) j) (mem s') (mem s)"
proof -
  have ok: "tx_ok s k"
    using h by (simp add: tx_holds_def)
  have "same_on (tx_slot_ptr s k) (slot_cap s) (mem s') (mem s)"
    using bs.slot_same [OF bo tx_index(2) [OF ok]] only_apart [OF o] by (simp add: tx_slot_ptr_def)
  then show "tx_holds s' k st rs"
    using tx_holds_mem_only(1) [OF h mo] same_on_sym by blast
  show "block_ok (bck s) j \<Longrightarrow> j \<noteq> i \<Longrightarrow> same_on (blk_ptr s j) (block_len (bck s) j) (mem s') (mem s)"
    using bs.other_block_same [OF bo, of j] only_apart [OF o] by blast
qed

text \<open>\<open>pmb_get\<close> on a block that holds an object.\<close>

lemma pmb_get_present:
  assumes "block_ok (bck s) i" and "present s i"
  shows "pmb_get (Some s) i (Some kv) = (PMB_OK, Some (kv\<lparr>p_blk_id := i, p_key_len := h_key_len (blk_hdr s i),
     p_key := blk_ptr s i + 32, p_val_len := h_val_len (blk_hdr s i),
     p_val := (if h_val_len (blk_hdr s i) = 0 then NULL
       else if i < total_objs_count s then blk_ptr s i + 32 + unat (max_key_len s)
       else blk_ptr s i + 32 + unat (h_key_len (blk_hdr s i))),
     p_offset := 0, p_id := h_id (blk_hdr s i)\<rparr>))"
  using backend_get_present [OF assms(1)] assms(2) bs.direct_not_null [OF assms(1)]
  by (simp add: pmb_get_def Let_def sizeof_pmb_data_hdr_def)

text \<open>The object in a block, read the way \<open>pmb_get\<close> finds its parts: in the data region the value starts
  behind the room for the longest key, in the meta region behind the key.\<close>

record pmb_obj =
  ob_id :: u64
  ob_version :: u32
  ob_key :: "u8 list"
  ob_val :: "u8 list"

definition val_start :: "pmb_handle \<Rightarrow> u64 \<Rightarrow> nat" where
  "val_start s i = (if i < total_objs_count s then 32 + unat (max_key_len s) else 32 + unat (h_key_len (blk_hdr s i)))"

definition obj_at :: "pmb_handle \<Rightarrow> u64 \<Rightarrow> pmb_obj" where
  "obj_at s i = \<lparr>ob_id = h_id (blk_hdr s i), ob_version = h_version (blk_hdr s i),
     ob_key = ld_bytes (mem s) (blk_ptr s i + 32) (unat (h_key_len (blk_hdr s i))),
     ob_val = ld_bytes (mem s) (blk_ptr s i + val_start s i) (unat (h_val_len (blk_hdr s i)))\<rparr>"

text \<open>\<open>reads_back s i kv0 key v id\<close>: a get of block \<open>i\<close> delivers the key, the value and the client's identifier.\<close>

definition reads_back :: "pmb_handle \<Rightarrow> u64 \<Rightarrow> pmb_pair \<Rightarrow> u8 list \<Rightarrow> u8 list \<Rightarrow> u64 \<Rightarrow> bool" where
  "reads_back s i kv0 key v cid \<longleftrightarrow> (\<exists>kv. pmb_get (Some s) i (Some kv0) = (PMB_OK, Some kv) \<and>
     ld_bytes (mem s) (p_key kv) (unat (p_key_len kv)) = key \<and>
     ld_bytes (mem s) (p_val kv) (unat (p_val_len kv)) = v \<and> p_id kv = cid \<and> p_blk_id kv = i)"

lemma reads_back_obj:
  assumes "block_ok (bck s) i" and "present s i"
  shows "reads_back s i kv0 (ob_key (obj_at s i)) (ob_val (obj_at s i)) (ob_id (obj_at s i))"
  using pmb_get_present [OF assms, of kv0] by (simp add: reads_back_def obj_at_def val_start_def add.assoc)

section \<open>Putting a meta object\<close>

definition sealed_meta :: "checksum_fn \<Rightarrow> pmb_handle \<Rightarrow> u64 \<Rightarrow> bool" where
  "sealed_meta uc s i \<longleftrightarrow> fst (uc (mem s) (blk_ptr s i)
     (32 + unat (h_key_len (blk_hdr s i)) + unat (h_val_len (blk_hdr s i))) (blk_ptr s i) False)"

definition meta_args :: "pmb_handle \<Rightarrow> u64 \<Rightarrow> pmb_pair \<Rightarrow> bool" where
  "meta_args s i kv \<longleftrightarrow> block_ok (bck s) i \<and> p_key_len kv \<noteq> 0 \<and> p_key kv \<noteq> NULL \<and> p_val kv \<noteq> NULL \<and> p_val_len kv \<noteq> 0 \<and>
     unat (p_key_len kv) + unat (p_val_len kv) \<le> unat (meta_max_key_len s) + unat (meta_max_val_len s) \<and>
     32 + unat (meta_max_key_len s) + unat (meta_max_val_len s) \<le> block_len (bck s) i \<and>
     apart (blk_ptr s i) (block_len (bck s) i) (p_key kv) (unat (p_key_len kv)) \<and>
     apart (blk_ptr s i) (block_len (bck s) i) (p_val kv) (unat (p_val_len kv))"

lemma tput_meta_fill_ok:
  fixes s :: pmb_handle and old :: ptr
  assumes ck: "checksum_spec uc ck" and a: "meta_args s i kv"
  defines "p \<equiv> blk_ptr s i"
  defines "s' \<equiv> tput_meta_fill uc kv p old s"
  shows "mem_only s s'" and "only p (block_len (bck s) i) (mem s) (mem s')"
    and "h_key_len (hdr_at (mem s') p) = p_key_len kv" and "h_val_len (hdr_at (mem s') p) = p_val_len kv"
    and "h_id (hdr_at (mem s') p) = h_id (hdr_at (mem s) p)"
    and "p_blk_id kv \<noteq> 0 \<Longrightarrow> apart p (block_len (bck s) i) old 32 \<Longrightarrow>
      h_version (hdr_at (mem s') p) = h_version (hdr_at (mem s) old) + 1"
    and "p_blk_id kv = 0 \<Longrightarrow> h_version (hdr_at (mem s') p) = 1"
    and "ld_bytes (mem s') (p + 32) (unat (p_key_len kv)) = ld_bytes (mem s) (p_key kv) (unat (p_key_len kv))"
    and "ld_bytes (mem s') (p + 32 + unat (p_key_len kv)) (unat (p_val_len kv)) = ld_bytes (mem s) (p_val kv) (unat (p_val_len kv))"
    and "sealed_meta uc s' i"
proof -
  let ?B = "block_len (bck s) i" and ?kl = "unat (p_key_len kv)" and ?vl = "unat (p_val_len kv)"
  have bo: "block_ok (bck s) i" and fit: "32 + ?kl + ?vl \<le> ?B" and ka: "apart p ?B (p_key kv) ?kl" and va: "apart p ?B (p_val kv) ?vl"
    using a by (auto simp: meta_args_def p_def)
  have small: "?B < 2 ^ 32"
    using block_len_32 [of "bck s" i] by simp
  let ?n = "ucast (of_nat sizeof_pmb_data_hdr + ucast (p_key_len kv) + ucast (p_val_len kv) :: u64) :: u32"
  have n: "unat ?n = 32 + ?kl + ?vl"
    using fit small unat_block_size [of "p_key_len kv" "p_val_len kv"] by (simp add: unat_ucast_64_32)
  define v where "v = (if p_blk_id kv \<noteq> 0 then h_version (hdr_at (set_val_len (set_key_len (mem s) p (p_key_len kv)) p (p_val_len kv)) old) + 1 else 1)"
  define m1 where "m1 = set_version (set_val_len (set_key_len (mem s) p (p_key_len kv)) p (p_val_len kv)) p v"
  define m2 where "m2 = memcpy m1 (p + 32) (p_key kv) ?kl"
  define m3 where "m3 = memcpy m2 (p + 32 + ?kl) (p_val kv) ?vl"
  define s3 where "s3 = backend_memcpy (bck s) (p + 32 + ?kl) (p_val kv) ?vl (backend_memcpy (bck s) (p + 32) (p_key kv) ?kl (s\<lparr>mem := m1\<rparr>))"
  have s3: "mem_only s s3" "mem s3 = m3"
    unfolding s3_def by (intro mem_only_then mem_only_upd, simp add: m3_def m2_def)
  have run: "s' = s3\<lparr>mem := snd (uc m3 p (unat ?n) p True)\<rparr>"
    unfolding s'_def tput_meta_fill_def Let_def
    by (simp add: sizeof_pmb_data_hdr_def mem_only_simps [OF mem_only_memcpy(1)] s3(2) flip: v_def m1_def s3_def)
  then show mo: "mem_only s s'"
    using s3(1) by (simp add: mem_only_then)
  have m': "mem s' = st_u64 m3 p (ck (range_without m3 p (32 + ?kl + ?vl) p))"
    unfolding run by (simp add: checksum_insert [OF ck] n)
  have o: "only p 32 (mem s) m1" "only (p + 32) ?kl m1 m2" "only (p + 32 + ?kl) ?vl m2 m3"
    by (auto simp: m1_def m2_def m3_def hdr_defs only_after intro: only_memcpy)
  have oB: "only p ?B (mem s) m1" "only p ?B m1 m2" "only p ?B m2 m3" "only p ?B m3 (mem s')"
    using fit by (auto simp: m' intro: only_mono [OF o(1)] only_mono [OF o(2)] only_mono [OF o(3)] only_st_u64)
  then show "only p ?B (mem s) (mem s')"
    by (meson only_trans)
  have tail: "same_on (p + 8) 24 (mem s') m1"
    unfolding m' by (rule same_on_trans [OF f64.same_on_put same_on_trans [OF only_same_on [OF o(3)] only_same_on [OF o(2)]]]) auto
  show kv: "h_key_len (hdr_at (mem s') p) = p_key_len kv" "h_val_len (hdr_at (mem s') p) = p_val_len kv"
    and "h_id (hdr_at (mem s') p) = h_id (hdr_at (mem s) p)"
    and "p_blk_id kv = 0 \<Longrightarrow> h_version (hdr_at (mem s') p) = 1"
    by (simp_all add: hdr_at_tail [OF tail]) (simp_all add: m1_def hdr_defs v_def)
  show "h_version (hdr_at (mem s') p) = h_version (hdr_at (mem s) old) + 1"
    if u: "p_blk_id kv \<noteq> 0" and ap: "apart p ?B old 32"
  proof -
    have "only p ?B (mem s) (set_val_len (set_key_len (mem s) p (p_key_len kv)) p (p_val_len kv))"
      using fit by (auto simp: hdr_defs only_after)
    then have "hdr_at (set_val_len (set_key_len (mem s) p (p_key_len kv)) p (p_val_len kv)) old = hdr_at (mem s) old"
      by (rule hdr_at_cong [OF only_apart [OF _ ap]])
    then have "v = h_version (hdr_at (mem s) old) + 1"
      using u by (simp add: v_def)
    then show ?thesis
      by (simp add: hdr_at_tail [OF tail]) (simp add: m1_def hdr_defs)
  qed
  have "ld_bytes (mem s') (p + 32) ?kl = ld_bytes m2 (p + 32) ?kl"
    unfolding m' by (rule ld_bytes_cong, rule same_on_trans [OF f64.same_on_put only_same_on [OF o(3)]]) auto
  also have "\<dots> = ld_bytes (mem s) (p_key kv) ?kl"
    unfolding m2_def using only_apart [OF oB(1) ka] by (simp add: ld_bytes_cong)
  finally show "ld_bytes (mem s') (p + 32) ?kl = ld_bytes (mem s) (p_key kv) ?kl" .
  have "ld_bytes (mem s') (p + 32 + ?kl) ?vl = ld_bytes m3 (p + 32 + ?kl) ?vl"
    unfolding m' by simp
  also have "\<dots> = ld_bytes (mem s) (p_val kv) ?vl"
    unfolding m3_def using only_apart [OF only_trans [OF oB(1,2)] va] by (simp add: ld_bytes_cong)
  finally show "ld_bytes (mem s') (p + 32 + ?kl) ?vl = ld_bytes (mem s) (p_val kv) ?vl" .
  show "sealed_meta uc s' i"
    unfolding sealed_meta_def mem_only_simps [OF mo] p_def [symmetric] kv by (simp add: checksum_verify [OF ck]) (simp add: m')
qed

definition meta_ready :: "pmb_handle \<Rightarrow> u64 \<Rightarrow> log_rec list \<Rightarrow> u64 \<Rightarrow> bool" where
  "meta_ready s k rs i \<longleftrightarrow> tx_holds s k PROCESSING rs \<and> slot_size s k + 24 \<le> slot_cap s \<and>
     list_wf (meta_free_list s) \<and> i \<in> list_ids (meta_free_list s) \<and> (\<forall>j\<in>list_ids (meta_free_list s). i \<le> j)"

section \<open>Properties\<close>

text \<open>A store with a free block 10 on, an object in block 5, and a transaction in slot 1 that has begun.\<close>

definition sample_busy :: pmb_handle where
  "sample_busy = sample_store\<lparr>
     mem := set_slot_size (set_slot_status (set_val_len (set_key_len (set_version (set_id (set_flch64 (\<lambda>_. 0)
       0x18007000 77) 0x18007000 9) 0x18007000 3) 0x18007000 3) 0x18007000 8) 0x10002000 PROCESSING) 0x10002000 24,
     free_list := caslist_new True 10 32765\<rparr>"

definition sample_pair :: "u64 \<Rightarrow> u32 \<Rightarrow> u32 \<Rightarrow> pmb_pair" where
  "sample_pair blk off len = \<lparr>p_blk_id = blk, p_id = 4, p_offset = off, p_key = 0x1000, p_key_len = 3, p_val = 0x2000, p_val_len = len\<rparr>"

lemma sample_busy_fields:
  "bck sample_busy = sample_backend" "max_key_len sample_busy = 64" "max_val_len sample_busy = 1024"
  "meta_max_key_len sample_busy = 64" "meta_max_val_len sample_busy = 1024"
  "total_objs_count sample_busy = 32766" "tx_slots_count (op_log sample_busy) = 16"
  "list_wf (free_list sample_busy)" "list_wf (meta_free_list sample_busy)"
  "list_ids (free_list sample_busy) = {10..32765}" "list_ids (meta_free_list sample_busy) = {32767..36861}"
  by (simp_all add: sample_busy_def sample_store_def list_wf_def list_ids_def caslist_eval caslist_ids_def)

lemma sample_busy_slot:
  "tx_slot_ptr sample_busy 1 = 0x10002000" "slot_cap sample_busy = 0x800000"
  "slot_at (mem sample_busy) 0x10002000 = \<lparr>s_flch64 = 0, s_status = 1, s_size = 24\<rparr>" "tx_holds sample_busy 1 PROCESSING []"
proof -
  show p: "tx_slot_ptr sample_busy 1 = 0x10002000" "slot_cap sample_busy = 0x800000"
    using sample_ptr by (simp_all add: sample_busy_def tx_slot_ptr_def)
  show sl: "slot_at (mem sample_busy) 0x10002000 = \<lparr>s_flch64 = 0, s_status = 1, s_size = 24\<rparr>"
    by (simp add: sample_busy_def hdr_defs slot_defs)
  have "tx_ok sample_busy 1"
    by (simp add: tx_ok_def sample_busy_fields sample_backend_fields sample_layout)
  then show "tx_holds sample_busy 1 PROCESSING []"
    using sl p by (simp add: tx_holds_def slot_holds_def)
qed

lemma sample_busy_block:
  "block_ok sample_backend 5" "block_len sample_backend 5 = 4096" "backend_direct (Some sample_backend) 5 = 0x18007000"
  "block_ok sample_backend 10" "block_len sample_backend 10 = 4096" "backend_direct (Some sample_backend) 10 = 0x1800C000"
  "block_ok sample_backend 32767" "block_len sample_backend 32767 = 4096" "backend_direct (Some sample_backend) 32767 = 0x20000000"
  by (simp_all add: backend_direct_def sample_backend_fields ptr_add_def block_ok_def
      sample_layout data_id_def meta_id_def block_len_def)

lemma sample_busy_object:
  "hdr_at (mem sample_busy) 0x18007000 = \<lparr>h_flch64 = 77, h_id = 9, h_version = 3, h_key_len = 3, h_val_len = 8\<rparr>"
  by (simp add: sample_busy_def hdr_defs slot_defs)

lemma sample_client_bytes:
  "ld_bytes (mem sample_busy) 0x1000 3 = [0, 0, 0]" "ld_bytes (mem sample_busy) 0x2000 5 = [0, 0, 0, 0, 0]"
proof -
  have "replicate 3 (0 :: u8) = [0, 0, 0]" "replicate 5 (0 :: u8) = [0, 0, 0, 0, 0]"
    by (simp_all add: numeral_eq_Suc)
  then show "ld_bytes (mem sample_busy) 0x1000 3 = [0, 0, 0]" "ld_bytes (mem sample_busy) 0x2000 5 = [0, 0, 0, 0, 0]"
    by (simp_all add: sample_busy_def hdr_defs slot_defs)
qed

lemma sample_sealed_present: "sealed sample_uc s i \<Longrightarrow> i \<noteq> 0 \<Longrightarrow> present s i"
  using sample_ck_nonzero by (auto simp: sealed_def checksum_verify [OF sample_checksum] present_def hdr_at_def)

lemmas sample_busy_facts = sample_busy_fields sample_busy_slot sample_busy_block sample_busy_object
  sample_backend_fields NULL_def

text \<open>The effect of putting a new object.\<close>

lemma tput_new_effect:
  assumes ck: "checksum_spec uc ck" and ready: "put_ready s k rs i" and args: "put_args s i kv"
    and bufs: "client_bufs s k kv" and new: "p_blk_id kv = 0" and good: "\<not> tput_bad_args s k kv"
    and data: "i < total_objs_count s"
  shows "\<exists>s'. pmb_tput uc (Some s) k (Some kv) = (PMB_OK, Some (kv\<lparr>p_blk_id := i\<rparr>), Some s') \<and>
    mem_only (s\<lparr>free_list := free_list s'\<rparr>) s' \<and> tx_holds s' k PROCESSING (rs @ [LWrite i]) \<and> list_wf (free_list s') \<and>
    list_ids (free_list s') = list_ids (free_list s) - {i} \<and> sealed uc s' i \<and>
    (\<forall>j. block_ok (bck s) j \<longrightarrow> j \<noteq> i \<longrightarrow> same_on (blk_ptr s j) (block_len (bck s) j) (mem s') (mem s)) \<and>
    slot_kept s k s' \<and> within s k i s' \<and> fits s' i \<and>
    ld_bytes (mem s') (blk_ptr s i + 8) 24 = le_enc 8 (p_id kv) @ le_enc 4 (1 :: u32) @ le_enc 4 (p_key_len kv) @
      le_enc 4 (p_val_len kv + p_offset kv) @ ld_bytes (mem s) (blk_ptr s i + 28) 4 \<and> obj_at s' i = \<lparr>ob_id = p_id kv, ob_version = 1,
      ob_key = ld_bytes (mem s) (p_key kv) (unat (p_key_len kv)),
      ob_val = ld_bytes (mem s) (blk_ptr s i + 32 + unat (max_key_len s)) (unat (p_offset kv)) @
        ld_bytes (mem s) (p_val kv) (unat (p_val_len kv))\<rparr>"
proof -
  obtain l where pop: "caslist_pop (free_list s) (Some 0) = (0, Some i, l)" "list_wf l"
      "list_ids l = list_ids (free_list s) - {i}"
    using ready by (rule put_ready_pop)
  define s1 where "s1 = s\<lparr>free_list := l\<rparr>"
  have h1: "tx_holds s1 k PROCESSING rs" and room: "slot_size s1 k + 24 \<le> slot_cap s1" and bo: "block_ok (bck s) i"
    using ready args by (auto simp: put_ready_def put_args_def s1_def)
  let ?len = "ucast (of_nat sizeof_pmb_data_hdr + ucast (max_key_len s) + ucast (p_val_len kv + p_offset kv) :: u64) :: u32"
  obtain s2 where s2: "tx_slot_op_write s1 k i ?len = (PMB_OK, s2)" "tx_holds s2 k PROCESSING (rs @ [LWrite i])" "slot_only s1 k s2"
    using op_write_appends [OF h1 room] by blast
  note reg = registered [OF h1 s2(3)]
  have c1: "bck s1 = bck s" "mem s1 = mem s" "max_key_len s1 = max_key_len s" "max_val_len s1 = max_val_len s"
      "total_objs_count s1 = total_objs_count s" "client_bufs s1 k kv" "free_list s1 = l"
    using bufs by (simp_all add: s1_def client_bufs_def)
  note mo = reg(1) [OF bo [folded c1(1)]] note c2 = mem_only_simps [OF mo] c1
  have args2: "put_args s2 i kv"
    using args put_args_cong [of s2 s i kv] c2 by simp
  let ?p = "blk_ptr s i"
  define s' where "s' = tput_fill uc kv ?p NULL s2"
  have p2: "blk_ptr s2 i = ?p"
    by (simp add: c2)
  note fill = tput_fill_new [OF ck args2 new, of NULL, unfolded p2, folded s'_def]
  have bo2: "block_ok (bck s2) i"
    using bo by (simp add: c2)
  note fld = filled [OF s2(2) bo2 fill(1) fill(2) [folded p2]]
  have "\<not> max_val_len s < p_offset kv + p_val_len kv"
    using args put_args_len(1) [OF args] by (simp add: word_less_unat put_args_def add.commute)
  then have put: "pmb_tput uc (Some s) k (Some kv) = (PMB_OK, Some (kv\<lparr>p_blk_id := i\<rparr>), Some s')"
    using good new pop(1) bs.direct_not_null [OF bo] s2(1)
    by (simp add: pmb_tput_def tput_new_block_def Let_def s'_def flip: s1_def)
  have same: "same_on (blk_ptr s j) (block_len (bck s) j) (mem s') (mem s)" if "block_ok (bck s) j" "j \<noteq> i" for j
    using fld(2) [of j] reg(2) [of j] that by (auto simp: c2 intro: same_on_trans)
  have c3: "bck s' = bck s" "max_key_len s' = max_key_len s" "total_objs_count s' = total_objs_count s" "free_list s' = l"
    using mem_only_simps [OF fill(1)] c2 by simp_all
  have "ld_bytes (mem s2) (?p + 32 + unat (max_key_len s)) (unat (p_offset kv)) =
      ld_bytes (mem s) (?p + 32 + unat (max_key_len s)) (unat (p_offset kv))"
    using reg(2) [OF bo [folded c1(1)]] args by (intro ld_bytes_cong) (auto simp: c2 put_args_def elim!: same_on_sub)
  then have val: "ld_bytes (mem s') (?p + 32 + unat (max_key_len s)) (unat (p_offset kv) + unat (p_val_len kv)) =
      ld_bytes (mem s) (?p + 32 + unat (max_key_len s)) (unat (p_offset kv)) @ ld_bytes (mem s) (p_val kv) (unat (p_val_len kv))"
    using fill(5) reg(5) [OF bo [folded c1(1)] c1(6)] by (simp add: c2)
  have key: "ld_bytes (mem s') (?p + 32) (unat (p_key_len kv)) = ld_bytes (mem s) (p_key kv) (unat (p_key_len kv))"
    using fill(4) reg(4) [OF bo [folded c1(1)] c1(6)] by (simp add: c2)
  have hd: "h_id (blk_hdr s' i) = p_id kv" "h_version (blk_hdr s' i) = 1" "h_key_len (blk_hdr s' i) = p_key_len kv"
      "h_val_len (blk_hdr s' i) = p_val_len kv + p_offset kv"
    unfolding c3(1) by (subst fill(3), simp)+
  have "obj_at s' i = \<lparr>ob_id = p_id kv, ob_version = 1, ob_key = ld_bytes (mem s) (p_key kv) (unat (p_key_len kv)),
      ob_val = ld_bytes (mem s) (?p + 32 + unat (max_key_len s)) (unat (p_offset kv)) @
        ld_bytes (mem s) (p_val kv) (unat (p_val_len kv))\<rparr>"
    unfolding obj_at_def val_start_def hd using data key val put_args_len(1) [OF args] by (simp add: c3 add.assoc)
  moreover have "fits s' i"
    unfolding fits_def obj_len_def hd using args put_args_len(1) [OF args] by (simp add: c3 put_args_def)
  moreover have "mem_only (s\<lparr>free_list := free_list s'\<rparr>) s'"
    using mem_only_trans [OF mo fill(1)] by (simp add: c3 s1_def)
  moreover have "within s k i s'"
  proof -
    have "only (tx_slot_ptr s k) (slot_cap s) (mem s) (mem s2)" "only ?p (block_len (bck s) i) (mem s2) (mem s')"
      using s2(3) fill(2) by (simp_all add: slot_only_def s1_def c2)
    then show ?thesis
      unfolding within_def by (meson only_apart same_on_trans)
  qed
  moreover have "slot_kept s k s'"
    using slots_kept_trans [OF reg(3) block_change_kept [OF bo2 fill(2) [folded p2]]] bo c2 slots_kept_cong [of s1 s] by simp
  moreover have "ld_bytes (mem s2) (?p + 28) 4 = ld_bytes (mem s) (?p + 28) 4"
    using reg(2) [OF bo [folded c1(1)]] args by (intro ld_bytes_cong) (auto simp: c2 put_args_def elim!: same_on_sub)
  ultimately show ?thesis
    using put fld(1) same pop(2,3) fill(6,7) by (simp add: c3)
qed

text \<open>
  C9: what is put is read back. \<open>pmb_tput\<close> of a new object, in a transaction with room and with
  a free data block, succeeds, takes the lowest free block, registers the write, leaves every
  other block as it was, and stores an object with a valid checksum; \<open>pmb_get\<close> of the block
  then returns the client's key, identifier and value, the value behind as many bytes of
  the block's former contents as the client's offset says. (A checksum that happens to be 0
  marks the block as free; then there is nothing to read.)
\<close>

theorem pmb_tput_get_round_trip:
  assumes ck: "checksum_spec uc ck" and ready: "put_ready s k rs i" and args: "put_args s i kv"
    and bufs: "client_bufs s k kv" and new: "p_blk_id kv = 0" and good: "\<not> tput_bad_args s k kv"
    and data: "i < total_objs_count s"
  shows "\<exists>s'. pmb_tput uc (Some s) k (Some kv) = (PMB_OK, Some (kv\<lparr>p_blk_id := i\<rparr>), Some s') \<and>
    tx_holds s' k PROCESSING (rs @ [LWrite i]) \<and> list_wf (free_list s') \<and>
    list_ids (free_list s') = list_ids (free_list s) - {i} \<and> sealed uc s' i \<and>
    (\<forall>j. block_ok (bck s) j \<longrightarrow> j \<noteq> i \<longrightarrow> same_on (blk_ptr s j) (block_len (bck s) j) (mem s') (mem s)) \<and>
    (present s' i \<longrightarrow> reads_back s' i kv0 (ld_bytes (mem s) (p_key kv) (unat (p_key_len kv)))
      (ld_bytes (mem s) (blk_ptr s i + 32 + unat (max_key_len s)) (unat (p_offset kv)) @
        ld_bytes (mem s) (p_val kv) (unat (p_val_len kv))) (p_id kv))"
proof -
  obtain s' where s': "pmb_tput uc (Some s) k (Some kv) = (PMB_OK, Some (kv\<lparr>p_blk_id := i\<rparr>), Some s')"
      "mem_only (s\<lparr>free_list := free_list s'\<rparr>) s'" "tx_holds s' k PROCESSING (rs @ [LWrite i])" "list_wf (free_list s')"
      "list_ids (free_list s') = list_ids (free_list s) - {i}" "sealed uc s' i"
      "\<forall>j. block_ok (bck s) j \<longrightarrow> j \<noteq> i \<longrightarrow> same_on (blk_ptr s j) (block_len (bck s) j) (mem s') (mem s)"
      "obj_at s' i = \<lparr>ob_id = p_id kv, ob_version = 1,
        ob_key = ld_bytes (mem s) (p_key kv) (unat (p_key_len kv)),
        ob_val = ld_bytes (mem s) (blk_ptr s i + 32 + unat (max_key_len s)) (unat (p_offset kv)) @
          ld_bytes (mem s) (p_val kv) (unat (p_val_len kv))\<rparr>"
    using tput_new_effect [OF assms] by blast
  moreover have "block_ok (bck s') i"
    using args mem_only_simps(1) [OF s'(2)] by (simp add: put_args_def)
  ultimately show ?thesis
    using reads_back_obj [of s' i kv0] by auto
qed

theorem pmb_tput_get_round_trip_witness:
  "\<exists>s'. pmb_tput sample_uc (Some sample_busy) 1 (Some (sample_pair 0 0 5)) = (PMB_OK, Some (sample_pair 10 0 5), Some s') \<and>
    tx_holds s' 1 PROCESSING [LWrite 10] \<and> reads_back s' 10 (sample_pair 0 0 0) [0, 0, 0] [0, 0, 0, 0, 0] 4"
proof -
  have "put_ready sample_busy 1 [] 10" "put_args sample_busy 10 (sample_pair 0 0 5)" "client_bufs sample_busy 1 (sample_pair 0 0 5)"
      "p_blk_id (sample_pair 0 0 5) = 0" "\<not> tput_bad_args sample_busy 1 (sample_pair 0 0 5)" "10 < total_objs_count sample_busy"
      "(sample_pair 0 0 5)\<lparr>p_blk_id := 10\<rparr> = sample_pair 10 0 5"
    by (simp_all add: put_ready_def put_args_def client_bufs_def tput_bad_args_def sample_pair_def apart_def sample_busy_facts)
  then show ?thesis
    using pmb_tput_get_round_trip [OF sample_checksum, of sample_busy 1 "[]" 10 "sample_pair 0 0 5" "sample_pair 0 0 0"]
      sample_sealed_present [of _ 10] sample_client_bytes by (auto simp: sample_pair_def)
qed

text \<open>The same store with a meta object of version 6 in block 32767.\<close>

definition sample_meta :: pmb_handle where
  "sample_meta = sample_busy\<lparr>mem := set_version (set_flch64 (mem sample_busy) 0x20000000 77) 0x20000000 6,
     meta_free_list := caslist_new True 32768 36861\<rparr>"

lemma sample_meta_facts:
  "bck sample_meta = sample_backend" "op_log sample_meta = op_log sample_busy" "meta_max_key_len sample_meta = 64"
  "meta_max_val_len sample_meta = 1024" "total_objs_count sample_meta = 32766"
  "list_wf (meta_free_list sample_meta)" "list_ids (meta_free_list sample_meta) = {32768..36861}"
  "tx_slot_ptr sample_meta 1 = 0x10002000" "slot_cap sample_meta = 0x800000" "slot_at (mem sample_meta) 0x10002000 = \<lparr>s_flch64 = 0, s_status = 1, s_size = 24\<rparr>"
  "tx_holds sample_meta 1 PROCESSING []"
  "block_ok sample_backend 32768" "block_len sample_backend 32768 = 4096" "backend_direct (Some sample_backend) 32768 = 0x20001000"
  "present sample_meta 32767" "h_version (hdr_at (mem sample_meta) 0x20000000) = 6"
proof -
  show b: "bck sample_meta = sample_backend" "op_log sample_meta = op_log sample_busy" "meta_max_key_len sample_meta = 64"
      "meta_max_val_len sample_meta = 1024" "total_objs_count sample_meta = 32766"
      "list_wf (meta_free_list sample_meta)" "list_ids (meta_free_list sample_meta) = {32768..36861}"
    by (simp_all add: sample_meta_def sample_busy_facts list_wf_def list_ids_def caslist_eval caslist_ids_def)
  show p: "tx_slot_ptr sample_meta 1 = 0x10002000" "slot_cap sample_meta = 0x800000"
    using sample_busy_slot(1,2) by (simp_all add: sample_meta_def tx_slot_ptr_def)
  show s: "slot_at (mem sample_meta) 0x10002000 = \<lparr>s_flch64 = 0, s_status = 1, s_size = 24\<rparr>"
    by (simp add: sample_meta_def sample_busy_def hdr_defs slot_defs)
  have "tx_ok sample_meta 1"
    by (simp add: tx_ok_def b sample_busy_fields sample_backend_fields sample_layout)
  then show "tx_holds sample_meta 1 PROCESSING []"
    using s p by (simp add: tx_holds_def slot_holds_def)
  show "block_ok sample_backend 32768" "block_len sample_backend 32768 = 4096" "backend_direct (Some sample_backend) 32768 = 0x20001000"
    by (simp_all add: backend_direct_def sample_backend_fields ptr_add_def block_ok_def
        sample_layout data_id_def meta_id_def block_len_def)
  show "h_version (hdr_at (mem sample_meta) 0x20000000) = 6" "present sample_meta 32767"
    by (simp_all add: present_def b sample_busy_block) (simp_all add: sample_meta_def hdr_defs)
qed

text \<open>
  What \<open>pmb_tput_meta\<close> starts from, registers, and puts into the header: the pair names no object,
  or a meta object to update.
\<close>

definition meta_source :: "pmb_handle \<Rightarrow> u64 \<Rightarrow> pmb_pair \<Rightarrow> bool" where
  "meta_source s i kv \<longleftrightarrow> (p_blk_id kv \<noteq> 0 \<longrightarrow> block_ok (bck s) (p_blk_id kv) \<and> present s (p_blk_id kv) \<and>
     \<not> p_blk_id kv < total_objs_count s \<and> p_blk_id kv \<noteq> i)"

definition meta_rec :: "pmb_pair \<Rightarrow> u64 \<Rightarrow> log_rec" where
  "meta_rec kv i = (if p_blk_id kv = 0 then LWrite i else LUpdate (p_blk_id kv) i)"

definition meta_version :: "pmb_handle \<Rightarrow> pmb_pair \<Rightarrow> u32" where
  "meta_version s kv = (if p_blk_id kv = 0 then 1 else h_version (blk_hdr s (p_blk_id kv)) + 1)"

lemma meta_new: "p_blk_id kv = 0 \<Longrightarrow> meta_source s i kv" "p_blk_id kv = 0 \<Longrightarrow> meta_rec kv i = LWrite i"
  "p_blk_id kv = 0 \<Longrightarrow> meta_version s kv = 1"
  by (simp_all add: meta_source_def meta_rec_def meta_version_def)

lemma meta_source_get:
  assumes "meta_source s i kv" and "p_blk_id kv \<noteq> 0"
  shows "fst (backend_get (Some (bck s)) (p_blk_id kv) 0 s) = blk_ptr s (p_blk_id kv)" and "blk_ptr s (p_blk_id kv) \<noteq> NULL"
    and "\<not> p_blk_id kv < total_objs_count s"
  using assms backend_get_present [of s "p_blk_id kv"] bs.direct_not_null [of "bck s" "p_blk_id kv"] by (simp_all add: meta_source_def)

text \<open>
  The effect of putting a meta object, wherever the block lies: header, key and value as
  stored, and as \<open>pmb_get\<close> finds them in a block of the meta region.
\<close>

lemma tput_meta_stored:
  assumes ck: "checksum_spec uc ck" and ready: "meta_ready s k rs i" and args: "meta_args s i kv"
    and bufs: "client_bufs s k kv" and src: "meta_source s i kv"
    and sum: "unat (meta_max_key_len s) + unat (meta_max_val_len s) < 2 ^ 32"
  shows "\<exists>s'. pmb_tput_meta uc (Some s) k (Some kv) = (PMB_OK, Some (kv\<lparr>p_blk_id := i\<rparr>), Some s') \<and>
    mem_only (s\<lparr>meta_free_list := meta_free_list s'\<rparr>) s' \<and> tx_holds s' k PROCESSING (rs @ [meta_rec kv i]) \<and>
    list_wf (meta_free_list s') \<and> list_ids (meta_free_list s') = list_ids (meta_free_list s) - {i} \<and> sealed_meta uc s' i \<and>
    (\<forall>j. block_ok (bck s) j \<longrightarrow> j \<noteq> i \<longrightarrow> same_on (blk_ptr s j) (block_len (bck s) j) (mem s') (mem s)) \<and>
    slot_kept s k s' \<and> fits s' i \<and> h_id (blk_hdr s' i) = h_id (blk_hdr s i) \<and> h_version (blk_hdr s' i) = meta_version s kv \<and>
    h_key_len (blk_hdr s' i) = p_key_len kv \<and> h_val_len (blk_hdr s' i) = p_val_len kv \<and>
    ld_bytes (mem s') (blk_ptr s i + 32) (unat (p_key_len kv)) = ld_bytes (mem s) (p_key kv) (unat (p_key_len kv)) \<and>
    ld_bytes (mem s') (blk_ptr s i + 32 + unat (p_key_len kv)) (unat (p_val_len kv)) =
      ld_bytes (mem s) (p_val kv) (unat (p_val_len kv))"
proof -
  have wf: "list_wf (meta_free_list s)" and imin: "i \<in> list_ids (meta_free_list s)" "\<forall>j\<in>list_ids (meta_free_list s). i \<le> j"
    using ready by (auto simp: meta_ready_def)
  obtain l where pop: "caslist_pop (meta_free_list s) (Some 0) = (0, Some i, l)" "list_wf l" "list_ids l = list_ids (meta_free_list s) - {i}"
    using wf imin by (cases rule: list_pop [where x = 0]) (auto dest: antisym)
  define s1 where "s1 = s\<lparr>meta_free_list := l\<rparr>"
  have h1: "tx_holds s1 k PROCESSING rs" and room: "slot_size s1 k + 24 \<le> slot_cap s1" and bo: "block_ok (bck s) i"
    using ready args by (auto simp: meta_ready_def meta_args_def s1_def)
  let ?len = "ucast (of_nat sizeof_pmb_data_hdr + ucast (p_key_len kv) + ucast (p_val_len kv) :: u64) :: u32"
  obtain s2 where s2: "(if p_blk_id kv \<noteq> 0 then tx_slot_op_update s1 k (p_blk_id kv) i ?len else tx_slot_op_write s1 k i ?len) = (PMB_OK, s2)"
      "tx_holds s2 k PROCESSING (rs @ [meta_rec kv i])" "slot_only s1 k s2"
    using op_write_appends [OF h1 room, of i ?len] op_update_appends [OF h1 room, of "p_blk_id kv" i ?len]
    by (cases "p_blk_id kv = 0") (auto simp: meta_rec_def)
  note reg = registered [OF h1 s2(3)]
  have c1: "bck s1 = bck s" "mem s1 = mem s" "total_objs_count s1 = total_objs_count s" "client_bufs s1 k kv" "meta_free_list s1 = l"
      "meta_max_key_len s1 = meta_max_key_len s" "meta_max_val_len s1 = meta_max_val_len s"
    using bufs by (simp_all add: s1_def client_bufs_def)
  note mo = reg(1) [OF bo [folded c1(1)]] note c2 = mem_only_simps [OF mo] c1
  have args2: "meta_args s2 i kv"
    using args by (simp add: meta_args_def c2)
  let ?p = "blk_ptr s i"
  let ?q = "if p_blk_id kv \<noteq> 0 then blk_ptr s (p_blk_id kv) else NULL"
  define s' where "s' = tput_meta_fill uc kv ?p ?q s2"
  have p2: "blk_ptr s2 i = ?p"
    by (simp add: c2)
  note fill = tput_meta_fill_ok [OF ck args2, of ?q, unfolded p2, folded s'_def]
  have bo2: "block_ok (bck s2) i"
    using bo by (simp add: c2)
  note fld = filled [OF s2(2) bo2 fill(1) fill(2) [folded p2]]
  have "unat (p_key_len kv + p_val_len kv) = unat (p_key_len kv) + unat (p_val_len kv)"
      "unat (meta_max_key_len s + meta_max_val_len s) = unat (meta_max_key_len s) + unat (meta_max_val_len s)"
    using args sum by (simp_all add: unat_word_ariths meta_args_def)
  then have "\<not> meta_max_key_len s + meta_max_val_len s < p_key_len kv + p_val_len kv"
    using args by (simp add: word_less_unat meta_args_def)
  moreover have "k \<noteq> 0" "\<not> ucast (tx_slots_count (op_log s)) < k"
    using ready by (auto simp: meta_ready_def tx_holds_def tx_ok_def)
  ultimately have put: "pmb_tput_meta uc (Some s) k (Some kv) = (PMB_OK, Some (kv\<lparr>p_blk_id := i\<rparr>), Some s')"
    using args pop(1) bs.direct_not_null [OF bo] s2(1) meta_source_get [OF src]
    by (cases "p_blk_id kv = 0") (simp_all add: pmb_tput_meta_def tput_meta_new_block_def Let_def s'_def meta_args_def flip: s1_def)
  have same: "same_on (blk_ptr s j) (block_len (bck s) j) (mem s') (mem s)" if "block_ok (bck s) j" "j \<noteq> i" for j
    using fld(2) [of j] reg(2) [of j] that by (auto simp: c2 intro: same_on_trans)
  have c3: "bck s' = bck s" "total_objs_count s' = total_objs_count s" "meta_free_list s' = l"
    using mem_only_simps [OF fill(1)] c2 by simp_all
  have "same_on ?p (block_len (bck s) i) (mem s2) (mem s)"
    using reg(2) [of i] bo by (simp add: c1)
  then have "hdr_at (mem s2) ?p = blk_hdr s i"
    by (rule hdr_same_block [OF bo])
  then have id: "h_id (blk_hdr s' i) = h_id (blk_hdr s i)"
    using fill(5) by (simp add: c3)
  have "h_version (hdr_at (mem s') ?p) = meta_version s kv"
  proof (cases "p_blk_id kv = 0")
    case True
    then show ?thesis
      using fill(7) by (simp add: meta_version_def)
  next
    case False
    let ?j = "p_blk_id kv"
    have j: "block_ok (bck s) ?j" "?j \<noteq> i"
      using src False by (simp_all add: meta_source_def)
    have "same_on (blk_ptr s ?j) (block_len (bck s) ?j) (mem s2) (mem s)"
      using reg(2) [of ?j] j(1) by (simp add: c1)
    then have "hdr_at (mem s2) (blk_ptr s ?j) = blk_hdr s ?j"
      by (rule hdr_same_block [OF j(1)])
    moreover have "apart ?p (block_len (bck s2) i) (blk_ptr s ?j) 32"
      using bs.blocks_apart [OF bo j(1)] bs.extent_header [OF j(1)] j(2) by (auto simp: apart_def c2)
    ultimately show ?thesis
      using fill(6) False by (simp add: meta_version_def)
  qed
  then have hd: "h_version (blk_hdr s' i) = meta_version s kv" "h_key_len (blk_hdr s' i) = p_key_len kv" "h_val_len (blk_hdr s' i) = p_val_len kv"
    using fill(3,4) by (simp_all add: c3)
  have "ld_bytes (mem s') (?p + 32) (unat (p_key_len kv)) = ld_bytes (mem s) (p_key kv) (unat (p_key_len kv))"
      "ld_bytes (mem s') (?p + 32 + unat (p_key_len kv)) (unat (p_val_len kv)) = ld_bytes (mem s) (p_val kv) (unat (p_val_len kv))"
    using fill(8,9) reg(4,5) [OF bo [folded c1(1)] c1(4)] by (simp_all add: c1)
  moreover have "fits s' i"
    unfolding fits_def obj_len_def hd using args by (simp add: c3 meta_args_def)
  moreover have "mem_only (s\<lparr>meta_free_list := meta_free_list s'\<rparr>) s'"
    using mem_only_trans [OF mo fill(1)] by (simp add: c3 s1_def)
  moreover have "slot_kept s k s'"
    using slots_kept_trans [OF reg(3) block_change_kept [OF bo2 fill(2) [folded p2]]] bo c2 slots_kept_cong [of s1 s] by simp
  ultimately show ?thesis
    using put fld(1) same pop(2,3) fill(10) id hd by (simp add: c3)
qed

lemma tput_meta_effect:
  assumes ck: "checksum_spec uc ck" and ready: "meta_ready s k rs i" and args: "meta_args s i kv"
    and bufs: "client_bufs s k kv" and src: "meta_source s i kv"
    and sum: "unat (meta_max_key_len s) + unat (meta_max_val_len s) < 2 ^ 32"
    and meta: "total_objs_count s \<le> i"
  shows "\<exists>s'. pmb_tput_meta uc (Some s) k (Some kv) = (PMB_OK, Some (kv\<lparr>p_blk_id := i\<rparr>), Some s') \<and>
    mem_only (s\<lparr>meta_free_list := meta_free_list s'\<rparr>) s' \<and> tx_holds s' k PROCESSING (rs @ [meta_rec kv i]) \<and>
    list_wf (meta_free_list s') \<and> list_ids (meta_free_list s') = list_ids (meta_free_list s) - {i} \<and> sealed_meta uc s' i \<and>
    (\<forall>j. block_ok (bck s) j \<longrightarrow> j \<noteq> i \<longrightarrow> same_on (blk_ptr s j) (block_len (bck s) j) (mem s') (mem s)) \<and>
    slot_kept s k s' \<and> fits s' i \<and> obj_at s' i = \<lparr>ob_id = h_id (blk_hdr s i), ob_version = meta_version s kv,
      ob_key = ld_bytes (mem s) (p_key kv) (unat (p_key_len kv)),
      ob_val = ld_bytes (mem s) (p_val kv) (unat (p_val_len kv))\<rparr>"
proof -
  obtain s' where s': "pmb_tput_meta uc (Some s) k (Some kv) = (PMB_OK, Some (kv\<lparr>p_blk_id := i\<rparr>), Some s')"
      "mem_only (s\<lparr>meta_free_list := meta_free_list s'\<rparr>) s'" "tx_holds s' k PROCESSING (rs @ [meta_rec kv i])"
      "list_wf (meta_free_list s')" "list_ids (meta_free_list s') = list_ids (meta_free_list s) - {i}" "sealed_meta uc s' i"
      "\<forall>j. block_ok (bck s) j \<longrightarrow> j \<noteq> i \<longrightarrow> same_on (blk_ptr s j) (block_len (bck s) j) (mem s') (mem s)"
      "slot_kept s k s'" "fits s' i"
      and h: "h_id (blk_hdr s' i) = h_id (blk_hdr s i)" "h_version (blk_hdr s' i) = meta_version s kv"
      "h_key_len (blk_hdr s' i) = p_key_len kv" "h_val_len (blk_hdr s' i) = p_val_len kv"
      "ld_bytes (mem s') (blk_ptr s i + 32) (unat (p_key_len kv)) = ld_bytes (mem s) (p_key kv) (unat (p_key_len kv))"
      "ld_bytes (mem s') (blk_ptr s i + 32 + unat (p_key_len kv)) (unat (p_val_len kv)) =
        ld_bytes (mem s) (p_val kv) (unat (p_val_len kv))"
    using tput_meta_stored [OF ck ready args bufs src sum] by (elim exE conjE)
  have "obj_at s' i = \<lparr>ob_id = h_id (blk_hdr s i), ob_version = meta_version s kv, ob_key = ld_bytes (mem s) (p_key kv) (unat (p_key_len kv)),
      ob_val = ld_bytes (mem s) (p_val kv) (unat (p_val_len kv))\<rparr>"
    unfolding obj_at_def val_start_def h(1-4) using meta [folded not_less] h(5,6) mem_only_simps [OF s'(2)] by (simp add: add.assoc)
  then show ?thesis
    using s' by (intro exI conjI)
qed

text \<open>
  C22: what is put into the meta region is read back: \<open>pmb_tput_meta\<close> takes the
  lowest free block of the region's list, registers the write of a new object, or the update of
  the meta object that the pair names, and stores key and value with
  a valid checksum, the version being 1 or that of the old object and one more; \<open>pmb_get\<close> then returns
  them, provided that the block does lie in the meta region. The old object and all other blocks keep their bytes. The client's identifier, however, is not stored: the get returns the one that
  the block held before.
\<close>

theorem pmb_tput_meta_get_round_trip:
  assumes ck: "checksum_spec uc ck" and ready: "meta_ready s k rs i" and args: "meta_args s i kv"
    and bufs: "client_bufs s k kv" and src: "meta_source s i kv"
    and sum: "unat (meta_max_key_len s) + unat (meta_max_val_len s) < 2 ^ 32"
    and meta: "total_objs_count s \<le> i"
  shows "\<exists>s'. pmb_tput_meta uc (Some s) k (Some kv) = (PMB_OK, Some (kv\<lparr>p_blk_id := i\<rparr>), Some s') \<and>
    tx_holds s' k PROCESSING (rs @ [meta_rec kv i]) \<and>
    list_ids (meta_free_list s') = list_ids (meta_free_list s) - {i} \<and> sealed_meta uc s' i \<and>
    h_version (blk_hdr s' i) = meta_version s kv \<and>
    (\<forall>j. block_ok (bck s) j \<longrightarrow> j \<noteq> i \<longrightarrow> same_on (blk_ptr s j) (block_len (bck s) j) (mem s') (mem s)) \<and>
    (present s' i \<longrightarrow> reads_back s' i kv0 (ld_bytes (mem s) (p_key kv) (unat (p_key_len kv)))
      (ld_bytes (mem s) (p_val kv) (unat (p_val_len kv))) (h_id (blk_hdr s i)))"
proof -
  obtain s' where s': "pmb_tput_meta uc (Some s) k (Some kv) = (PMB_OK, Some (kv\<lparr>p_blk_id := i\<rparr>), Some s')"
      "mem_only (s\<lparr>meta_free_list := meta_free_list s'\<rparr>) s'" "tx_holds s' k PROCESSING (rs @ [meta_rec kv i])"
      "list_ids (meta_free_list s') = list_ids (meta_free_list s) - {i}" "sealed_meta uc s' i"
      "\<forall>j. block_ok (bck s) j \<longrightarrow> j \<noteq> i \<longrightarrow> same_on (blk_ptr s j) (block_len (bck s) j) (mem s') (mem s)"
      "obj_at s' i = \<lparr>ob_id = h_id (blk_hdr s i), ob_version = meta_version s kv,
        ob_key = ld_bytes (mem s) (p_key kv) (unat (p_key_len kv)),
        ob_val = ld_bytes (mem s) (p_val kv) (unat (p_val_len kv))\<rparr>"
    using tput_meta_effect [OF assms] by blast
  moreover have "block_ok (bck s') i"
    using args mem_only_simps(1) [OF s'(2)] by (simp add: meta_args_def)
  moreover have "h_version (blk_hdr s' i) = ob_version (obj_at s' i)"
    by (simp add: obj_at_def)
  ultimately show ?thesis
    using reads_back_obj [of s' i kv0] by auto
qed

theorem pmb_tput_meta_get_round_trip_witness:
  "\<exists>s'. pmb_tput_meta sample_uc (Some sample_meta) 1 (Some (sample_pair 32767 0 5)) =
      (PMB_OK, Some (sample_pair 32768 0 5), Some s') \<and> tx_holds s' 1 PROCESSING [LUpdate 32767 32768] \<and> h_version (blk_hdr s' 32768) = 7"
proof -
  have "meta_ready sample_meta 1 [] 32768" "meta_args sample_meta 32768 (sample_pair 32767 0 5)" "client_bufs sample_meta 1 (sample_pair 32767 0 5)"
      "meta_source sample_meta 32768 (sample_pair 32767 0 5)" "unat (meta_max_key_len sample_meta) + unat (meta_max_val_len sample_meta) < 2 ^ 32"
      "total_objs_count sample_meta \<le> 32768" "(sample_pair 32767 0 5)\<lparr>p_blk_id := 32768\<rparr> = sample_pair 32768 0 5"
      "meta_rec (sample_pair 32767 0 5) 32768 = LUpdate 32767 32768" "meta_version sample_meta (sample_pair 32767 0 5) = 7"
    by (simp_all add: meta_ready_def meta_args_def client_bufs_def sample_pair_def apart_def meta_source_def meta_rec_def meta_version_def
      sample_meta_facts sample_busy_block sample_backend_fields NULL_def)
  then show ?thesis
    using pmb_tput_meta_get_round_trip [OF sample_checksum, of sample_meta 1 "[]" 32768 "sample_pair 32767 0 5" "sample_pair 0 0 0"] by auto
qed

end
