(* ===== verification/Put_Update.thy ===== *)
theory Put_Update
  imports Put
begin

text \<open>
  An update with \<open>pmb_tput\<close> that does not fit in place: the new block takes over the bytes of
  the old value that the client does not overwrite.
\<close>

section \<open>Updating by copy\<close>

lemma tput_keep_old_ok:
  fixes s :: pmb_handle and dl :: u32 and n :: u32
  assumes ap: "apart p B q C" and ol: "ol = h_val_len (hdr_at (mem s) q)" and off: "p_offset kv \<le> ol" "p_offset kv \<le> dl"
    and fit: "32 + unat (max_key_len s) + unat dl \<le> B" "32 + unat (max_key_len s) + unat ol \<le> B"
      "32 + unat (max_key_len s) + unat ol \<le> C"
    and n: "unat n = 32 + unat (max_key_len s) + unat dl" and small: "B < 2 ^ 32"
    and r: "tput_keep_old kv p q (ucast dl) n s = (n', s')"
  shows "mem_only s s'" and "only p B (mem s) (mem s')"
    and "unat n' = 32 + unat (max_key_len s) + max (unat dl) (unat ol)"
    and "same_on p 24 (mem s') (mem s)" and "same_on (p + 32) (unat (max_key_len s)) (mem s') (mem s)"
    and "h_val_len (hdr_at (mem s') p) = (if dl < ol then ol else h_val_len (hdr_at (mem s) p))"
    and "ld_bytes (mem s') (p + 32 + unat (max_key_len s)) (unat (p_offset kv)) =
      ld_bytes (mem s) (q + 32 + unat (max_key_len s)) (unat (p_offset kv))"
    and "ld_bytes (mem s') (p + 32 + unat (max_key_len s) + unat dl) (unat ol - unat dl) =
      ld_bytes (mem s) (q + 32 + unat (max_key_len s) + unat dl) (unat ol - unat dl)"
proof -
  let ?mk = "unat (max_key_len s)" and ?off = "unat (p_offset kv)"
  have offn: "?off \<le> unat ol" "?off \<le> unat dl"
    using off by (simp_all add: word_nat)
  define m6 where "m6 = memcpy (mem s) (p + 32 + ?mk) (q + 32 + ?mk) ?off"
  define s6 where "s6 = backend_memcpy (bck s) (p + 32 + ?mk) (q + 32 + ?mk) ?off s"
  have s6: "mem_only s s6" "mem s6 = m6" "bck s6 = bck s"
    by (simp_all add: s6_def m6_def mem_only_simps [OF mem_only_memcpy(1)])
  have o6: "only (p + 32 + ?mk) ?off (mem s) m6"
    unfolding m6_def by (rule only_memcpy) auto
  have h6: "hdr_at m6 q = hdr_at (mem s) q"
    using only_same_on [OF o6, of q 32] ap fit offn by (intro hdr_at_cong) (auto simp: apart_def)
  have diff: "unat (ucast ol - ucast dl :: u64) = unat ol - unat dl" and lt: "(ucast dl :: u64) < ucast ol" if "dl < ol"
    using that by (simp_all add: word_less_unat unat_diff_le word_nat)
  define m7 where "m7 = (if dl < ol then memcpy m6 (p + 32 + ?mk + unat dl) (q + 32 + ?mk + unat dl) (unat ol - unat dl) else m6)"
  define m8 where "m8 = (if dl < ol then set_val_len m7 p ol else m7)"
  have o7: "only (p + 32 + ?mk + unat dl) (unat ol - unat dl) m6 m7"
    by (auto simp: m7_def intro: only_memcpy)
  have h7: "hdr_at m7 q = hdr_at (mem s) q"
  proof (cases "dl < ol")
    case True
    then have "same_on q 32 m7 m6"
      using only_same_on [OF o7, of q 32] ap fit by (auto simp: apart_def word_less_unat)
    then show ?thesis
      using h6 hdr_at_cong by metis
  qed (simp add: m7_def h6)
  have o8: "only p 28 m7 m8"
    by (auto simp: m8_def hdr_defs intro: only_st_u32)
  have nl: "\<not> ol < p_offset kv"
    using off(1) by (simp add: not_less)
  let ?t = "backend_memcpy (bck s) (p + 32 + ?mk + unat dl) (q + 32 + ?mk + unat dl) (unat (ucast ol - ucast dl :: u64)) s6"
  have run: "tput_keep_old kv p q (ucast dl) n s = (if (ucast dl :: u64) < ucast ol
      then (ucast (ucast n + (ucast ol - ucast dl) :: u64), ?t\<lparr>mem := set_val_len (mem ?t) p (h_val_len (hdr_at (mem ?t) q))\<rparr>)
      else (n, s6))"
    by (simp add: tput_keep_old_def Let_def sizeof_pmb_data_hdr_def nl h6 [unfolded m6_def] s6(2) [unfolded m6_def]
        s6(3) mem_only_simps(1) [OF mem_only_memcpy(1)] flip: ol s6_def)
  have keep: "mem_only s s' \<and> mem s' = m8 \<and> unat n' = 32 + ?mk + max (unat dl) (unat ol)"
  proof (cases "dl < ol")
    case True
    have t: "mem ?t = m7" "mem_only s ?t"
      using True s6 diff [OF True] by (simp_all add: m7_def mem_only_then)
    then have s': "s' = ?t\<lparr>mem := m8\<rparr>" "n' = ucast (ucast n + (ucast ol - ucast dl) :: u64)"
      using r lt [OF True] True h7 unfolding run by (simp_all add: m8_def flip: ol)
    have "unat (ucast n + (ucast ol - ucast dl) :: u64) = 32 + ?mk + unat ol"
      using True n fit small diff [OF True] unat_lt_32 [of ol] by (subst unat_add_no_wrap) (simp_all add: word_less_unat)
    then have "unat n' = 32 + ?mk + unat ol"
      using fit small unfolding s'(2) by (subst unat_ucast_64_32) simp_all
    moreover have "mem_only s s'" "mem s' = m8"
      using t(2) unfolding s'(1) by (simp_all add: mem_only_then)
    ultimately show ?thesis
      using True by (simp add: word_less_unat)
  next
    case False
    then have "\<not> (ucast dl :: u64) < ucast ol"
      by (simp add: word_less_unat)
    then have "s' = s6" "n' = n"
      using r unfolding run by simp_all
    then show ?thesis
      using False s6 n by (simp add: m8_def m7_def word_less_unat)
  qed
  then show "mem_only s s'" "unat n' = 32 + ?mk + max (unat dl) (unat ol)"
    by simp_all
  have m8: "mem s' = m8"
    using keep by simp
  show "only p B (mem s) (mem s')"
    unfolding m8 by (rule only_trans [OF only_mono [OF o6] only_trans [OF only_mono [OF o7] only_mono [OF o8]]])
      (use fit offn in \<open>auto simp: word_less_unat\<close>)
  show "same_on p 24 (mem s') (mem s)"
    unfolding m8 by (rule same_on_trans [OF _ same_on_trans [OF only_same_on [OF o7] only_same_on [OF o6]]])
      (auto simp: m8_def hdr_defs intro: f32.same_on_put)
  show "same_on (p + 32) ?mk (mem s') (mem s)"
    unfolding m8 by (rule same_on_trans [OF only_same_on [OF o8] same_on_trans [OF only_same_on [OF o7] only_same_on [OF o6]]]) auto
  have "hdr_at m7 p = hdr_at (mem s) p"
    by (rule hdr_at_cong, rule same_on_trans [OF only_same_on [OF o7] only_same_on [OF o6]]) auto
  then show "h_val_len (hdr_at (mem s') p) = (if dl < ol then ol else h_val_len (hdr_at (mem s) p))"
    by (auto simp: m8 m8_def hdr_defs)
  have "same_on (p + 32 + ?mk) ?off m8 m6"
    by (rule same_on_trans [OF only_same_on [OF o8] only_same_on [OF o7]]) (use offn in auto)
  then show "ld_bytes (mem s') (p + 32 + ?mk) ?off = ld_bytes (mem s) (q + 32 + ?mk) ?off"
    by (simp add: m8 ld_bytes_cong) (simp add: m6_def)
  show "ld_bytes (mem s') (p + 32 + ?mk + unat dl) (unat ol - unat dl) =
      ld_bytes (mem s) (q + 32 + ?mk + unat dl) (unat ol - unat dl)"
  proof (cases "dl < ol")
    case True
    have "ld_bytes m8 (p + 32 + ?mk + unat dl) (unat ol - unat dl) = ld_bytes m7 (p + 32 + ?mk + unat dl) (unat ol - unat dl)"
      by (rule ld_bytes_cong [OF only_same_on [OF o8]]) auto
    also have "\<dots> = ld_bytes m6 (q + 32 + ?mk + unat dl) (unat ol - unat dl)"
      using True by (simp add: m7_def)
    also have "\<dots> = ld_bytes (mem s) (q + 32 + ?mk + unat dl) (unat ol - unat dl)"
      by (rule ld_bytes_cong [OF only_same_on [OF o6]]) (use True ap fit offn in \<open>auto simp: apart_def word_less_unat\<close>)
    finally show ?thesis
      by (simp add: m8)
  qed (simp add: word_less_unat)
qed

lemma ld_bytes_take: "n \<le> k \<Longrightarrow> take n (ld_bytes m p k) = ld_bytes m p n"
  by (rule nth_equalityI) auto

lemma ld_bytes_drop: "drop n (ld_bytes m p k) = ld_bytes m (p + n) (k - n)"
  by (rule nth_equalityI) (auto simp: add.assoc)

text \<open>The three parts of \<open>tput_fill\<close> on an update: header and key; the old value; the new value and the checksum.\<close>

definition upd_head :: "pmb_pair \<Rightarrow> ptr \<Rightarrow> ptr \<Rightarrow> pmb_handle \<Rightarrow> pmb_handle" where
  "upd_head kv p q s =
     (let m = set_version (set_key_len (mem s) p (p_key_len kv)) p (h_version (hdr_at (mem s) q) + 1);
          s = backend_memcpy (bck s) (p + 32) (p_key kv) (unat (p_key_len kv)) (s\<lparr>mem := m\<rparr>)
      in s\<lparr>mem := set_val_len (set_id (mem s) p (p_id kv)) p (p_val_len kv + p_offset kv)\<rparr>)"

definition upd_keep :: "pmb_pair \<Rightarrow> ptr \<Rightarrow> ptr \<Rightarrow> u32 \<Rightarrow> pmb_handle \<Rightarrow> u32 \<times> pmb_handle" where
  "upd_keep kv p q n s =
     (if h_val_len (hdr_at (mem s) q) > 0 then tput_keep_old kv p q (ucast (p_val_len kv + p_offset kv)) n s else (n, s))"

definition upd_tail :: "checksum_fn \<Rightarrow> pmb_pair \<Rightarrow> ptr \<Rightarrow> u32 \<times> pmb_handle \<Rightarrow> pmb_handle" where
  "upd_tail uc kv p = (\<lambda>(n, s).
     let s = backend_memcpy (bck s) (p + 32 + unat (max_key_len s) + unat (p_offset kv)) (p_val kv) (unat (p_val_len kv)) s
     in s\<lparr>mem := snd (uc (mem s) p (unat n) p True)\<rparr>)"

lemma hdr_apart:
  assumes "only p B m m'" and "apart p B q C" and "32 \<le> C"
  shows "hdr_at m' q = hdr_at m q"
  using only_apart [OF assms(1,2)] assms(3) by (auto intro!: hdr_at_cong elim: same_on_sub)

lemma upd_head_ok:
  fixes s :: pmb_handle
  assumes ap: "apart p B q C" "32 \<le> C" and fit: "32 + unat (max_key_len s) \<le> B" "unat (p_key_len kv) \<le> unat (max_key_len s)"
    and ka: "apart p B (p_key kv) (unat (p_key_len kv))"
  defines "s' \<equiv> upd_head kv p q s"
  shows "mem_only s s'" and "only p B (mem s) (mem s')" and "hdr_at (mem s') q = hdr_at (mem s) q"
    and "h_id (hdr_at (mem s') p) = p_id kv" and "h_key_len (hdr_at (mem s') p) = p_key_len kv"
    and "h_version (hdr_at (mem s') p) = h_version (hdr_at (mem s) q) + 1"
    and "h_val_len (hdr_at (mem s') p) = p_val_len kv + p_offset kv"
    and "ld_bytes (mem s') (p + 32) (unat (p_key_len kv)) = ld_bytes (mem s) (p_key kv) (unat (p_key_len kv))"
proof -
  let ?kl = "unat (p_key_len kv)"
  define m2 where "m2 = set_version (set_key_len (mem s) p (p_key_len kv)) p (h_version (hdr_at (mem s) q) + 1)"
  have m': "mem s' = set_val_len (set_id (memcpy m2 (p + 32) (p_key kv) ?kl) p (p_id kv)) p (p_val_len kv + p_offset kv)"
    by (simp add: s'_def upd_head_def m2_def Let_def)
  show "mem_only s s'"
    unfolding s'_def upd_head_def Let_def by (intro mem_only_then mem_only_upd)
  have o2: "only p B (mem s) m2"
    using fit by (auto simp: m2_def hdr_defs only_after)
  moreover have "only p B m2 (mem s')"
    using fit by (auto simp: m' hdr_defs only_after)
  ultimately show o: "only p B (mem s) (mem s')"
    by (rule only_trans)
  show "hdr_at (mem s') q = hdr_at (mem s) q"
    by (rule hdr_apart [OF o ap])
  show "h_id (hdr_at (mem s') p) = p_id kv" "h_key_len (hdr_at (mem s') p) = p_key_len kv"
      "h_version (hdr_at (mem s') p) = h_version (hdr_at (mem s) q) + 1" "h_val_len (hdr_at (mem s') p) = p_val_len kv + p_offset kv"
    by (simp_all add: m' m2_def hdr_defs)
  have "ld_bytes (mem s') (p + 32) ?kl = ld_bytes m2 (p_key kv) ?kl"
    by (simp add: m' hdr_defs)
  also have "\<dots> = ld_bytes (mem s) (p_key kv) ?kl"
    by (rule ld_bytes_cong [OF only_apart [OF o2 ka]])
  finally show "ld_bytes (mem s') (p + 32) ?kl = ld_bytes (mem s) (p_key kv) ?kl" .
qed

lemma upd_keep_ok:
  fixes s :: pmb_handle
  assumes ap: "apart p B q C" and off: "unat (p_offset kv) \<le> unat (h_val_len (hdr_at (mem s) q))"
    and dl: "dl = p_val_len kv + p_offset kv" "unat dl = unat (p_offset kv) + unat (p_val_len kv)"
    and fit: "32 + unat (max_key_len s) + unat dl \<le> B" "32 + unat (max_key_len s) + unat (h_val_len (hdr_at (mem s) q)) \<le> B"
      "32 + unat (max_key_len s) + unat (h_val_len (hdr_at (mem s) q)) \<le> C"
    and n: "unat n = 32 + unat (max_key_len s) + unat dl" and small: "B < 2 ^ 32"
    and pl: "h_val_len (hdr_at (mem s) p) = dl"
    and r: "upd_keep kv p q n s = (n', s')"
  defines "ol \<equiv> unat (h_val_len (hdr_at (mem s) q))"
  shows "mem_only s s'" and "only p B (mem s) (mem s')" and "unat n' = 32 + unat (max_key_len s) + max (unat dl) ol"
    and "same_on p 24 (mem s') (mem s)" and "same_on (p + 32) (unat (max_key_len s)) (mem s') (mem s)"
    and "unat (h_val_len (hdr_at (mem s') p)) = max (unat dl) ol"
    and "ld_bytes (mem s') (p + 32 + unat (max_key_len s)) (unat (p_offset kv)) =
      ld_bytes (mem s) (q + 32 + unat (max_key_len s)) (unat (p_offset kv))"
    and "ld_bytes (mem s') (p + 32 + unat (max_key_len s) + unat dl) (ol - unat dl) =
      ld_bytes (mem s) (q + 32 + unat (max_key_len s) + unat dl) (ol - unat dl)"
proof -
  let ?mk = "unat (max_key_len s)" and ?off = "unat (p_offset kv)"
  have "mem_only s s' \<and> only p B (mem s) (mem s') \<and> unat n' = 32 + ?mk + max (unat dl) ol \<and>
    same_on p 24 (mem s') (mem s) \<and> same_on (p + 32) ?mk (mem s') (mem s) \<and>
    unat (h_val_len (hdr_at (mem s') p)) = max (unat dl) ol \<and>
    ld_bytes (mem s') (p + 32 + ?mk) ?off = ld_bytes (mem s) (q + 32 + ?mk) ?off \<and>
    ld_bytes (mem s') (p + 32 + ?mk + unat dl) (ol - unat dl) = ld_bytes (mem s) (q + 32 + ?mk + unat dl) (ol - unat dl)"
  proof (cases "h_val_len (hdr_at (mem s) q) > 0")
    case True
    then have k: "tput_keep_old kv p q (ucast dl) n s = (n', s')"
      using r by (simp add: upd_keep_def dl(1))
    have "p_offset kv \<le> h_val_len (hdr_at (mem s) q)" "p_offset kv \<le> dl"
      using off dl(2) by (simp_all add: word_le_unat)
    note keep = tput_keep_old_ok [OF ap refl this fit n small k]
    then show ?thesis
      using pl by (auto simp: ol_def word_less_unat)
  next
    case False
    then have "ol = 0" "?off = 0" "s' = s" "n' = n"
      using r off by (simp_all add: upd_keep_def ol_def word_less_unat)
    then show ?thesis
      using n pl by simp
  qed
  then show "mem_only s s'" "only p B (mem s) (mem s')" "unat n' = 32 + ?mk + max (unat dl) ol"
      "same_on p 24 (mem s') (mem s)" "same_on (p + 32) ?mk (mem s') (mem s)"
      "unat (h_val_len (hdr_at (mem s') p)) = max (unat dl) ol"
      "ld_bytes (mem s') (p + 32 + ?mk) ?off = ld_bytes (mem s) (q + 32 + ?mk) ?off"
      "ld_bytes (mem s') (p + 32 + ?mk + unat dl) (ol - unat dl) = ld_bytes (mem s) (q + 32 + ?mk + unat dl) (ol - unat dl)"
    by simp_all
qed

lemma upd_tail_ok:
  fixes s :: pmb_handle and p :: ptr and n :: u32
  assumes ck: "checksum_spec uc ck" and fit: "32 + unat (max_key_len s) + unat (p_offset kv) + unat (p_val_len kv) \<le> B"
  defines "s' \<equiv> upd_tail uc kv p (n, s)" and "v \<equiv> p + 32 + unat (max_key_len s)"
  shows "mem_only s s'" and "only p B (mem s) (mem s')" and "same_on (p + 8) 24 (mem s') (mem s)"
    and "fst (uc (mem s') p (unat n) p False)"
    and "k \<le> unat (max_key_len s) \<Longrightarrow> ld_bytes (mem s') (p + 32) k = ld_bytes (mem s) (p + 32) k"
    and "ld_bytes (mem s') v (unat (p_offset kv)) = ld_bytes (mem s) v (unat (p_offset kv))"
    and "ld_bytes (mem s') (v + unat (p_offset kv)) (unat (p_val_len kv)) = ld_bytes (mem s) (p_val kv) (unat (p_val_len kv))"
    and "ld_bytes (mem s') (v + (unat (p_offset kv) + unat (p_val_len kv))) c =
      ld_bytes (mem s) (v + (unat (p_offset kv) + unat (p_val_len kv))) c"
proof -
  let ?mk = "unat (max_key_len s)" and ?off = "unat (p_offset kv)" and ?vl = "unat (p_val_len kv)"
  define m3 where "m3 = memcpy (mem s) (v + ?off) (p_val kv) ?vl"
  define ch where "ch = ck (range_without m3 p (unat n) p)"
  have m': "mem s' = st_u64 m3 p ch"
    by (simp add: s'_def upd_tail_def Let_def checksum_insert [OF ck] m3_def ch_def v_def)
  show "mem_only s s'"
    unfolding s'_def upd_tail_def Let_def prod.case by (intro mem_only_then mem_only_upd mem_only_memcpy)
  have o3: "only (v + ?off) ?vl (mem s) m3"
    unfolding m3_def by (rule only_memcpy) auto
  have "only p B (mem s) m3" "only p B m3 (mem s')"
    using fit by (auto simp: m' v_def intro: only_mono [OF o3] only_st_u64)
  then show "only p B (mem s) (mem s')"
    by (rule only_trans)
  have same: "same_on a c (mem s') (mem s)" if "p + 8 \<le> a" "a + c \<le> v + ?off \<or> v + ?off + ?vl \<le> a" for a c
    unfolding m' by (rule same_on_trans [OF f64.same_on_put only_same_on [OF o3 that(2)]]) (use that in auto)
  show "same_on (p + 8) 24 (mem s') (mem s)"
    by (rule same) (simp_all add: v_def)
  show "fst (uc (mem s') p (unat n) p False)"
    by (simp add: checksum_verify [OF ck]) (simp add: m' ch_def)
  show "ld_bytes (mem s') (p + 32) k = ld_bytes (mem s) (p + 32) k" if "k \<le> ?mk"
    using that by (intro ld_bytes_cong same) (simp_all add: v_def)
  show "ld_bytes (mem s') v ?off = ld_bytes (mem s) v ?off"
      "ld_bytes (mem s') (v + (?off + ?vl)) c = ld_bytes (mem s) (v + (?off + ?vl)) c"
    by (intro ld_bytes_cong same; simp add: v_def)+
  show "ld_bytes (mem s') (v + ?off) ?vl = ld_bytes (mem s) (p_val kv) ?vl"
    unfolding m' m3_def by (simp add: v_def)
qed

lemma tput_fill_upd_parts:
  fixes s :: pmb_handle
  assumes "apart p B q C" "32 \<le> C" "32 + unat (max_key_len s) \<le> B" and "p_blk_id kv \<noteq> 0" "p_val_len kv \<noteq> 0"
  shows "tput_fill uc kv p q s = upd_tail uc kv p (upd_keep kv p q
    (ucast (of_nat sizeof_pmb_data_hdr + ucast (max_key_len s) + ucast (p_val_len kv + p_offset kv) :: u64)) (upd_head kv p q s))"
proof -
  let ?dl = "p_val_len kv + p_offset kv"
  have "only p B (mem s) (set_key_len (mem s) p (p_key_len kv))"
    using assms(3) by (auto simp: hdr_defs intro: only_st_u32)
  then have hq: "hdr_at (set_key_len (mem s) p (p_key_len kv)) q = hdr_at (mem s) q"
    using assms(1,2) by (rule hdr_apart)
  have cc: "ucast (ucast ?dl :: u64) = ?dl"
    using unat_lt_32 [of ?dl] by (intro unat_eqI) (simp add: unat_ucast_64_32)
  let ?n = "ucast (of_nat sizeof_pmb_data_hdr + ucast (max_key_len s) + ucast ?dl :: u64) :: u32"
  obtain n' s2 where k: "upd_keep kv p q ?n (upd_head kv p q s) = (n', s2)"
    by (cases "upd_keep kv p q ?n (upd_head kv p q s)")
  have "max_key_len (snd (tput_keep_old kv p q d n t)) = max_key_len t" for d n t
    by (simp add: tput_keep_old_def Let_def mem_only_simps [OF mem_only_memcpy(1)])
  then have "max_key_len (snd (upd_keep kv p q ?n (upd_head kv p q s))) = max_key_len s"
    by (simp add: upd_keep_def upd_head_def Let_def mem_only_simps [OF mem_only_memcpy(1)])
  then have mk: "max_key_len s2 = max_key_len s"
    using k by simp
  show ?thesis
    unfolding k using k assms(4,5) mk
    by (auto simp: tput_fill_def upd_tail_def upd_keep_def upd_head_def Let_def cc sizeof_pmb_data_hdr_def hq mem_only_simps [OF mem_only_memcpy(1)]
        split: if_splits)
qed

lemma tput_fill_upd:
  fixes s :: pmb_handle
  assumes ck: "checksum_spec uc ck" and a: "put_args s i kv" and upd: "p_blk_id kv \<noteq> 0" "p_val_len kv \<noteq> 0"
    and j: "block_ok (bck s) j" "j \<noteq> i" and off: "p_offset kv \<le> h_val_len (blk_hdr s j)"
    and fits: "32 + unat (max_key_len s) + unat (h_val_len (blk_hdr s j)) \<le> block_len (bck s) i"
      "32 + unat (max_key_len s) + unat (h_val_len (blk_hdr s j)) \<le> block_len (bck s) j"
  defines "p \<equiv> blk_ptr s i" and "q \<equiv> blk_ptr s j" and "ol \<equiv> unat (h_val_len (blk_hdr s j))"
  defines "s' \<equiv> tput_fill uc kv p q s"
  shows "mem_only s s'" and "only p (block_len (bck s) i) (mem s) (mem s')"
    and "h_id (hdr_at (mem s') p) = p_id kv" and "h_key_len (hdr_at (mem s') p) = p_key_len kv"
    and "h_version (hdr_at (mem s') p) = h_version (hdr_at (mem s) q) + 1"
    and "unat (h_val_len (hdr_at (mem s') p)) = max (unat (p_offset kv) + unat (p_val_len kv)) ol"
    and "ld_bytes (mem s') (p + 32) (unat (p_key_len kv)) = ld_bytes (mem s) (p_key kv) (unat (p_key_len kv))"
    and "ld_bytes (mem s') (p + 32 + unat (max_key_len s)) (max (unat (p_offset kv) + unat (p_val_len kv)) ol) =
      overlay (unat (p_offset kv)) (ld_bytes (mem s) (p_val kv) (unat (p_val_len kv)))
        (ld_bytes (mem s) (q + 32 + unat (max_key_len s)) ol)"
    and "sealed uc s' i"
proof -
  let ?B = "block_len (bck s) i" and ?C = "block_len (bck s) j" and ?mk = "unat (max_key_len s)" and ?kl = "unat (p_key_len kv)"
  let ?off = "unat (p_offset kv)" and ?vl = "unat (p_val_len kv)" and ?dl = "p_val_len kv + p_offset kv"
  have bo: "block_ok (bck s) i" and kl: "?kl \<le> ?mk" and fit: "32 + ?mk + ?off + ?vl \<le> ?B"
    and ka: "apart p ?B (p_key kv) ?kl" and va: "apart p ?B (p_val kv) ?vl"
    using a by (auto simp: put_args_def p_def)
  note dl = put_args_len(1) [OF a]
  have ap: "apart p ?B q ?C"
    unfolding p_def q_def using bo j by (intro bs.blocks_apart) auto
  have qB: "32 \<le> ?C" and small: "?B < 2 ^ 32" and mkB: "32 + ?mk \<le> ?B"
    using bs.extent_header j(1) block_len_32 [of "bck s" i] fit by simp_all
  have oln: "unat (h_val_len (hdr_at (mem s) q)) = ol" "?off \<le> ol" "32 + ?mk + ol \<le> ?B" "32 + ?mk + ol \<le> ?C"
    using off fits by (simp_all add: q_def ol_def word_le_unat)
  define s1 where "s1 = upd_head kv p q s"
  note h = upd_head_ok [OF ap qB mkB kl ka, folded s1_def]
  have s1: "max_key_len s1 = max_key_len s" "hdr_at (mem s1) q = hdr_at (mem s) q"
    using mem_only_simps [OF h(1)] h(3) by simp_all
  define n where "n = (ucast (of_nat sizeof_pmb_data_hdr + ucast (max_key_len s) + ucast ?dl :: u64) :: u32)"
  have n: "unat n = 32 + ?mk + unat ?dl"
    using fit dl small unat_block_size [of "max_key_len s" ?dl] by (simp add: n_def unat_ucast_64_32)
  obtain n' s2 where r: "upd_keep kv p q n s1 = (n', s2)"
    by (cases "upd_keep kv p q n s1")
  note k = upd_keep_ok [OF ap _ refl dl _ _ _ _ small h(7) r, unfolded s1 oln(1), OF oln(2) _ oln(3,4) n]
  have fit': "32 + ?mk + unat ?dl \<le> ?B"
    using fit dl by simp
  note k = k [OF fit']
  have mk2: "max_key_len s2 = max_key_len s"
    using mem_only_simps [OF k(1)] s1(1) by simp
  have run: "s' = upd_tail uc kv p (n', s2)"
    using r upd tput_fill_upd_parts [OF ap(1) qB mkB] unfolding s'_def n_def s1_def by simp
  note t = upd_tail_ok [OF ck, where s = s2 and kv = kv and B = ?B and p = p and n = n', folded run, unfolded mk2, OF fit]
  show mo: "mem_only s s'"
    by (rule mem_only_trans [OF mem_only_trans [OF h(1) k(1)] t(1)])
  show "only p ?B (mem s) (mem s')"
    by (rule only_trans [OF only_trans [OF h(2) k(2)] t(2)])
  have "same_on (p + 8) 16 (mem s2) (mem s1)"
    using k(4) by (rule same_on_sub) auto
  then have g: "ld_u64 (mem s2) (p + 8) = ld_u64 (mem s1) (p + 8)" "ld_u32 (mem s2) (p + 16) = ld_u32 (mem s1) (p + 16)"
      "ld_u32 (mem s2) (p + 20) = ld_u32 (mem s1) (p + 20)"
    by (auto intro!: f64.get_cong f32.get_cong elim!: same_on_sub)
  then show "h_id (hdr_at (mem s') p) = p_id kv" "h_key_len (hdr_at (mem s') p) = p_key_len kv"
      "h_version (hdr_at (mem s') p) = h_version (hdr_at (mem s) q) + 1"
    using h(4-6) by (simp_all add: hdr_at_tail [OF t(3)]) (simp_all add: hdr_at_def)
  show vlen: "unat (h_val_len (hdr_at (mem s') p)) = max (?off + ?vl) ol"
    using k(6) dl by (simp add: hdr_at_tail [OF t(3)])
  show "sealed uc s' i"
    using t(4) k(3) vlen dl unfolding sealed_def p_def [symmetric] mem_only_simps [OF mo] by simp
  show "ld_bytes (mem s') (p + 32) ?kl = ld_bytes (mem s) (p_key kv) ?kl"
    using t(5) [OF kl] ld_bytes_cong [OF same_on_sub [OF k(5), of "p + 32" ?kl]] h(8) kl by simp
  have old: "ld_bytes (mem s1) (q + 32 + ?mk + d) c = ld_bytes (mem s) (q + 32 + ?mk + d) c" if "d + c \<le> ol" for d c
    using only_apart [OF h(2) ap] that oln by (intro ld_bytes_cong) (auto elim!: same_on_sub)
  have v1: "ld_bytes (mem s') (p + 32 + ?mk) ?off = ld_bytes (mem s) (q + 32 + ?mk) ?off"
    using t(6) k(7) old [of 0 ?off] oln(2) by simp
  have v2: "ld_bytes (mem s') (p + 32 + ?mk + ?off) ?vl = ld_bytes (mem s) (p_val kv) ?vl"
    using t(7) ld_bytes_cong [OF only_apart [OF only_trans [OF h(2) k(2)] va]] by simp
  have v3: "ld_bytes (mem s') (p + 32 + ?mk + (?off + ?vl)) (ol - (?off + ?vl)) =
      ld_bytes (mem s) (q + 32 + ?mk + (?off + ?vl)) (ol - (?off + ?vl))"
    using t(8) [of "ol - (?off + ?vl)"] k(8) [unfolded dl] old [of "?off + ?vl" "ol - (?off + ?vl)"]
    by (cases "?off + ?vl \<le> ol") simp_all
  have "max (?off + ?vl) ol = ?off + (?vl + (ol - (?off + ?vl)))"
    by simp
  then show "ld_bytes (mem s') (p + 32 + ?mk) (max (?off + ?vl) ol) =
      overlay ?off (ld_bytes (mem s) (p_val kv) ?vl) (ld_bytes (mem s) (q + 32 + ?mk) ol)"
    using v1 v2 v3 oln(2) by (simp only: ld_bytes_append overlay_def length_ld_bytes ld_bytes_drop ld_bytes_take)
      (simp add: add.assoc)
qed

section \<open>Properties\<close>

text \<open>The effect of an update by copy.\<close>

lemma tput_update_effect:
  assumes ck: "checksum_spec uc ck" and ready: "put_ready s k rs i" and args: "put_args s i kv"
    and bufs: "client_bufs s k kv" and good: "\<not> tput_bad_args s k kv"
    and j: "j = p_blk_id kv" "block_ok (bck s) j" "present s j" "j \<notin> list_ids (free_list s)"
    and big: "\<not> p_val_len kv < max_val_len s div 2" "p_val_len kv \<noteq> 0"
    and off: "p_offset kv \<le> h_val_len (blk_hdr s j)"
    and old: "unat (h_val_len (blk_hdr s j)) \<le> unat (max_val_len s)" "block_len (bck s) j = block_len (bck s) i"
    and data: "i < total_objs_count s"
  shows "\<exists>s'. pmb_tput uc (Some s) k (Some kv) = (PMB_OK, Some (kv\<lparr>p_blk_id := i\<rparr>), Some s') \<and>
    mem_only (s\<lparr>free_list := free_list s'\<rparr>) s' \<and> tx_holds s' k PROCESSING (rs @ [LUpdate j i]) \<and> list_wf (free_list s') \<and>
    list_ids (free_list s') = list_ids (free_list s) - {i} \<and> sealed uc s' i \<and>
    (\<forall>b. block_ok (bck s) b \<longrightarrow> b \<noteq> i \<longrightarrow> same_on (blk_ptr s b) (block_len (bck s) b) (mem s') (mem s)) \<and>
    slot_kept s k s' \<and> fits s' i \<and> obj_at s' i = \<lparr>ob_id = p_id kv, ob_version = h_version (blk_hdr s j) + 1,
      ob_key = ld_bytes (mem s) (p_key kv) (unat (p_key_len kv)),
      ob_val = overlay (unat (p_offset kv)) (ld_bytes (mem s) (p_val kv) (unat (p_val_len kv)))
        (ld_bytes (mem s) (blk_ptr s j + 32 + unat (max_key_len s)) (unat (h_val_len (blk_hdr s j))))\<rparr>"
proof -
  obtain l where pop: "caslist_pop (free_list s) (Some 0) = (0, Some i, l)" "list_wf l"
      "list_ids l = list_ids (free_list s) - {i}"
    using ready by (rule put_ready_pop)
  have ji: "j \<noteq> i" "j \<noteq> 0"
    using j ready by (auto simp: put_ready_def present_def)
  define s1 where "s1 = s\<lparr>free_list := l\<rparr>"
  have h1: "tx_holds s1 k PROCESSING rs" and room: "slot_size s1 k + 24 \<le> slot_cap s1" and bo: "block_ok (bck s) i"
    using ready args by (auto simp: put_ready_def put_args_def s1_def)
  let ?len = "ucast (of_nat sizeof_pmb_data_hdr + ucast (max_key_len s) + ucast (p_val_len kv + p_offset kv) :: u64) :: u32"
  obtain s2 where s2: "tx_slot_op_update s1 k j i ?len = (PMB_OK, s2)" "tx_holds s2 k PROCESSING (rs @ [LUpdate j i])" "slot_only s1 k s2"
    using op_update_appends [OF h1 room] by blast
  note reg = registered [OF h1 s2(3)]
  have c1: "bck s1 = bck s" "mem s1 = mem s" "max_key_len s1 = max_key_len s" "max_val_len s1 = max_val_len s"
      "total_objs_count s1 = total_objs_count s" "client_bufs s1 k kv" "free_list s1 = l"
    using bufs by (simp_all add: s1_def client_bufs_def)
  note mo = reg(1) [OF bo [folded c1(1)]] note c2 = mem_only_simps [OF mo] c1
  have args2: "put_args s2 i kv"
    using args put_args_cong [of s2 s i kv] c2 by simp
  let ?p = "blk_ptr s i" and ?q = "blk_ptr s j" and ?mk = "unat (max_key_len s)" and ?ol = "unat (h_val_len (blk_hdr s j))"
  have p2: "blk_ptr s2 i = ?p" "blk_ptr s2 j = ?q"
    by (simp_all add: c2)
  have sj: "same_on ?q (block_len (bck s) j) (mem s2) (mem s)"
    using reg(2) [of j] j(2) by (simp add: c1)
  then have hj: "hdr_at (mem s2) ?q = blk_hdr s j"
    by (rule hdr_same_block [OF j(2)])
  have fitj: "32 + ?mk + ?ol \<le> block_len (bck s) j"
    using args old by (simp add: put_args_def)
  define s' where "s' = tput_fill uc kv ?p ?q s2"
  have jj: "block_ok (bck s2) j" and oo: "p_offset kv \<le> h_val_len (blk_hdr s2 j)"
    and ff: "32 + unat (max_key_len s2) + unat (h_val_len (blk_hdr s2 j)) \<le> block_len (bck s2) i"
      "32 + unat (max_key_len s2) + unat (h_val_len (blk_hdr s2 j)) \<le> block_len (bck s2) j"
    using j(2) off fitj old(2) unfolding p2 hj by (simp_all add: c2)
  note fill = tput_fill_upd [OF ck args2 _ big(2) jj ji(1) oo ff, unfolded p2 hj, folded s'_def]
  have u: "p_blk_id kv \<noteq> 0"
    using ji j(1) by simp
  have bo2: "block_ok (bck s2) i"
    using bo by (simp add: c2)
  note fld = filled [OF s2(2) bo2 fill(1) [OF u] fill(2) [OF u, folded p2]]
  have "\<not> max_val_len s < p_offset kv + p_val_len kv"
    using args put_args_len(1) [OF args] by (simp add: word_less_unat put_args_def add.commute)
  then have put: "pmb_tput uc (Some s) k (Some kv) = (PMB_OK, Some (kv\<lparr>p_blk_id := i\<rparr>), Some s')"
    using good big u pop(1) bs.direct_not_null [OF bo] s2(1) backend_get_present [OF j(2)] j(1,3) bs.direct_not_null [OF j(2)]
    by (simp add: pmb_tput_def tput_new_block_def Let_def s'_def flip: s1_def)
  have same: "same_on (blk_ptr s b) (block_len (bck s) b) (mem s') (mem s)" if "block_ok (bck s) b" "b \<noteq> i" for b
    using fld(2) [of b] reg(2) [of b] that by (auto simp: c2 intro: same_on_trans)
  have c3: "bck s' = bck s" "max_key_len s' = max_key_len s" "total_objs_count s' = total_objs_count s" "free_list s' = l"
    using mem_only_simps [OF fill(1) [OF u]] c2 by simp_all
  have "ld_bytes (mem s2) (?q + 32 + ?mk) ?ol = ld_bytes (mem s) (?q + 32 + ?mk) ?ol"
    using fitj by (intro ld_bytes_cong same_on_sub [OF sj]) auto
  then have val: "ld_bytes (mem s') (?p + 32 + ?mk) (unat (h_val_len (blk_hdr s' i))) =
      overlay (unat (p_offset kv)) (ld_bytes (mem s) (p_val kv) (unat (p_val_len kv))) (ld_bytes (mem s) (?q + 32 + ?mk) ?ol)"
    using fill(6,8) [OF u] reg(5) [OF bo [folded c1(1)] c1(6)] by (simp add: c2 c3)
  have key: "ld_bytes (mem s') (?p + 32) (unat (p_key_len kv)) = ld_bytes (mem s) (p_key kv) (unat (p_key_len kv))"
    using fill(7) [OF u] reg(4) [OF bo [folded c1(1)] c1(6)] by (simp add: c2)
  have hd: "h_id (blk_hdr s' i) = p_id kv" "h_version (blk_hdr s' i) = h_version (blk_hdr s j) + 1"
      "h_key_len (blk_hdr s' i) = p_key_len kv"
      "unat (h_val_len (blk_hdr s' i)) = max (unat (p_offset kv) + unat (p_val_len kv)) ?ol"
    using fill(3,4,5,6) [OF u] by (simp_all add: c3)
  have "obj_at s' i = \<lparr>ob_id = p_id kv, ob_version = h_version (blk_hdr s j) + 1,
      ob_key = ld_bytes (mem s) (p_key kv) (unat (p_key_len kv)),
      ob_val = overlay (unat (p_offset kv)) (ld_bytes (mem s) (p_val kv) (unat (p_val_len kv))) (ld_bytes (mem s) (?q + 32 + ?mk) ?ol)\<rparr>"
    unfolding obj_at_def val_start_def using data key val hd(1-3) by (simp add: c3 add.assoc)
  moreover have "fits s' i"
    unfolding fits_def obj_len_def hd(3,4) using args old(1) by (auto simp: c3 put_args_def)
  moreover have "mem_only (s\<lparr>free_list := free_list s'\<rparr>) s'"
    using mem_only_trans [OF mo fill(1) [OF u]] by (simp add: c3 s1_def)
  moreover have "slot_kept s k s'"
    using slots_kept_trans [OF reg(3) block_change_kept [OF bo2 fill(2) [OF u, folded p2]]] bo c2 slots_kept_cong [of s1 s] by simp
  ultimately show ?thesis
    using put fld(1) same pop(2,3) fill(5,9) [OF u] by (simp add: c3)
qed

text \<open>
  C17: an update is a copy-on-write. \<open>pmb_tput\<close> on an existing object, with a value too long for an
  in-place update and an offset inside the old value, succeeds, takes the lowest free block
  and registers the update; the new block holds the old value with the client's bytes laid
  over it, the version is one higher, the checksum is valid; the old object and every other
  block keep all their bytes.
\<close>

theorem pmb_tput_update_copies:
  assumes ck: "checksum_spec uc ck" and ready: "put_ready s k rs i" and args: "put_args s i kv"
    and bufs: "client_bufs s k kv" and good: "\<not> tput_bad_args s k kv"
    and j: "j = p_blk_id kv" "block_ok (bck s) j" "present s j" "j \<notin> list_ids (free_list s)"
    and big: "\<not> p_val_len kv < max_val_len s div 2" "p_val_len kv \<noteq> 0"
    and off: "p_offset kv \<le> h_val_len (blk_hdr s j)"
    and old: "unat (h_val_len (blk_hdr s j)) \<le> unat (max_val_len s)" "block_len (bck s) j = block_len (bck s) i"
    and data: "i < total_objs_count s"
  shows "\<exists>s'. pmb_tput uc (Some s) k (Some kv) = (PMB_OK, Some (kv\<lparr>p_blk_id := i\<rparr>), Some s') \<and>
    tx_holds s' k PROCESSING (rs @ [LUpdate j i]) \<and> list_wf (free_list s') \<and>
    list_ids (free_list s') = list_ids (free_list s) - {i} \<and> sealed uc s' i \<and>
    h_version (blk_hdr s' i) = h_version (blk_hdr s j) + 1 \<and>
    (\<forall>b. block_ok (bck s) b \<longrightarrow> b \<noteq> i \<longrightarrow> same_on (blk_ptr s b) (block_len (bck s) b) (mem s') (mem s)) \<and>
    (present s' i \<longrightarrow> reads_back s' i kv0 (ld_bytes (mem s) (p_key kv) (unat (p_key_len kv)))
      (overlay (unat (p_offset kv)) (ld_bytes (mem s) (p_val kv) (unat (p_val_len kv)))
        (ld_bytes (mem s) (blk_ptr s j + 32 + unat (max_key_len s)) (unat (h_val_len (blk_hdr s j))))) (p_id kv))"
proof -
  obtain s' where s': "pmb_tput uc (Some s) k (Some kv) = (PMB_OK, Some (kv\<lparr>p_blk_id := i\<rparr>), Some s')"
      "mem_only (s\<lparr>free_list := free_list s'\<rparr>) s'" "tx_holds s' k PROCESSING (rs @ [LUpdate j i])" "list_wf (free_list s')"
      "list_ids (free_list s') = list_ids (free_list s) - {i}" "sealed uc s' i"
      "\<forall>b. block_ok (bck s) b \<longrightarrow> b \<noteq> i \<longrightarrow> same_on (blk_ptr s b) (block_len (bck s) b) (mem s') (mem s)"
      "obj_at s' i = \<lparr>ob_id = p_id kv, ob_version = h_version (blk_hdr s j) + 1,
        ob_key = ld_bytes (mem s) (p_key kv) (unat (p_key_len kv)),
        ob_val = overlay (unat (p_offset kv)) (ld_bytes (mem s) (p_val kv) (unat (p_val_len kv)))
          (ld_bytes (mem s) (blk_ptr s j + 32 + unat (max_key_len s)) (unat (h_val_len (blk_hdr s j))))\<rparr>"
    using tput_update_effect [OF assms] by blast
  moreover have "block_ok (bck s') i"
    using args mem_only_simps(1) [OF s'(2)] by (simp add: put_args_def)
  moreover have "h_version (blk_hdr s' i) = ob_version (obj_at s' i)"
    by (simp add: obj_at_def)
  ultimately show ?thesis
    using reads_back_obj [of s' i kv0] by auto
qed

theorem pmb_tput_update_copies_witness:
  "\<exists>s'. pmb_tput sample_uc (Some sample_busy) 1 (Some (sample_pair 5 4 600)) =
      (PMB_OK, Some (sample_pair 10 4 600), Some s') \<and> tx_holds s' 1 PROCESSING [LUpdate 5 10] \<and>
    h_version (blk_hdr s' 10) = 4"
proof -
  have "put_ready sample_busy 1 [] 10" "put_args sample_busy 10 (sample_pair 5 4 600)" "client_bufs sample_busy 1 (sample_pair 5 4 600)"
      "5 = p_blk_id (sample_pair 5 4 600)" "block_ok (bck sample_busy) 5" "present sample_busy 5" "5 \<notin> list_ids (free_list sample_busy)"
      "\<not> tput_bad_args sample_busy 1 (sample_pair 5 4 600)" "10 < total_objs_count sample_busy"
      "\<not> p_val_len (sample_pair 5 4 600) < max_val_len sample_busy div 2" "p_val_len (sample_pair 5 4 600) \<noteq> 0"
      "p_offset (sample_pair 5 4 600) \<le> h_val_len (blk_hdr sample_busy 5)"
      "unat (h_val_len (blk_hdr sample_busy 5)) \<le> unat (max_val_len sample_busy)"
      "block_len (bck sample_busy) 5 = block_len (bck sample_busy) 10"
      "(sample_pair 5 4 600)\<lparr>p_blk_id := 10\<rparr> = sample_pair 10 4 600" "h_version (blk_hdr sample_busy 5) + 1 = 4"
    by (simp_all add: put_ready_def put_args_def client_bufs_def tput_bad_args_def sample_pair_def apart_def present_def sample_busy_facts)
  then show ?thesis
    using pmb_tput_update_copies [OF sample_checksum, of sample_busy 1 "[]" 10 "sample_pair 5 4 600" 5 "sample_pair 0 0 0"] by auto
qed

end
