(* ===== verification/Refine.thy ===== *)
theory Refine
  imports Put_Update
begin

text \<open>
  The store as a client sees it, a map from identifiers to objects, and the refinement
  theorems: executing a committed transaction is the fold of a map update over the records
  of its log, aborting it is a restriction of the map.
\<close>

section \<open>The abstract store\<close>

text \<open>
  \<open>in_block\<close>: key and value of the object in a block do not overlap and lie inside the block. \<open>store_ok\<close>, the
  invariant of the store: that is so for every object.
\<close>

definition in_block :: "pmb_handle \<Rightarrow> u64 \<Rightarrow> bool" where
  "in_block s i \<longleftrightarrow> 32 + unat (h_key_len (blk_hdr s i)) \<le> val_start s i \<and>
     val_start s i + unat (h_val_len (blk_hdr s i)) \<le> block_len (bck s) i"

definition store_ok :: "pmb_handle \<Rightarrow> bool" where
  "store_ok s \<longleftrightarrow> (\<forall>i. block_ok (bck s) i \<and> present s i \<longrightarrow> in_block s i)"

definition store :: "pmb_handle \<Rightarrow> u64 \<rightharpoonup> pmb_obj" where
  "store s i = (if block_ok (bck s) i \<and> present s i then Some (obj_at s i) else None)"

definition conf_same :: "pmb_handle \<Rightarrow> pmb_handle \<Rightarrow> bool" where
  "conf_same s s' \<longleftrightarrow> bck s' = bck s \<and> total_objs_count s' = total_objs_count s \<and> max_key_len s' = max_key_len s"

lemma conf_same_eq: "conf_eq s s' \<Longrightarrow> conf_same s s'" "mem_only s s' \<Longrightarrow> conf_same s s'"
  by (simp_all add: conf_same_def conf_eq_def mem_only_simps)

lemma block_same_obj:
  assumes c: "conf_same s s'" and b: "block_ok (bck s) i"
    and same: "same_on (blk_ptr s i) (block_len (bck s) i) (mem s') (mem s)"
  shows "blk_hdr s' i = blk_hdr s i" and "present s' i = present s i" and "in_block s' i = in_block s i"
    and "in_block s i \<Longrightarrow> obj_at s' i = obj_at s i"
proof -
  have c': "bck s' = bck s" "total_objs_count s' = total_objs_count s" "max_key_len s' = max_key_len s"
    using c by (simp_all add: conf_same_def)
  show h: "blk_hdr s' i = blk_hdr s i"
    using hdr_same_block [OF b same] by (simp add: c')
  then show "present s' i = present s i"
    by (simp add: present_def)
  have vs: "val_start s' i = val_start s i"
    using h by (simp add: val_start_def c')
  then show "in_block s' i = in_block s i"
    using h by (simp add: in_block_def c')
  assume ib: "in_block s i"
  have "ld_bytes (mem s') (blk_ptr s i + 32) (unat (h_key_len (blk_hdr s i))) =
      ld_bytes (mem s) (blk_ptr s i + 32) (unat (h_key_len (blk_hdr s i)))"
    "ld_bytes (mem s') (blk_ptr s i + val_start s i) (unat (h_val_len (blk_hdr s i))) =
      ld_bytes (mem s) (blk_ptr s i + val_start s i) (unat (h_val_len (blk_hdr s i)))"
    using ib by (auto simp: in_block_def intro!: ld_bytes_cong same_on_sub [OF same])
  then show "obj_at s' i = obj_at s i"
    unfolding obj_at_def h vs by (simp add: c')
qed

lemma store_same:
  assumes "conf_same s s'" and "store_ok s"
    and "block_ok (bck s) i \<Longrightarrow> same_on (blk_ptr s i) (block_len (bck s) i) (mem s') (mem s)"
  shows "store s' i = store s i"
proof (cases "block_ok (bck s) i")
  case True
  note b = block_same_obj [OF assms(1) True assms(3) [OF True]]
  have "bck s' = bck s"
    using assms(1) by (simp add: conf_same_def)
  then show ?thesis
    using b(2,4) assms(2) True by (simp add: store_def store_ok_def)
next
  case False
  then show ?thesis
    using assms(1) by (simp add: store_def conf_same_def)
qed

text \<open>What the client gets is the abstract object.\<close>

lemma store_get: "store s i = Some ob \<Longrightarrow> reads_back s i kv0 (ob_key ob) (ob_val ob) (ob_id ob)"
  using reads_back_obj [of s i kv0] by (auto simp: store_def split: if_splits)

section \<open>The abstract transaction\<close>

definition patch :: "nat \<Rightarrow> u8 list \<Rightarrow> pmb_obj \<Rightarrow> pmb_obj" where
  "patch off bs ob = ob\<lparr>ob_version := ob_version ob + 1, ob_val := overlay off bs (ob_val ob)\<rparr>"

fun spec_rec :: "log_rec \<Rightarrow> (u64 \<rightharpoonup> pmb_obj) \<Rightarrow> (u64 \<rightharpoonup> pmb_obj)" where
  "spec_rec (LUpdate old new) m = m(old := None)"
| "spec_rec (LRemove i) m = m(i := None)"
| "spec_rec (LInplace i off bs) m = m(i := map_option (patch (unat off) bs) (m i))"
| "spec_rec r m = m"

fun rec_patch :: "u64 \<Rightarrow> log_rec \<Rightarrow> pmb_obj \<Rightarrow> pmb_obj" where
  "rec_patch j (LInplace i off bs) ob = (if i = j then patch (unat off) bs ob else ob)"
| "rec_patch j r ob = ob"

text \<open>The in-place updates of an object start inside or right behind the value, as it is then.\<close>

fun no_gap :: "u64 \<Rightarrow> log_rec list \<Rightarrow> nat \<Rightarrow> bool" where
  "no_gap j [] e \<longleftrightarrow> True"
| "no_gap j (LInplace i off bs # rs) e \<longleftrightarrow> (i = j \<longrightarrow> unat off \<le> e) \<and> no_gap j rs (rec_end j (LInplace i off bs) e)"
| "no_gap j (r # rs) e \<longleftrightarrow> no_gap j rs e"

lemma spec_rec_None: "m i = None \<Longrightarrow> spec_rec r m i = None"
  by (cases r) auto

lemma spec_recs_None: "m i = None \<Longrightarrow> fold spec_rec rs m i = None"
  by (induction rs arbitrary: m) (simp_all add: spec_rec_None)

lemma spec_recs_released: "i \<in> released_ids rs \<Longrightarrow> fold spec_rec rs m i = None"
proof (induction rs arbitrary: m)
  case (Cons r rs)
  show ?case
  proof (cases "i \<in> released r")
    case True
    then have "spec_rec r m i = None"
      by (cases r) auto
    then show ?thesis
      by (simp add: spec_recs_None)
  next
    case False
    then show ?thesis
      using Cons by simp
  qed
qed simp

lemma spec_recs_other:
  assumes "i \<notin> released_ids rs"
  shows "fold spec_rec rs m i = map_option (fold (rec_patch i) rs) (m i)"
  using assms
proof (induction rs arbitrary: m)
  case (Cons r rs)
  have "spec_rec r m i = map_option (rec_patch i r) (m i)"
    using Cons.prems by (cases r; cases "m i") auto
  then show ?case
    using Cons by (simp add: option.map_comp comp_def)
qed (simp add: option.map_id)

lemma rec_patch_other: "i \<notin> inplace_ids rs \<Longrightarrow> fold (rec_patch i) rs ob = ob"
proof (induction rs arbitrary: ob)
  case (Cons r rs)
  then have "rec_patch i r ob = ob"
    by (cases r) auto
  then show ?case
    using Cons by simp
qed simp

section \<open>In-place updates as patches\<close>

lemma overlay_take:
  assumes "off \<le> e" and "e \<le> length a" and "off + length bs \<le> length a"
  shows "overlay off bs (take e a) = take (max e (off + length bs)) (overlay off bs a)"
  using assms by (auto simp: overlay_def min_def max_def take_drop)

lemma length_overlay: "off + length bs \<le> length a \<Longrightarrow> length (overlay off bs a) = length a"
  by (simp add: overlay_def)

text \<open>The records of a log, one after the other: the value is what the area holds up to the current end.\<close>

lemma fold_rec_patch:
  assumes "no_gap j rs e" and "e \<le> length a" and "ob_val ob = take e a"
    and "\<forall>off bs. LInplace j off bs \<in> set rs \<longrightarrow> unat off + length bs \<le> length a"
  shows "fold (rec_patch j) rs ob = ob\<lparr>ob_version := ob_version ob + of_nat (length (filter (\<lambda>r. j \<in> inplaced r) rs)),
    ob_val := take (fold (rec_end j) rs e) (fold (rec_overlay j) rs a)\<rparr>"
  using assms
proof (induction rs arbitrary: e a ob)
  case (Cons r rs)
  show ?case
  proof (cases "j \<in> inplaced r")
    case True
    then obtain off bs where r: "r = LInplace j off bs"
      by (cases r) auto
    have fit: "unat off + length bs \<le> length a" and gap: "unat off \<le> e"
      using Cons.prems(1,4) r by auto
    have "fold (rec_patch j) rs (patch (unat off) bs ob) = (patch (unat off) bs ob)\<lparr>
        ob_version := ob_version (patch (unat off) bs ob) + of_nat (length (filter (\<lambda>r. j \<in> inplaced r) rs)),
        ob_val := take (fold (rec_end j) rs (max e (unat off + length bs))) (fold (rec_overlay j) rs (overlay (unat off) bs a))\<rparr>"
    proof (rule Cons.IH)
      show "no_gap j rs (max e (unat off + length bs))"
        using Cons.prems(1) r by simp
      show "max e (unat off + length bs) \<le> length (overlay (unat off) bs a)"
        using Cons.prems(2) fit by (simp add: length_overlay)
      show "ob_val (patch (unat off) bs ob) = take (max e (unat off + length bs)) (overlay (unat off) bs a)"
        using overlay_take [OF gap Cons.prems(2) fit] Cons.prems(3) by (simp add: patch_def)
      show "\<forall>off' bs'. LInplace j off' bs' \<in> set rs \<longrightarrow> unat off' + length bs' \<le> length (overlay (unat off) bs a)"
        using Cons.prems(4) fit by (simp add: length_overlay)
    qed
    then show ?thesis
      using r by (simp add: patch_def add.assoc)
  next
    case False
    then have "rec_patch j r x = x" "rec_end j r d = d" "rec_overlay j r y = y" "no_gap j (r # rs) d \<longleftrightarrow> no_gap j rs d" for x d y
      by (cases r; simp)+
    then show ?thesis
      using Cons False by simp
  qed
qed simp

section \<open>Execution and abort refine the specification\<close>

text \<open>The objects that the log updates in place are data objects, and no update leaves a gap.\<close>

definition inplace_ok :: "pmb_handle \<Rightarrow> log_rec list \<Rightarrow> bool" where
  "inplace_ok s rs \<longleftrightarrow> (\<forall>i\<in>inplace_ids rs. present s i \<and> i < total_objs_count s \<and>
     no_gap i rs (unat (h_val_len (blk_hdr s i))))"

lemma val_area_value:
  assumes "i < total_objs_count s" and "32 + unat (max_key_len s) + unat (h_val_len (blk_hdr s i)) \<le> block_len (bck s) i"
  shows "ob_val (obj_at s i) = take (unat (h_val_len (blk_hdr s i))) (val_area s i)"
  using assms ld_bytes_take [of "unat (h_val_len (blk_hdr s i))" "block_len (bck s) i - (32 + unat (max_key_len s))"]
  by (simp add: obj_at_def val_start_def val_area_def add.assoc)

lemma length_val_area: "length (val_area s i) = block_len (bck s) i - (32 + unat (max_key_len s))"
  by (simp add: val_area_def)

text \<open>An object that was updated in place.\<close>

lemma execute_patches:
  assumes ck: "checksum_spec uc ck" and ready: "exec_ready s k rs" and ok: "store_ok s" and ip: "inplace_ok s rs"
    and j: "j \<in> inplace_ids rs" and run: "tx_slot_execute uc s k = Inr (PMB_OK, s')" and c: "conf_same s s'"
  shows "obj_at s' j = fold (rec_patch j) rs (obj_at s j)" and "in_block s' j"
proof -
  have c': "bck s' = bck s" "total_objs_count s' = total_objs_count s" "max_key_len s' = max_key_len s"
    using c by (simp_all add: conf_same_def)
  have e: "val_area s' j = fold (rec_overlay j) rs (val_area s j)"
      "h_version (blk_hdr s' j) = h_version (blk_hdr s j) + of_nat (length (filter (\<lambda>r. j \<in> inplaced r) rs))"
      "unat (h_val_len (blk_hdr s' j)) = fold (rec_end j) rs (unat (h_val_len (blk_hdr s j)))"
      "h_key_len (blk_hdr s' j) = h_key_len (blk_hdr s j)" "h_id (blk_hdr s' j) = h_id (blk_hdr s j)"
      "same_on (blk_ptr s j + 32) (unat (max_key_len s)) (mem s') (mem s)"
    using execute_in_place [OF ck ready j] run by auto
  have rs: "\<forall>r\<in>set rs. rec_ok s r" and fit: "32 + unat (max_key_len s) + unat (h_val_len (blk_hdr s j)) \<le> block_len (bck s) j"
    using exec_readyD(2,5) [OF ready] j by blast+
  have pr: "present s j" "j < total_objs_count s" "no_gap j rs (unat (h_val_len (blk_hdr s j)))"
    using ip j by (auto simp: inplace_ok_def)
  have ib: "in_block s j"
    using ok rs j pr(1) rec_ok_inplaced unfolding store_ok_def by blast
  have vl: "unat (h_val_len (blk_hdr s' j)) = unat (snd (fold (rec_bump j) rs (h_version (blk_hdr s j), h_val_len (blk_hdr s j))))"
    using fold_rec_bump(2) [OF rs] e(3) by simp
  have fit': "32 + unat (max_key_len s') + unat (h_val_len (blk_hdr s' j)) \<le> block_len (bck s') j"
    using rec_bump_fits [OF rs, of "(h_version (blk_hdr s j), h_val_len (blk_hdr s j))" j] fit vl by (simp add: c')
  have kl: "unat (h_key_len (blk_hdr s j)) \<le> unat (max_key_len s)"
    using ib pr(2) by (simp add: in_block_def val_start_def)
  show "in_block s' j"
    using fit' kl pr(2) e(4) by (simp add: in_block_def val_start_def c')
  have room: "\<forall>off bs. LInplace j off bs \<in> set rs \<longrightarrow> unat off + length bs \<le> length (val_area s j)"
    using rs by (fastforce simp: length_val_area)
  have "fold (rec_patch j) rs (obj_at s j) = (obj_at s j)\<lparr>
      ob_version := ob_version (obj_at s j) + of_nat (length (filter (\<lambda>r. j \<in> inplaced r) rs)),
      ob_val := take (fold (rec_end j) rs (unat (h_val_len (blk_hdr s j)))) (fold (rec_overlay j) rs (val_area s j))\<rparr>"
    using pr(3) _ val_area_value [OF pr(2) fit] room by (rule fold_rec_patch) (use fit in \<open>simp add: length_val_area\<close>)
  also have "\<dots> = (obj_at s j)\<lparr>ob_version := h_version (blk_hdr s' j), ob_val := ob_val (obj_at s' j)\<rparr>"
    using val_area_value [OF _ fit'] pr(2) e(1-3) c'(2) by (simp add: obj_at_def)
  also have "\<dots> = obj_at s' j"
  proof -
    have "ld_bytes (mem s') (blk_ptr s j + 32) (unat (h_key_len (blk_hdr s j))) =
        ld_bytes (mem s) (blk_ptr s j + 32) (unat (h_key_len (blk_hdr s j)))"
      using kl by (intro ld_bytes_cong same_on_sub [OF e(6)]) auto
    then show ?thesis
      using e(4,5) c' by (simp add: obj_at_def)
  qed
  finally show "obj_at s' j = fold (rec_patch j) rs (obj_at s j)"
    by simp
qed

lemma execute_refines:
  assumes ck: "checksum_spec uc ck" and ready: "exec_ready s k rs" and ok: "store_ok s" and ip: "inplace_ok s rs"
  shows "\<exists>s'. tx_slot_execute uc s k = Inr (PMB_OK, s') \<and> store_ok s' \<and>
    ((\<forall>i\<in>inplace_ids rs. present s' i) \<longrightarrow> store s' = fold spec_rec rs (store s))"
proof -
  obtain s' where run: "tx_slot_execute uc s k = Inr (PMB_OK, s')" and ce: "conf_eq s s'"
      and gone: "\<And>i. block_ok (bck s) i \<Longrightarrow> i \<in> released_ids rs \<Longrightarrow> \<not> present s' i"
      and same: "\<And>j. block_ok (bck s) j \<Longrightarrow> j \<notin> released_ids rs \<union> inplace_ids rs \<Longrightarrow>
        same_on (blk_ptr s j) (block_len (bck s) j) (mem s') (mem s)"
    using execute_release [OF ck ready] by (elim exE conjE) blast
  have c: "conf_same s s'" "bck s' = bck s"
    using ce by (simp_all add: conf_same_def conf_eq_def)
  note patched = execute_patches [OF ck ready ok ip _ run c(1)]
  have rs: "\<forall>r\<in>set rs. rec_ok s r" and dis: "inplace_ids rs \<inter> released_ids rs = {}"
    using exec_readyD(2,3) [OF ready] by blast+
  have "in_block s' i" if i: "block_ok (bck s) i" "present s' i" for i
  proof (cases "i \<in> inplace_ids rs")
    case False
    have "i \<notin> released_ids rs"
      using gone [of i] i by blast
    then have b: "same_on (blk_ptr s i) (block_len (bck s) i) (mem s') (mem s)"
      using False i(1) by (intro same) auto
    show ?thesis
      using block_same_obj(2,3) [OF c(1) i(1) b] i ok by (simp add: store_ok_def)
  qed (rule patched(2))
  then have "store_ok s'"
    by (simp add: store_ok_def c)
  moreover have "store s' i = fold spec_rec rs (store s) i" if pr: "\<forall>i\<in>inplace_ids rs. present s' i" for i
  proof -
    consider (no) "\<not> block_ok (bck s) i" | (gone) "block_ok (bck s) i" "i \<in> released_ids rs"
      | (patch) "block_ok (bck s) i" "i \<in> inplace_ids rs" "i \<notin> released_ids rs"
      | (keep) "block_ok (bck s) i" "i \<notin> released_ids rs \<union> inplace_ids rs"
      using dis by blast
    then show ?thesis
    proof cases
      case no
      then show ?thesis
        using spec_recs_None [of "store s" i rs] by (simp add: store_def c)
    next
      case gone: gone
      then have "store s' i = None"
        using \<open>\<And>i. block_ok (bck s) i \<Longrightarrow> i \<in> released_ids rs \<Longrightarrow> \<not> present s' i\<close> [of i] by (simp add: store_def)
      then show ?thesis
        using spec_recs_released [OF gone(2)] by simp
    next
      case patch
      have "present s i" "present s' i"
        using ip pr patch(2) unfolding inplace_ok_def by blast+
      then show ?thesis
        using patch pr patched(1) [OF patch(2)] spec_recs_other [OF patch(3), of "store s"] by (simp add: store_def c)
    next
      case keep
      then have "store s' i = store s i"
        using same by (intro store_same [OF c(1) ok]) blast
      then show ?thesis
        using keep(2) spec_recs_other [of i rs "store s"] rec_patch_other [of i rs] by (cases "store s i") simp_all
    qed
  qed
  ultimately show ?thesis
    using run by (blast intro: ext)
qed

text \<open>Abort forgets what the transaction wrote.\<close>

lemma abort_refines:
  assumes ck: "checksum_spec uc ck" and ready: "abort_ready s k rs" and ok: "store_ok s"
  shows "\<exists>s'. tx_slot_abort uc s k = (PMB_OK, s') \<and> store_ok s' \<and> store s' = store s |` (- written_ids rs)"
proof -
  obtain s' where run: "tx_slot_abort uc s k = (PMB_OK, s')" and ce: "conf_eq s s'"
      and gone: "\<And>i. i \<in> written_ids rs \<Longrightarrow> \<not> present s' i"
      and same: "\<And>j. block_ok (bck s) j \<Longrightarrow> j \<notin> written_ids rs \<Longrightarrow> same_on (blk_ptr s j) (block_len (bck s) j) (mem s') (mem s)"
    using abort_revert [OF ck ready] by (elim exE conjE) blast
  have c: "conf_same s s'" "bck s' = bck s"
    using ce by (simp_all add: conf_same_def conf_eq_def)
  have "in_block s' i" if i: "block_ok (bck s) i" "present s' i" for i
    using block_same_obj(2,3) [OF c(1) i(1) same [OF i(1)]] gone [of i] i ok by (auto simp: store_ok_def)
  moreover have "store s' i = (store s |` (- written_ids rs)) i" for i
  proof (cases "i \<in> written_ids rs")
    case True
    then show ?thesis
      using gone [OF True] by (simp add: store_def)
  next
    case False
    then show ?thesis
      using store_same [OF c(1) ok same [of i]] by simp
  qed
  ultimately show ?thesis
    using run c(2) by (auto simp: store_ok_def)
qed

section \<open>Properties\<close>

text \<open>The objects of the sample store with a committed transaction are those in the blocks 5 and 6.\<close>

lemma sample_mem_blank:
  assumes i: "block_ok (bck sample_tx) i" "i \<noteq> 5" "i \<noteq> 6"
  shows "\<not> present sample_tx i"
proof -
  define m0 :: memory where "m0 = (\<lambda>_. 0)"
  define m1 where "m1 = set_val_len (set_key_len (set_version (set_id (set_flch64 m0 0x18007000 77) 0x18007000 9) 0x18007000 3) 0x18007000 3) 0x18007000 8"
  define m2 where "m2 = set_val_len (set_key_len (set_version (set_id (set_flch64 m1 0x18008000 78) 0x18008000 10) 0x18008000 1) 0x18008000 3) 0x18008000 5"
  have "only 0x18007000 4096 m0 m1" "only 0x18008000 4096 m1 m2"
    by (simp_all add: m1_def m2_def hdr_defs only_after)
  moreover have "only 0x10002000 0x800000 m2 sample_mem"
    unfolding sample_mem_def Let_def m0_def [symmetric] m1_def [symmetric] m2_def [symmetric]
    by (rule only_trans [OF _ only_st_bytes]) (simp_all add: slot_defs entry_defs only_after)
  moreover have "apart 0x18007000 4096 (blk_ptr sample_store i) (block_len (bck sample_store) i)"
      "apart 0x18008000 4096 (blk_ptr sample_store i) (block_len (bck sample_store) i)"
    using bs.blocks_apart [OF sample_blocks(3), of i] bs.blocks_apart [OF sample_blocks(4), of i] i by (simp_all add: sample_blocks)
  moreover have "apart 0x10002000 0x800000 (blk_ptr sample_store i) (block_len (bck sample_store) i)"
    using bs.slot_block_apart [OF tx_index(2) [OF sample_tx_ok], of i] i(1) sample_ptr by (simp add: tx_slot_ptr_def)
  ultimately have "same_on (blk_ptr sample_store i) (block_len (bck sample_store) i) sample_mem m0"
    by (meson only_apart same_on_trans)
  then have "hdr_at sample_mem (blk_ptr sample_store i) = hdr_at m0 (blk_ptr sample_store i)"
    using bs.extent_header [OF i(1)] by (intro hdr_at_cong) (auto elim: same_on_sub)
  then show ?thesis
    by (simp add: present_def hdr_at_def m0_def)
qed

lemma sample_tx_objects:
  "hdr_at sample_mem 0x18007000 = \<lparr>h_flch64 = 77, h_id = 9, h_version = 3, h_key_len = 3, h_val_len = 8\<rparr>"
  "hdr_at sample_mem 0x18008000 = \<lparr>h_flch64 = 78, h_id = 10, h_version = 1, h_key_len = 3, h_val_len = 5\<rparr>"
  by (simp_all add: sample_mem_def entry_defs hdr_defs slot_defs Let_def)

lemma sample_store_ok: "store_ok sample_tx"
  unfolding store_ok_def
proof (intro allI impI)
  fix i
  assume i: "block_ok (bck sample_tx) i \<and> present sample_tx i"
  then have "i = 5 \<or> i = 6"
    using sample_mem_blank [of i] by auto
  then show "in_block sample_tx i"
    using sample_blocks sample_tx_objects
    by (auto simp: in_block_def val_start_def) (simp_all add: sample_store_def)
qed

text \<open>
  Execution refines the abstract transaction. Seen as a map from identifiers to objects,
  the store after \<open>tx_slot_execute\<close> is the store before with the records of the log applied
  one after the other: a removed or replaced object disappears, an object updated in place
  has the bytes overlaid and its version raised for each update; no other object changes,
  and every object lies inside its block again. (An in-place update whose new checksum is 0
  would make the object disappear, hence the condition on the objects updated.)
\<close>

theorem tx_slot_execute_refines:
  assumes "checksum_spec uc ck" and "exec_ready s k rs" and "store_ok s" and "inplace_ok s rs"
  shows "\<exists>s'. tx_slot_execute uc s k = Inr (PMB_OK, s') \<and> store_ok s' \<and>
    ((\<forall>i\<in>inplace_ids rs. present s' i) \<longrightarrow> store s' = fold spec_rec rs (store s))"
  using assms by (rule execute_refines)

theorem tx_slot_execute_refines_witness:
  "\<exists>s'. tx_slot_execute sample_uc sample_tx 1 = Inr (PMB_OK, s') \<and> store_ok s' \<and>
    (present s' 6 \<longrightarrow> store s' = (store sample_tx)(5 := None, 6 := map_option (patch 2 [1, 2, 3, 4]) (store sample_tx 6)))"
proof -
  have "inplace_ok sample_tx [LRemove 5, LInplace 6 2 [1, 2, 3, 4]]"
    using sample_blocks sample_tx_objects by (simp add: inplace_ok_def present_def) (simp add: sample_store_def)
  then show ?thesis
    using tx_slot_execute_refines [OF sample_checksum sample_ready sample_store_ok] by auto
qed

end
