(* ===== verification/Txn.thy ===== *)
theory Txn
  imports Refine
begin

text \<open>
  Transactions through the API. \<open>tx_run\<close> is the step relation of a client that puts new
  objects, updates by copy and deletes inside one transaction; beside the handle it carries
  the records of the log and the map the client means to have in the end.
\<close>

section \<open>Begin, commit, execute, abort\<close>

definition slots_ok :: "pmb_handle \<Rightarrow> bool" where
  "slots_ok s \<longleftrightarrow> layout_ok (bck s) \<and> tx_slots_count (op_log s) = b_tx_slots_count (bck s) \<and>
     list_wf (tx_slots_list (op_log s)) \<and>
     list_ids (tx_slots_list (op_log s)) \<subseteq> {1..ucast (tx_slots_count (op_log s))}"

lemma begin_cases:
  assumes ok: "slots_ok s"
  obtains (busy) "list_ids (tx_slots_list (op_log s)) = {}" "pmb_tx_begin (Some s) (Some c) = (PMB_ERR, Some 0, Some s)"
    | (taken) k l s' where "pmb_tx_begin (Some s) (Some c) = (PMB_OK, Some k, Some s')"
      "k \<in> list_ids (tx_slots_list (op_log s))" "\<forall>j\<in>list_ids (tx_slots_list (op_log s)). k \<le> j"
      "mem_only (s\<lparr>op_log := (op_log s)\<lparr>tx_slots_list := l\<rparr>\<rparr>) s'" "list_wf l"
      "list_ids l = list_ids (tx_slots_list (op_log s)) - {k}" "tx_holds s' k PROCESSING []" "slot_size s' k = 24"
      "only (tx_slot_ptr s k) (slot_cap s) (mem s) (mem s')" "tx_ok s k"
proof -
  have "list_wf (tx_slots_list (op_log s))"
    using ok by (simp add: slots_ok_def)
  then show ?thesis
  proof (cases rule: list_pop [where x = c])
    case empty
    then show ?thesis
      using busy by (simp add: pmb_tx_begin_def tx_log_get_slot_def)
  next
    case (taken k l)
    let ?s1 = "s\<lparr>op_log := (op_log s)\<lparr>tx_slots_list := l\<rparr>\<rparr>"
    have "k \<in> {1..ucast (tx_slots_count (op_log s))}"
      using ok taken(2) by (auto simp: slots_ok_def)
    then have k: "tx_ok ?s1 k" "tx_ok s k"
      using ok by (auto simp: slots_ok_def tx_ok_def word_le_nat_alt word_less_nat_alt)
    obtain s' where s': "tx_slot_init ?s1 k = (PMB_OK, s')" "tx_holds s' k PROCESSING []" "slot_only ?s1 k s'" "slot_size s' k = 24"
      using tx_slot_init_processing [OF k(1)] by blast
    have "only (tx_slot_ptr s k) (slot_cap s) (mem s) (mem s')"
      using s'(3) by (simp add: slot_only_def tx_slot_ptr_def)
    moreover have "pmb_tx_begin (Some s) (Some c) = (PMB_OK, Some k, Some s')"
      using taken(1) s'(1) by (simp add: pmb_tx_begin_def tx_log_get_slot_def)
    ultimately show ?thesis
      using taken s'(2,4) slot_only_mem_only [OF s'(3)] k(2) by (intro that(2))
  qed
qed

section \<open>A client inside a transaction\<close>

text \<open>What a put needs: a free block, room in the slot, lengths within the limits, buffers outside the pool.\<close>

definition can_put :: "pmb_handle \<Rightarrow> u64 \<Rightarrow> log_rec list \<Rightarrow> u64 \<Rightarrow> pmb_pair \<Rightarrow> bool" where
  "can_put s k rs i kv \<longleftrightarrow> put_ready s k rs i \<and> put_args s i kv \<and> client_bufs s k kv \<and> \<not> tput_bad_args s k kv \<and>
     i < total_objs_count s"

text \<open>What an update by copy needs besides: a long value at an offset inside the old one.\<close>

definition can_update :: "pmb_handle \<Rightarrow> u64 \<Rightarrow> u64 \<Rightarrow> pmb_pair \<Rightarrow> bool" where
  "can_update s i j kv \<longleftrightarrow> j = p_blk_id kv \<and> \<not> p_val_len kv < max_val_len s div 2 \<and> p_val_len kv \<noteq> 0 \<and>
     p_offset kv \<le> h_val_len (blk_hdr s j) \<and> unat (h_val_len (blk_hdr s j)) \<le> unat (max_val_len s) \<and>
     block_len (bck s) j = block_len (bck s) i \<and> j < total_objs_count s"

abbreviation key_bytes :: "pmb_handle \<Rightarrow> pmb_pair \<Rightarrow> u8 list" where
  "key_bytes s kv \<equiv> ld_bytes (mem s) (p_key kv) (unat (p_key_len kv))"

abbreviation val_bytes :: "pmb_handle \<Rightarrow> pmb_pair \<Rightarrow> u8 list" where
  "val_bytes s kv \<equiv> ld_bytes (mem s) (p_val kv) (unat (p_val_len kv))"

inductive tx_run :: "checksum_fn \<Rightarrow> u64 \<Rightarrow> pmb_handle \<Rightarrow> pmb_handle \<Rightarrow> log_rec list \<Rightarrow> (u64 \<rightharpoonup> pmb_obj) \<Rightarrow> bool"
  for uc :: checksum_fn and k :: u64 and s0 :: pmb_handle where
  start: "tx_run uc k s0 s0 [] (store s0)"
| put: "tx_run uc k s0 s rs m \<Longrightarrow> can_put s k rs i kv \<Longrightarrow> p_blk_id kv = 0 \<Longrightarrow> p_offset kv = 0 \<Longrightarrow>
    pmb_tput uc (Some s) k (Some kv) = (PMB_OK, Some kv', Some s') \<Longrightarrow> present s' i \<Longrightarrow>
    tx_run uc k s0 s' (rs @ [LWrite i])
      (m(i \<mapsto> \<lparr>ob_id = p_id kv, ob_version = 1, ob_key = key_bytes s kv, ob_val = val_bytes s kv\<rparr>))"
| update: "tx_run uc k s0 s rs m \<Longrightarrow> can_put s k rs i kv \<Longrightarrow> can_update s i j kv \<Longrightarrow> m j = Some ob \<Longrightarrow>
    pmb_tput uc (Some s) k (Some kv) = (PMB_OK, Some kv', Some s') \<Longrightarrow> present s' i \<Longrightarrow>
    tx_run uc k s0 s' (rs @ [LUpdate j i])
      (m(j := None, i \<mapsto> \<lparr>ob_id = p_id kv, ob_version = ob_version ob + 1, ob_key = key_bytes s kv,
        ob_val = overlay (unat (p_offset kv)) (val_bytes s kv) (ob_val ob)\<rparr>))"
| del: "tx_run uc k s0 s rs m \<Longrightarrow> m j \<noteq> None \<Longrightarrow> slot_size s k + 24 \<le> slot_cap s \<Longrightarrow>
    pmb_tdel (Some s) k j = (PMB_OK, Some s') \<Longrightarrow> tx_run uc k s0 s' (rs @ [LRemove j]) (m(j := None))"

section \<open>The invariant of a running transaction\<close>

definition run_inv :: "u64 \<Rightarrow> pmb_handle \<Rightarrow> pmb_handle \<Rightarrow> log_rec list \<Rightarrow> (u64 \<rightharpoonup> pmb_obj) \<Rightarrow> bool" where
  "run_inv k s0 s rs m \<longleftrightarrow> tx_holds s k PROCESSING rs \<and> mem_only (s0\<lparr>free_list := free_list s\<rparr>) s \<and>
     list_wf (free_list s) \<and> list_ids (free_list s) = list_ids (free_list s0) - written_ids rs \<and>
     written_ids rs \<subseteq> {i \<in> list_ids (free_list s0). i < total_objs_count s0} \<and>
     released_ids rs \<inter> list_ids (free_list s) = {} \<and> (\<forall>i\<in>list_ids (free_list s). store s i = None) \<and>
     (\<forall>r\<in>set rs. rec_ok s r \<and> abort_ok s r) \<and> store_ok s \<and> m = store s |` (- released_ids rs) \<and>
     (\<forall>i. i \<notin> written_ids rs \<longrightarrow> store s i = store s0 i)"

lemma run_inv_start:
  assumes "tx_holds s k PROCESSING []" "list_wf (free_list s)" "store_ok s" "\<forall>i\<in>list_ids (free_list s). store s i = None"
  shows "run_inv k s s [] (store s)"
  using assms by (simp add: run_inv_def restrict_map_def)

text \<open>One more record \<open>r\<close>, with the change of the store that belongs to it.\<close>

definition run_step :: "u64 \<Rightarrow> pmb_handle \<Rightarrow> log_rec list \<Rightarrow> (u64 \<rightharpoonup> pmb_obj) \<Rightarrow> log_rec \<Rightarrow> pmb_handle \<Rightarrow> bool" where
  "run_step k s rs m r s' \<longleftrightarrow> mem_only (s\<lparr>free_list := free_list s'\<rparr>) s' \<and> tx_holds s' k PROCESSING (rs @ [r]) \<and>
     list_wf (free_list s') \<and> list_ids (free_list s') = list_ids (free_list s) - written r \<and> inplaced r = {} \<and>
     (\<forall>i\<in>written r. i \<in> list_ids (free_list s) \<and> block_ok (bck s) i \<and> i \<noteq> 0 \<and> i < total_objs_count s \<and> fits s' i \<and> in_block s' i) \<and>
     (\<forall>j\<in>released r. m j \<noteq> None) \<and>
     (\<forall>j. block_ok (bck s) j \<longrightarrow> j \<notin> written r \<longrightarrow> same_on (blk_ptr s j) (block_len (bck s) j) (mem s') (mem s))"

lemma fits_same: "conf_same s s' \<Longrightarrow> blk_hdr s' i = blk_hdr s i \<Longrightarrow> fits s' i = fits s i"
  by (simp add: fits_def obj_len_def conf_same_def)

lemma in_block_fits: "in_block s i \<Longrightarrow> fits s i"
  by (simp add: in_block_def fits_def obj_len_def)

lemma mem_only_free:
  assumes "mem_only (s0\<lparr>free_list := a\<rparr>) s" and "mem_only (s\<lparr>free_list := f\<rparr>) s'"
  shows "mem_only (s0\<lparr>free_list := f\<rparr>) s'"
proof -
  obtain m l where 1: "s' = s\<lparr>free_list := f, mem := m, plog := l\<rparr>"
    using assms(2) unfolding mem_only_def by blast
  obtain m2 l2 where 2: "s = s0\<lparr>free_list := a, mem := m2, plog := l2\<rparr>"
    using assms(1) unfolding mem_only_def by blast
  have "s\<lparr>free_list := f, mem := m, plog := l\<rparr> = s0\<lparr>free_list := f, mem := m, plog := l\<rparr>"
    by (subst 2) simp
  then show ?thesis
    using trans [OF 1] unfolding mem_only_def by blast
qed

lemma run_inv_step:
  assumes inv: "run_inv k s0 s rs m" and st: "run_step k s rs m r s'"
  shows "run_inv k s0 s' (rs @ [r]) (\<lambda>i. if i \<in> written r then store s' i else if i \<in> released r then None else m i)"
proof -
  have mo: "mem_only (s\<lparr>free_list := free_list s'\<rparr>) s'" and h: "tx_holds s' k PROCESSING (rs @ [r])" and wf: "list_wf (free_list s')"
    and ids: "list_ids (free_list s') = list_ids (free_list s) - written r" and ip: "inplaced r = {}"
    and w: "\<And>i. i \<in> written r \<Longrightarrow> i \<in> list_ids (free_list s) \<and> block_ok (bck s) i \<and> i \<noteq> 0 \<and> i < total_objs_count s \<and> fits s' i \<and> in_block s' i"
    and rel: "\<And>j. j \<in> released r \<Longrightarrow> m j \<noteq> None"
    and same: "\<And>j. block_ok (bck s) j \<Longrightarrow> j \<notin> written r \<Longrightarrow> same_on (blk_ptr s j) (block_len (bck s) j) (mem s') (mem s)"
    using st unfolding run_step_def by blast+
  have mo0: "mem_only (s0\<lparr>free_list := free_list s\<rparr>) s" and ids0: "list_ids (free_list s) = list_ids (free_list s0) - written_ids rs"
    and w0: "written_ids rs \<subseteq> {i \<in> list_ids (free_list s0). i < total_objs_count s0}"
    and rf: "released_ids rs \<inter> list_ids (free_list s) = {}" and free: "\<And>i. i \<in> list_ids (free_list s) \<Longrightarrow> store s i = None"
    and recs: "\<And>r. r \<in> set rs \<Longrightarrow> rec_ok s r \<and> abort_ok s r" and ok: "store_ok s" and m: "m = store s |` (- released_ids rs)"
    and keep: "\<And>i. i \<notin> written_ids rs \<Longrightarrow> store s i = store s0 i"
    using inv unfolding run_inv_def by blast+
  have c: "conf_same s s'" "bck s' = bck s" "total_objs_count s' = total_objs_count s" "total_objs_count s0 = total_objs_count s"
    using mem_only_simps [OF mo] mem_only_simps [OF mo0] by (simp_all add: conf_same_def)
  have st_same: "store s' i = store s i" if "i \<notin> written r" for i
    using same that by (intro store_same [OF c(1) ok]) blast
  have fits_keep: "fits s' i = fits s i" if "block_ok (bck s) i" "i \<notin> written r" for i
    using block_same_obj(1) [OF c(1) that(1) same [OF that]] by (rule fits_same [OF c(1)])
  have rel': "block_ok (bck s) j \<and> present s j \<and> j \<notin> list_ids (free_list s) \<and> fits s' j" if j: "j \<in> released r" for j
  proof -
    have "store s j \<noteq> None"
      using rel [OF j] by (auto simp: m restrict_map_def split: if_splits)
    then have b: "block_ok (bck s) j" "present s j" "j \<notin> list_ids (free_list s)"
      using free [of j] by (auto simp: store_def split: if_splits)
    then have "in_block s j"
      using ok by (auto simp: store_ok_def)
    then show ?thesis
      using b w fits_keep [of j] in_block_fits [of s j] by blast
  qed
  have recs': "rec_ok s' x \<and> abort_ok s' x" if x: "x \<in> set (rs @ [r])" for x
  proof (cases "x = r")
    case True
    then show ?thesis
      using ip rel' w c(2) by (cases r) (auto simp: abort_ok_def)
  next
    case False
    then have x: "x \<in> set rs"
      using x by simp
    then have "i \<notin> written r" if "i \<in> released x \<union> written x" for i
      using that w [of i] rf ids0 by blast
    then show ?thesis
      using recs [OF x] c(2) fits_keep by (cases x) (auto simp: abort_ok_def)
  qed
  have sok: "store_ok s'"
    unfolding store_ok_def c(2)
  proof (intro allI impI)
    fix i
    assume i: "block_ok (bck s) i \<and> present s' i"
    show "in_block s' i"
      using block_same_obj(2,3) [OF c(1) _ same] i ok w by (cases "i \<in> written r") (auto simp: store_ok_def)
  qed
  have "store s' i = store s0 i" if "i \<notin> written_ids (rs @ [r])" for i
    using that st_same [of i] keep [of i] by simp
  moreover have "store s' i = None" if i: "i \<in> list_ids (free_list s')" for i
    using i free [of i] st_same [of i] ids by simp
  moreover have "(\<lambda>i. if i \<in> written r then store s' i else if i \<in> released r then None else m i) = store s' |` (- released_ids (rs @ [r]))"
  proof
    fix i
    show "(if i \<in> written r then store s' i else if i \<in> released r then None else m i) = (store s' |` (- released_ids (rs @ [r]))) i"
    proof (cases "i \<in> written r")
      case True
      then have "i \<notin> released_ids (rs @ [r])"
        using w rel' rf by auto
      then show ?thesis
        using True by simp
    next
      case False
      then show ?thesis
        using st_same [of i] by (auto simp: m restrict_map_def)
    qed
  qed
  moreover have "released_ids (rs @ [r]) \<inter> list_ids (free_list s') = {}"
    using rf rel' ids by auto
  moreover have "mem_only (s0\<lparr>free_list := free_list s'\<rparr>) s'"
    using mo0 mo by (rule mem_only_free)
  ultimately show ?thesis
    unfolding run_inv_def using h wf ids ids0 w0 w recs' sok c(4) by auto
qed

text \<open>The three calls.\<close>

lemma list_ids_nonzero: "list_wf l \<Longrightarrow> 0 \<notin> list_ids l"
  using valid_id_caslist_ids by (fastforce simp: list_wf_def list_ids_def valid_id_def)

lemma put_in_block:
  assumes "fits s i" and "put_args s i kv" and "i < total_objs_count s" and "ob_key (obj_at s i) = key_bytes s0 kv"
    and "length (ob_val (obj_at s i)) \<le> unat (max_val_len s)"
  shows "in_block s i"
proof -
  have "length (ob_key (obj_at s i)) = unat (p_key_len kv)"
    using assms(4) by simp
  then show ?thesis
    using assms(2,3,5) by (simp add: in_block_def val_start_def obj_at_def put_args_def)
qed

lemma run_put:
  assumes ck: "checksum_spec uc ck" and inv: "run_inv k s0 s rs m" and can: "can_put s k rs i kv"
    and new: "p_blk_id kv = 0" "p_offset kv = 0"
    and call: "pmb_tput uc (Some s) k (Some kv) = (PMB_OK, Some kv', Some s')" and pr: "present s' i"
  shows "run_inv k s0 s' (rs @ [LWrite i]) (m(i \<mapsto> \<lparr>ob_id = p_id kv, ob_version = 1, ob_key = key_bytes s kv, ob_val = val_bytes s kv\<rparr>))"
proof -
  have a: "put_ready s k rs i" "put_args s i kv" "client_bufs s k kv" "\<not> tput_bad_args s k kv" "i < total_objs_count s"
    using can by (simp_all add: can_put_def)
  obtain e: "mem_only (s\<lparr>free_list := free_list s'\<rparr>) s'" "tx_holds s' k PROCESSING (rs @ [LWrite i])" "list_wf (free_list s')"
      "list_ids (free_list s') = list_ids (free_list s) - {i}"
      "\<forall>j. block_ok (bck s) j \<longrightarrow> j \<noteq> i \<longrightarrow> same_on (blk_ptr s j) (block_len (bck s) j) (mem s') (mem s)" "fits s' i"
      "obj_at s' i = \<lparr>ob_id = p_id kv, ob_version = 1, ob_key = key_bytes s kv, ob_val = val_bytes s kv\<rparr>"
    using tput_new_effect [OF ck a(1,2,3) new(1) a(4,5)] call new(2) by (elim exE conjE) simp
  note c = mem_only_simps [OF e(1)]
  have b: "block_ok (bck s) i" and i: "i \<in> list_ids (free_list s)" "i \<noteq> 0"
    using a(1,2) list_ids_nonzero [of "free_list s"] by (auto simp: put_args_def put_ready_def)
  have "in_block s' i"
    using e(6,7) a(2,5) c put_args_cong [of s' s i kv] new(2) by (intro put_in_block [of s' i kv s]) (simp_all add: put_args_def)
  then have "run_step k s rs m (LWrite i) s'"
    using e b i a(5) by (simp add: run_step_def)
  from run_inv_step [OF inv this] show ?thesis
    using b pr e(7) c by (simp add: store_def fun_upd_def cong: if_cong)
qed

lemma run_update:
  assumes ck: "checksum_spec uc ck" and inv: "run_inv k s0 s rs m" and can: "can_put s k rs i kv" "can_update s i j kv"
    and j: "m j = Some ob"
    and call: "pmb_tput uc (Some s) k (Some kv) = (PMB_OK, Some kv', Some s')" and pr: "present s' i"
  shows "run_inv k s0 s' (rs @ [LUpdate j i]) (m(j := None, i \<mapsto> \<lparr>ob_id = p_id kv, ob_version = ob_version ob + 1,
    ob_key = key_bytes s kv, ob_val = overlay (unat (p_offset kv)) (val_bytes s kv) (ob_val ob)\<rparr>))"
proof -
  have a: "put_ready s k rs i" "put_args s i kv" "client_bufs s k kv" "\<not> tput_bad_args s k kv" "i < total_objs_count s"
    using can by (simp_all add: can_put_def)
  have u: "j = p_blk_id kv" "\<not> p_val_len kv < max_val_len s div 2" "p_val_len kv \<noteq> 0" "p_offset kv \<le> h_val_len (blk_hdr s j)"
      "unat (h_val_len (blk_hdr s j)) \<le> unat (max_val_len s)" "block_len (bck s) j = block_len (bck s) i" "j < total_objs_count s"
    using can unfolding can_update_def by blast+
  have sj: "store s j = Some ob"
    using inv j by (auto simp: run_inv_def restrict_map_def split: if_splits)
  then have jb: "block_ok (bck s) j" "present s j" and ob: "ob = obj_at s j"
    by (auto simp: store_def split: if_splits)
  have i: "i \<in> list_ids (free_list s)" "i \<noteq> 0" and b: "block_ok (bck s) i"
    using a(1,2) list_ids_nonzero [of "free_list s"] by (auto simp: put_args_def put_ready_def)
  have jf: "j \<notin> list_ids (free_list s)"
    using inv sj by (auto simp: run_inv_def)
  obtain e: "mem_only (s\<lparr>free_list := free_list s'\<rparr>) s'" "tx_holds s' k PROCESSING (rs @ [LUpdate j i])" "list_wf (free_list s')"
      "list_ids (free_list s') = list_ids (free_list s) - {i}"
      "\<forall>b. block_ok (bck s) b \<longrightarrow> b \<noteq> i \<longrightarrow> same_on (blk_ptr s b) (block_len (bck s) b) (mem s') (mem s)" "fits s' i"
      "obj_at s' i = \<lparr>ob_id = p_id kv, ob_version = h_version (blk_hdr s j) + 1, ob_key = key_bytes s kv,
        ob_val = overlay (unat (p_offset kv)) (val_bytes s kv)
          (ld_bytes (mem s) (blk_ptr s j + 32 + unat (max_key_len s)) (unat (h_val_len (blk_hdr s j))))\<rparr>"
    using tput_update_effect [OF ck a(1,2,3,4) u(1) jb jf u(2-6) a(5)] call by (elim exE conjE) simp
  have o': "obj_at s' i = \<lparr>ob_id = p_id kv, ob_version = ob_version ob + 1, ob_key = key_bytes s kv,
      ob_val = overlay (unat (p_offset kv)) (val_bytes s kv) (ob_val ob)\<rparr>"
    using e(7) u(7) by (simp add: ob obj_at_def val_start_def add.assoc)
  note c = mem_only_simps [OF e(1)]
  have "unat (p_offset kv) \<le> unat (h_val_len (blk_hdr s j))"
    using u(4) by (simp add: word_le_unat)
  then have "length (ob_val (obj_at s' i)) \<le> unat (max_val_len s)"
    using u(5) a(2) by (auto simp: e(7) overlay_def put_args_def min_def)
  then have "in_block s' i"
    using e(6) o' a(2,5) c put_args_cong [of s' s i kv] by (intro put_in_block [of s' i kv s]) simp_all
  then have "run_step k s rs m (LUpdate j i) s'"
    using e(1-6) b i a(5) j by (simp add: run_step_def)
  note run_inv_step [OF inv this]
  moreover have "(\<lambda>x. if x \<in> written (LUpdate j i) then store s' x else if x \<in> released (LUpdate j i) then None else m x) =
      m(j := None, i \<mapsto> \<lparr>ob_id = p_id kv, ob_version = ob_version ob + 1, ob_key = key_bytes s kv,
        ob_val = overlay (unat (p_offset kv)) (val_bytes s kv) (ob_val ob)\<rparr>)"
    using b pr o' c by (auto simp: store_def fun_eq_iff)
  ultimately show ?thesis
    by simp
qed

lemma run_del:
  assumes inv: "run_inv k s0 s rs m" and j: "m j \<noteq> None" and room: "slot_size s k + 24 \<le> slot_cap s"
    and call: "pmb_tdel (Some s) k j = (PMB_OK, Some s')"
  shows "run_inv k s0 s' (rs @ [LRemove j]) (m(j := None))"
proof -
  have h: "tx_holds s k PROCESSING rs" and wf: "list_wf (free_list s)"
    using inv by (simp_all add: run_inv_def)
  obtain s2 where s2: "tx_slot_op_remove s k j = (PMB_OK, s2)" "tx_holds s2 k PROCESSING (rs @ [LRemove j])" "slot_only s k s2"
    using op_remove_appends [OF h room] by blast
  have "s2 = s'"
    using call s2(1) by (auto simp: pmb_tdel_def pmb_codes split: if_splits)
  note s2 = s2 [unfolded this]
  note mo = slot_only_mem_only [OF s2(3)]
  have "mem_only (s\<lparr>free_list := free_list s'\<rparr>) s'"
    using mo mem_only_simps(3) [OF mo] by simp
  moreover have "same_on (blk_ptr s i) (block_len (bck s) i) (mem s') (mem s)" if "block_ok (bck s) i" for i
    using registered(2) [OF h s2(3) that] .
  ultimately have "run_step k s rs m (LRemove j) s'"
    using s2(2) wf mem_only_simps(3) [OF mo] j by (simp add: run_step_def)
  from run_inv_step [OF inv this] show ?thesis
    by (simp add: fun_upd_def cong: if_cong)
qed

lemma tx_run_inv:
  assumes "tx_run uc k s0 s rs m" and ck: "checksum_spec uc ck" and "run_inv k s0 s0 [] (store s0)"
  shows "run_inv k s0 s rs m"
  using assms(1,3) by induction (auto intro: run_put [OF ck] run_update [OF ck] run_del)

section \<open>Whole transactions\<close>

text \<open>
  The invariant of a store between calls: the slots and the free lists are in order, every
  object lies inside its block, no free block holds an object, and no header update is
  pending.
\<close>

definition pool_inv :: "pmb_handle \<Rightarrow> bool" where
  "pool_inv s \<longleftrightarrow> slots_ok s \<and> list_wf (free_list s) \<and> list_wf (meta_free_list s) \<and> store_ok s \<and>
     (\<forall>i\<in>list_ids (free_list s). store s i = None) \<and>
     length (upd_id_list (op_log s)) = unat (tx_slots_count (op_log s)) \<and> (\<forall>ml\<in>set (upd_id_list (op_log s)). ml_rest ml)"

text \<open>The lists of pending updates are clean (\<open>malloc\<close> does not promise that for a store just opened).\<close>

definition lists_clean :: "pmb_handle \<Rightarrow> bool" where
  "lists_clean s \<longleftrightarrow> (\<forall>ml\<in>set (upd_id_list (op_log s)). ml_idle ml)"

lemma upd_lists_changed:
  assumes ml: "ml_changed t s s'" and own: "unat t < length (upd_id_list (op_log s)) \<Longrightarrow> P (slot_ml s t) \<Longrightarrow> P (slot_ml s' t)"
    and all: "\<forall>x\<in>set (upd_id_list (op_log s)). P x"
  shows "\<forall>x\<in>set (upd_id_list (op_log s')). P x"
proof
  fix x
  assume "x \<in> set (upd_id_list (op_log s'))"
  then obtain n where n: "n < length (upd_id_list (op_log s))" "x = upd_id_list (op_log s') ! n"
    using ml by (auto simp: in_set_conv_nth ml_changed_def)
  have "P (upd_id_list (op_log s) ! n)"
    using all n(1) by simp
  then show "P x"
    using n own ml by (cases "n = unat t") (auto simp: ml_changed_def)
qed

lemma slot_change_store:
  assumes "tx_ok s k" and "only (tx_slot_ptr s k) (slot_cap s) (mem s) (mem s')" and "conf_same s s'" and "store_ok s"
  shows "store s' = store s" and "store_ok s'"
proof -
  note same = slot_change_blocks(1) [OF assms(1,2)]
  show "store s' = store s"
    using store_same [OF assms(3,4) same] by blast
  have "bck s' = bck s"
    using assms(3) by (simp add: conf_same_def)
  then show "store_ok s'"
    using block_same_obj(2,3) [OF assms(3) _ same] assms(4) by (auto simp: store_ok_def)
qed

text \<open>What the running transaction knows of the state in which it began.\<close>

definition begun :: "pmb_handle \<Rightarrow> u64 \<Rightarrow> pmb_handle \<Rightarrow> bool" where
  "begun s k s0 \<longleftrightarrow> run_inv k s0 s0 [] (store s0) \<and> store s0 = store s \<and> conf_same s s0 \<and>
     free_list s0 = free_list s \<and> meta_free_list s0 = meta_free_list s \<and> tx_ok s k \<and>
     op_log s0 = (op_log s)\<lparr>tx_slots_list := tx_slots_list (op_log s0)\<rparr> \<and> list_wf (tx_slots_list (op_log s0)) \<and>
     list_ids (tx_slots_list (op_log s0)) = list_ids (tx_slots_list (op_log s)) - {k} \<and>
     k \<in> list_ids (tx_slots_list (op_log s))"

lemma pmb_tx_begin_begun:
  assumes inv: "pool_inv s" and call: "pmb_tx_begin (Some s) (Some c) = (PMB_OK, Some k, Some s0)"
  shows "begun s k s0"
proof -
  have so: "slots_ok s" and sok: "store_ok s"
    using inv by (simp_all add: pool_inv_def)
  from so show ?thesis
  proof (cases rule: begin_cases [where c = c])
    case busy
    then show ?thesis
      using call by (simp add: pmb_codes)
  next
    case (taken k' l s')
    then have e: "k' = k" "s' = s0"
      using call by simp_all
    note b = taken [unfolded e]
    let ?s1 = "s\<lparr>op_log := (op_log s)\<lparr>tx_slots_list := l\<rparr>\<rparr>"
    note c = mem_only_simps [OF b(4)]
    have cs: "conf_same s s0"
      using c by (simp add: conf_same_def)
    note st = slot_change_store [OF b(10) b(9) cs sok]
    have "run_inv k s0 s0 [] (store s0)"
      using b(7) inv st c by (intro run_inv_start) (simp_all add: pool_inv_def)
    then show ?thesis
      using b c cs st by (simp add: begun_def)
  qed
qed

lemma spec_recs_no_inplace:
  assumes "inplace_ids rs = {}"
  shows "fold spec_rec rs m = m |` (- released_ids rs)"
proof
  fix i
  show "fold spec_rec rs m i = (m |` (- released_ids rs)) i"
  proof (cases "i \<in> released_ids rs")
    case True
    then show ?thesis
      using spec_recs_released [OF True] by simp
  next
    case False
    have "fold (rec_patch i) rs = (\<lambda>ob. ob)"
      using assms rec_patch_other [of i rs] by blast
    then show ?thesis
      using spec_recs_other [OF False, of m] False by (simp add: option.map_ident)
  qed
qed

lemma store_op_log [simp]: "store (s\<lparr>op_log := x\<rparr>) = store s" "store_ok (s\<lparr>op_log := x\<rparr>) = store_ok s"
  "conf_same s (s'\<lparr>op_log := x\<rparr>) = conf_same s s'"
  by (simp_all add: store_def store_ok_def in_block_def obj_at_def val_start_def present_def conf_same_def fun_eq_iff)

text \<open>Giving the slot back restores the invariant.\<close>

lemma free_slot_ids:
  assumes so: "slots_ok s" and k: "tx_ok s k" and c: "bck s' = bck s" "tx_slots_count (op_log s') = tx_slots_count (op_log s)"
    and l: "list_wf (tx_slots_list (op_log s'))" "list_ids (tx_slots_list (op_log s')) \<subseteq> list_ids (tx_slots_list (op_log s))"
  shows "slots_ok (tx_log_free_slot s' k)"
    and "list_ids (tx_slots_list (op_log (tx_log_free_slot s' k))) = insert k (list_ids (tx_slots_list (op_log s')))"
proof -
  have kb: "1 \<le> k" "k \<le> ucast (tx_slots_count (op_log s))"
    using k by (auto simp: tx_ok_def word_le_nat_alt word_less_nat_alt)
  then have "unat k \<le> 255" "k \<noteq> 0"
    using unat_lt_8 [of "tx_slots_count (op_log s)"] by (auto simp: word_le_nat_alt)
  then have "k < 256" "k \<noteq> 0"
    by (simp_all add: word_less_nat_alt)
  then have "valid_id k"
    using less_not_max by (auto simp: valid_id_def)
  note p = list_push [OF l(1) this]
  show "list_ids (tx_slots_list (op_log (tx_log_free_slot s' k))) = insert k (list_ids (tx_slots_list (op_log s')))"
    using p(2) by (simp add: tx_log_free_slot_def)
  show "slots_ok (tx_log_free_slot s' k)"
    using so p l(2) c kb by (auto simp: slots_ok_def tx_log_free_slot_def)
qed

lemma pool_inv_free_slot:
  assumes inv: "pool_inv s" and k: "tx_ok s k" and c: "bck s' = bck s"
    and l: "tx_slots_count (op_log s') = tx_slots_count (op_log s)" "list_wf (tx_slots_list (op_log s'))"
      "list_ids (tx_slots_list (op_log s')) = list_ids (tx_slots_list (op_log s)) - {k}"
    and f: "list_wf (free_list s')" "list_wf (meta_free_list s')" "store_ok s'" "\<forall>i\<in>list_ids (free_list s'). store s' i = None"
    and u: "length (upd_id_list (op_log s')) = unat (tx_slots_count (op_log s))" "\<forall>ml\<in>set (upd_id_list (op_log s')). ml_rest ml"
  shows "pool_inv (tx_log_free_slot s' k)"
    and "k \<in> list_ids (tx_slots_list (op_log s)) \<Longrightarrow>
      list_ids (tx_slots_list (op_log (tx_log_free_slot s' k))) = list_ids (tx_slots_list (op_log s))"
proof -
  have so: "slots_ok s"
    using inv by (simp add: pool_inv_def)
  note f' = free_slot_ids [OF so k c l(1,2)]
  show "list_ids (tx_slots_list (op_log (tx_log_free_slot s' k))) = list_ids (tx_slots_list (op_log s))"
    if "k \<in> list_ids (tx_slots_list (op_log s))"
    using f'(2) l(3) that by auto
  show "pool_inv (tx_log_free_slot s' k)"
    using f f' u l(1,3) by (simp add: pool_inv_def tx_log_free_slot_def)
qed

lemma transaction_commit:
  assumes ck: "checksum_spec uc ck" and inv: "pool_inv s" and bg: "begun s k s0" and run: "run_inv k s0 s1 rs m"
  shows "\<exists>s2 s3. pmb_tx_commit uc (Some s1) k = (PMB_OK, Some s2) \<and> pmb_tx_execute uc (Some s2) k = Inr (PMB_OK, Some s3) \<and>
    store s3 = m \<and> pool_inv s3 \<and> list_ids (tx_slots_list (op_log s3)) = list_ids (tx_slots_list (op_log s)) \<and>
    (lists_clean s \<longrightarrow> lists_clean s3)"
proof -
  have h: "tx_holds s1 k PROCESSING rs" and mo: "mem_only (s0\<lparr>free_list := free_list s1\<rparr>) s1" and wf: "list_wf (free_list s1)"
    and recs: "\<And>r. r \<in> set rs \<Longrightarrow> rec_ok s1 r \<and> abort_ok s1 r" and ok1: "store_ok s1" and m: "m = store s1 |` (- released_ids rs)"
    and free: "\<And>i. i \<in> list_ids (free_list s1) \<Longrightarrow> store s1 i = None"
    using run unfolding run_inv_def by blast+
  have bg': "conf_same s s0" "meta_free_list s0 = meta_free_list s" "tx_ok s k"
      "op_log s0 = (op_log s)\<lparr>tx_slots_list := tx_slots_list (op_log s0)\<rparr>" "list_wf (tx_slots_list (op_log s0))"
      "list_ids (tx_slots_list (op_log s0)) = list_ids (tx_slots_list (op_log s)) - {k}" "k \<in> list_ids (tx_slots_list (op_log s))"
    using bg unfolding begun_def by blast+
  note c1 = mem_only_simps [OF mo]
  obtain s2 where s2: "tx_slot_commit uc s1 k = (PMB_OK, s2)" "tx_holds s2 k COMMITED rs" "slot_only s1 k s2"
    using tx_slot_commit_ok [OF ck h] by blast
  have ok1': "tx_ok s1 k" and o2: "only (tx_slot_ptr s1 k) (slot_cap s1) (mem s1) (mem s2)"
    using h s2(3) by (simp_all add: tx_holds_def slot_only_def)
  note c2 = mem_only_simps [OF slot_only_mem_only [OF s2(3)]]
  have cs2: "conf_same s1 s2"
    using c2 by (simp add: conf_same_def)
  note st2 = slot_change_store [OF ok1' o2 cs2 ok1]
  have no_ip: "inplace_ids rs = {}"
    using recs by (auto simp: abort_ok_def)
  have logs: "upd_id_list (op_log s2) = upd_id_list (op_log s)" "tx_slots_list (op_log s2) = tx_slots_list (op_log s0)"
      "tx_slots_count (op_log s2) = tx_slots_count (op_log s)"
    using c1 c2 by (simp_all, (subst bg'(4), simp)+)
  have k: "0 < unat k" "unat k \<le> length (upd_id_list (op_log s))"
    using tx_index(3) [OF bg'(3)] bg'(3) inv by (auto simp: tx_ok_def pool_inv_def word_le_nat_alt)
  have idle: "ml_rest (upd_id_list (op_log s) ! (unat k - 1))"
    using inv k by (simp add: pool_inv_def)
  have "rec_ok s2 r" if r: "r \<in> set rs" for r
    using recs [OF r] slot_change_blocks(2) [OF ok1' o2] no_ip r c2(1)
    by (cases r) (auto simp: fits_def obj_len_def)
  then have ready: "exec_ready s2 k rs"
    using s2(2) no_ip logs k idle wf inv c1 c2 bg'(2) by (simp add: exec_ready_def pool_inv_def)
  have ipok: "inplace_ok s2 rs"
    using no_ip unfolding inplace_ok_def by blast
  obtain s3 where run3: "tx_slot_execute uc s2 k = Inr (PMB_OK, s3)" and ok3: "store_ok s3"
      and st3: "store s3 = fold spec_rec rs (store s2)"
    using execute_refines [OF ck ready st2(2) ipok] no_ip by auto
  obtain ce: "conf_eq s2 s3" and ml: "ml_changed (ucast (k - 1)) s2 s3" "ml_rest (slot_ml s3 (ucast (k - 1)))"
      "ml_idle (slot_ml s2 (ucast (k - 1))) \<Longrightarrow> ml_idle (slot_ml s3 (ucast (k - 1)))"
      and l3: "list_wf (free_list s3)" "list_wf (meta_free_list s3)"
      "list_ids (free_list s3) = list_ids (free_list s2) \<union> {i \<in> released_ids rs. present s2 i \<and> i < total_objs_count s2}"
    using execute_release [OF ck ready] run3 by (elim exE conjE) simp
  have sm: "store s3 = m"
    using st3 st2(1) m spec_recs_no_inplace [OF no_ip] by simp
  have cs3: "bck s3 = bck s" "tx_slots_list (op_log s3) = tx_slots_list (op_log s0)" "tx_slots_count (op_log s3) = tx_slots_count (op_log s)"
    using ce logs c2(1) c1(1) bg'(1) by (simp_all add: conf_eq_def conf_same_def)
  have "store s3 i = None" if "i \<in> list_ids (free_list s3)" for i
    using that free [of i] by (auto simp: sm m restrict_map_def l3(3) c2)
  moreover have "length (upd_id_list (op_log s3)) = unat (tx_slots_count (op_log s))"
    using ml(1) logs inv by (simp add: ml_changed_def pool_inv_def)
  moreover have "\<forall>x\<in>set (upd_id_list (op_log s3)). ml_rest x"
    using upd_lists_changed [OF ml(1), of ml_rest] ml(2) logs(1) inv by (simp add: pool_inv_def)
  ultimately have fin: "pool_inv (tx_log_free_slot s3 k)"
      "list_ids (tx_slots_list (op_log (tx_log_free_slot s3 k))) = list_ids (tx_slots_list (op_log s))"
    using pool_inv_free_slot [OF inv bg'(3) cs3(1,3)] bg'(5-7) l3(1,2) ok3 cs3(2) by simp_all
  have "k \<noteq> 0" "\<not> ucast (tx_slots_count (op_log s)) < k"
    using bg'(3) by (auto simp: tx_ok_def)
  then have "pmb_tx_commit uc (Some s1) k = (PMB_OK, Some s2)"
      "pmb_tx_execute uc (Some s2) k = Inr (PMB_OK, Some (tx_log_free_slot s3 k))"
    using s2(1) run3 logs(3) c2(2) by (simp_all add: pmb_tx_commit_def pmb_tx_execute_def)
  moreover have "lists_clean s \<longrightarrow> lists_clean (tx_log_free_slot s3 k)"
    using upd_lists_changed [OF ml(1), of ml_idle] ml(3) logs(1) by (auto simp: lists_clean_def tx_log_free_slot_def)
  ultimately show ?thesis
    using fin sm by (simp add: tx_log_free_slot_def)
qed

lemma transaction_abort:
  assumes ck: "checksum_spec uc ck" and inv: "pool_inv s" and bg: "begun s k s0" and run: "run_inv k s0 s1 rs m"
  shows "\<exists>s2. pmb_tx_abort uc (Some s1) k = (PMB_OK, Some s2) \<and> store s2 = store s \<and> pool_inv s2 \<and>
    list_ids (free_list s2) = list_ids (free_list s) \<and> list_ids (meta_free_list s2) = list_ids (meta_free_list s) \<and>
    list_ids (tx_slots_list (op_log s2)) = list_ids (tx_slots_list (op_log s))"
proof -
  have h: "tx_holds s1 k PROCESSING rs" and mo: "mem_only (s0\<lparr>free_list := free_list s1\<rparr>) s1" and wf: "list_wf (free_list s1)"
    and ids: "list_ids (free_list s1) = list_ids (free_list s0) - written_ids rs"
    and w: "written_ids rs \<subseteq> {i \<in> list_ids (free_list s0). i < total_objs_count s0}"
    and recs: "\<And>r. r \<in> set rs \<Longrightarrow> rec_ok s1 r \<and> abort_ok s1 r" and ok1: "store_ok s1"
    and keep: "\<And>i. i \<notin> written_ids rs \<Longrightarrow> store s1 i = store s0 i"
    using run unfolding run_inv_def by blast+
  have bg': "conf_same s s0" "meta_free_list s0 = meta_free_list s" "tx_ok s k"
      "op_log s0 = (op_log s)\<lparr>tx_slots_list := tx_slots_list (op_log s0)\<rparr>" "list_wf (tx_slots_list (op_log s0))"
      "list_ids (tx_slots_list (op_log s0)) = list_ids (tx_slots_list (op_log s)) - {k}" "k \<in> list_ids (tx_slots_list (op_log s))"
      "store s0 = store s" "free_list s0 = free_list s"
    using bg unfolding begun_def by blast+
  note c1 = mem_only_simps [OF mo]
  have free: "\<And>i. i \<in> list_ids (free_list s) \<Longrightarrow> store s i = None"
    using inv by (simp add: pool_inv_def)
  have ready: "abort_ready s1 k rs"
    using h recs wf inv c1(4) bg'(2) by (simp add: abort_ready_def pool_inv_def)
  obtain s2 where run2: "tx_slot_abort uc s1 k = (PMB_OK, s2)" and ok2: "store_ok s2" and st2: "store s2 = store s1 |` (- written_ids rs)"
    using abort_refines [OF ck ready ok1] by blast
  obtain ce: "conf_eq s1 s2" and lg: "op_log s2 = op_log s1"
      and l2: "list_wf (free_list s2)" "list_wf (meta_free_list s2)"
      "list_ids (free_list s2) = list_ids (free_list s1) \<union> {i \<in> written_ids rs. i < total_objs_count s1}"
      "list_ids (meta_free_list s2) = list_ids (meta_free_list s1) \<union> {i \<in> written_ids rs. \<not> i < total_objs_count s1}"
    using abort_revert [OF ck ready] run2 by (elim exE conjE) simp
  have tot: "total_objs_count s1 = total_objs_count s0" "meta_free_list s1 = meta_free_list s"
    using c1 bg'(2) by simp_all
  have lists: "list_ids (free_list s2) = list_ids (free_list s)" "list_ids (meta_free_list s2) = list_ids (meta_free_list s)"
    unfolding l2(3,4) ids tot using w bg'(9) by (simp_all, blast+)
  have sm: "store s2 = store s"
  proof
    fix i
    show "store s2 i = store s i"
    proof (cases "i \<in> written_ids rs")
      case True
      then have "i \<in> list_ids (free_list s)"
        using w bg'(9) by auto
      then show ?thesis
        using free [of i] True by (simp add: st2)
    next
      case False
      then show ?thesis
        using keep [of i] by (simp add: st2 bg'(8))
    qed
  qed
  have logs: "upd_id_list (op_log s2) = upd_id_list (op_log s)" "tx_slots_list (op_log s2) = tx_slots_list (op_log s0)"
      "tx_slots_count (op_log s2) = tx_slots_count (op_log s)"
    using c1 lg by (simp_all, (subst bg'(4), simp)+)
  have b2: "bck s2 = bck s"
    using ce c1(1) bg'(1) by (simp add: conf_eq_def conf_same_def)
  have u: "length (upd_id_list (op_log s2)) = unat (tx_slots_count (op_log s))" "\<forall>ml\<in>set (upd_id_list (op_log s2)). ml_rest ml"
    using inv logs(1) by (simp_all add: pool_inv_def)
  have "\<forall>i\<in>list_ids (free_list s2). store s2 i = None"
    using free unfolding lists sm by blast
  note fin = pool_inv_free_slot [OF inv bg'(3) b2 logs(3) _ _ l2(1,2) ok2 this u, unfolded logs(2), OF bg'(5,6)]
  have "k \<noteq> 0" "\<not> ucast (tx_slots_count (op_log s)) < k"
    using bg'(3) by (auto simp: tx_ok_def)
  then have "pmb_tx_abort uc (Some s1) k = (PMB_OK, Some (tx_log_free_slot s2 k))"
    using run2 logs(3) lg by (simp add: pmb_tx_abort_def)
  then show ?thesis
    using fin(1) fin(2) [OF bg'(7)] sm lists by (simp add: tx_log_free_slot_def)
qed

lemma begun_run:
  assumes "checksum_spec uc ck" and "pool_inv s" and "pmb_tx_begin (Some s) (Some c) = (PMB_OK, Some k, Some s0)"
    and "tx_run uc k s0 s1 rs m"
  shows "begun s k s0" and "run_inv k s0 s1 rs m"
proof -
  show b: "begun s k s0"
    using assms(2,3) by (rule pmb_tx_begin_begun)
  then have "run_inv k s0 s0 [] (store s0)"
    unfolding begun_def by blast
  with assms(4,1) show "run_inv k s0 s1 rs m"
    by (rule tx_run_inv)
qed

section \<open>Properties\<close>

lemma sample_store_empty: "store sample_store = Map.empty"
  by (simp add: store_def present_def sample_store_def hdr_at_def fun_eq_iff)

lemma sample_pool_inv: "pool_inv sample_store"
proof -
  have "list_ids (tx_slots_list (op_log sample_store)) = {1..16}"
    by (simp add: sample_store_def list_ids_def caslist_eval caslist_ids_def)
  then have "slots_ok sample_store"
    using sample_layout sample_store_lists by (simp add: slots_ok_def) (simp add: sample_store_def sample_backend_fields)
  moreover have "store_ok sample_store"
    by (simp add: store_ok_def present_def sample_store_def hdr_at_def)
  ultimately show ?thesis
    using sample_store_lists sample_store_empty
    by (simp add: pool_inv_def) (simp add: sample_store_def ml_rest_def)
qed

lemma sample_lists_clean: "lists_clean sample_store"
  by (simp add: lists_clean_def sample_store_def ml_idle_def ml_ok_def zero_meta_def)

text \<open>A transaction on the sample store that puts one object.\<close>

abbreviation sample_obj :: pmb_obj where
  "sample_obj \<equiv> \<lparr>ob_id = 4, ob_version = 1, ob_key = [0, 0, 0], ob_val = [0, 0, 0, 0, 0]\<rparr>"

lemma sample_run:
  obtains s0 s1 where "pmb_tx_begin (Some sample_store) (Some 0) = (PMB_OK, Some 1, Some s0)"
    "pmb_tput sample_uc (Some s0) 1 (Some (sample_pair 0 0 5)) = (PMB_OK, Some (sample_pair 1 0 5), Some s1)"
    "tx_run sample_uc 1 s0 s1 [LWrite 1] [1 \<mapsto> sample_obj]" "can_put s0 1 [] 1 (sample_pair 0 0 5)" "present s1 1"
    "key_bytes s0 (sample_pair 0 0 5) = [0, 0, 0]" "val_bytes s0 (sample_pair 0 0 5) = [0, 0, 0, 0, 0]"
proof -
  have so: "slots_ok sample_store"
    using sample_pool_inv by (simp add: pool_inv_def)
  have ids: "list_ids (tx_slots_list (op_log sample_store)) = {1..16}"
    by (simp add: sample_store_def list_ids_def caslist_eval caslist_ids_def)
  from so show ?thesis
  proof (cases rule: begin_cases [where c = 0])
    case busy
    then show ?thesis
      by (simp add: ids)
  next
    case (taken k l s0)
    have k: "k = 1"
      using taken(2,3) unfolding ids by (auto intro!: antisym)
    note b = taken [unfolded k]
    note c = mem_only_simps [OF b(4)]
    have cs: "conf_same sample_store s0"
      using c by (simp add: conf_same_def)
    have st: "store s0 = Map.empty"
      using slot_change_store(1) [OF b(10,9) cs] sample_pool_inv sample_store_empty by (simp add: pool_inv_def)
    have slot: "tx_slot_ptr s0 1 = 0x10002000" "slot_cap s0 = 0x800000"
      using sample_ptr c(1) by (simp_all add: tx_slot_ptr_def)
    have "ld_bytes (mem s0) a n = replicate n 0" if "a + n \<le> 0x10002000" for a n
      using ld_bytes_cong [OF only_same_on [OF b(9), of a n]] that by (simp add: sample_ptr) (simp add: sample_store_def)
    then have bytes: "key_bytes s0 (sample_pair 0 0 5) = replicate 3 0" "val_bytes s0 (sample_pair 0 0 5) = replicate 5 0"
      by (simp_all add: sample_pair_def)
    have r: "replicate 3 (0 :: u8) = [0, 0, 0]" "replicate 5 (0 :: u8) = [0, 0, 0, 0, 0]"
      by (simp_all add: numeral_eq_Suc)
    have f: "bck s0 = sample_backend" "max_key_len s0 = 64" "max_val_len s0 = 1024" "total_objs_count s0 = 32766"
        "tx_slots_count (op_log s0) = 16" "list_wf (free_list s0)" "list_ids (free_list s0) = {1..32765}"
      using c sample_store_lists by (simp_all) (simp_all add: sample_store_def list_ids_def caslist_eval caslist_ids_def)
    have blk: "block_ok sample_backend 1" "block_len sample_backend 1 = 4096" "backend_direct (Some sample_backend) 1 = 0x18003000"
      by (simp_all add: backend_direct_def sample_backend_fields ptr_add_def block_ok_def sample_layout data_id_def block_len_def)
    let ?kv = "sample_pair 0 0 5"
    have can: "can_put s0 1 [] 1 ?kv"
      using b(7,8) slot by (simp add: can_put_def put_ready_def put_args_def client_bufs_def tput_bad_args_def sample_pair_def apart_def
          f blk NULL_def)
    have p: "p_blk_id ?kv = 0" "p_offset ?kv = 0" "?kv\<lparr>p_blk_id := 1\<rparr> = sample_pair 1 0 5" "p_id ?kv = 4"
      by (simp_all add: sample_pair_def)
    obtain s1 where s1: "pmb_tput sample_uc (Some s0) 1 (Some ?kv) = (PMB_OK, Some (sample_pair 1 0 5), Some s1)" "sealed sample_uc s1 1"
      using tput_new_effect [OF sample_checksum, of s0 1 "[]" 1 ?kv] can p by (auto simp: can_put_def)
    have "tx_run sample_uc 1 s0 s1 [LWrite 1] [1 \<mapsto> sample_obj]"
      using tx_run.put [OF tx_run.start can p(1,2) s1(1) sample_sealed_present [OF s1(2)]] by (simp add: st bytes r p(4))
    from that [OF b(1) s1(1) this can sample_sealed_present [OF s1(2)]] show ?thesis
      by (simp add: bytes r)
  qed
qed

text \<open>
  C8: a committed transaction takes effect as a whole. Begin a transaction in a store that
  satisfies the invariant, put new objects, update by copy and delete, in any order, then
  commit and execute: both calls succeed, the store then is exactly the map the client
  built up call by call, the slot is free again and the invariant holds.
\<close>

theorem pmb_tx_commit_execute_refines:
  assumes "checksum_spec uc ck" and "pool_inv s" and "pmb_tx_begin (Some s) (Some c) = (PMB_OK, Some k, Some s0)"
    and "tx_run uc k s0 s1 rs m"
  shows "\<exists>s2 s3. pmb_tx_commit uc (Some s1) k = (PMB_OK, Some s2) \<and> pmb_tx_execute uc (Some s2) k = Inr (PMB_OK, Some s3) \<and>
    store s3 = m \<and> pool_inv s3 \<and> list_ids (tx_slots_list (op_log s3)) = list_ids (tx_slots_list (op_log s)) \<and>
    (lists_clean s \<longrightarrow> lists_clean s3)"
  using assms(1,2) begun_run [OF assms] by (rule transaction_commit)

theorem pmb_tx_commit_execute_refines_witness:
  "\<exists>s0 s1 s2 s3. pmb_tx_begin (Some sample_store) (Some 0) = (PMB_OK, Some 1, Some s0) \<and>
    pmb_tput sample_uc (Some s0) 1 (Some (sample_pair 0 0 5)) = (PMB_OK, Some (sample_pair 1 0 5), Some s1) \<and>
    pmb_tx_commit sample_uc (Some s1) 1 = (PMB_OK, Some s2) \<and> pmb_tx_execute sample_uc (Some s2) 1 = Inr (PMB_OK, Some s3) \<and>
    store s3 = [1 \<mapsto> sample_obj]"
proof (rule sample_run)
  fix s0 s1
  assume a: "pmb_tx_begin (Some sample_store) (Some 0) = (PMB_OK, Some 1, Some s0)"
    "pmb_tput sample_uc (Some s0) 1 (Some (sample_pair 0 0 5)) = (PMB_OK, Some (sample_pair 1 0 5), Some s1)"
    "tx_run sample_uc 1 s0 s1 [LWrite 1] [1 \<mapsto> sample_obj]"
  then show ?thesis
    using pmb_tx_commit_execute_refines [OF sample_checksum sample_pool_inv a(1,3)] by blast
qed

text \<open>
  An aborted transaction leaves no trace. Whatever new objects, updates by copy and
  deletions the client registered, \<open>pmb_tx_abort\<close> succeeds and restores the store, both free
  lists and the list of slots that the transaction started from, and the invariant holds.
\<close>

theorem pmb_tx_abort_restores:
  assumes "checksum_spec uc ck" and "pool_inv s" and "pmb_tx_begin (Some s) (Some c) = (PMB_OK, Some k, Some s0)"
    and "tx_run uc k s0 s1 rs m"
  shows "\<exists>s2. pmb_tx_abort uc (Some s1) k = (PMB_OK, Some s2) \<and> store s2 = store s \<and> pool_inv s2 \<and>
    list_ids (free_list s2) = list_ids (free_list s) \<and> list_ids (meta_free_list s2) = list_ids (meta_free_list s) \<and>
    list_ids (tx_slots_list (op_log s2)) = list_ids (tx_slots_list (op_log s))"
  using assms(1,2) begun_run [OF assms] by (rule transaction_abort)

theorem pmb_tx_abort_restores_witness:
  "\<exists>s0 s1 s2. pmb_tx_begin (Some sample_store) (Some 0) = (PMB_OK, Some 1, Some s0) \<and>
    pmb_tput sample_uc (Some s0) 1 (Some (sample_pair 0 0 5)) = (PMB_OK, Some (sample_pair 1 0 5), Some s1) \<and>
    pmb_tx_abort sample_uc (Some s1) 1 = (PMB_OK, Some s2) \<and> store s2 = Map.empty"
proof (rule sample_run)
  fix s0 s1
  assume a: "pmb_tx_begin (Some sample_store) (Some 0) = (PMB_OK, Some 1, Some s0)"
    "pmb_tput sample_uc (Some s0) 1 (Some (sample_pair 0 0 5)) = (PMB_OK, Some (sample_pair 1 0 5), Some s1)"
    "tx_run sample_uc 1 s0 s1 [LWrite 1] [1 \<mapsto> sample_obj]"
  then show ?thesis
    using pmb_tx_abort_restores [OF sample_checksum sample_pool_inv a(1,3)] sample_store_empty by auto
qed

text \<open>
  \<open>pmb_tx_begin\<close> hands out the lowest free slot, with an empty log in the state
  \<open>PROCESSING\<close>, and fails without any change exactly when all slots are taken.
\<close>

theorem pmb_tx_begin_lowest_slot:
  assumes "slots_ok s"
  shows "(list_ids (tx_slots_list (op_log s)) = {} \<and> pmb_tx_begin (Some s) (Some c) = (PMB_ERR, Some 0, Some s)) \<or>
    (\<exists>k s'. k \<in> list_ids (tx_slots_list (op_log s)) \<and> (\<forall>j\<in>list_ids (tx_slots_list (op_log s)). k \<le> j) \<and>
      pmb_tx_begin (Some s) (Some c) = (PMB_OK, Some k, Some s') \<and> tx_holds s' k PROCESSING [] \<and>
      list_ids (tx_slots_list (op_log s')) = list_ids (tx_slots_list (op_log s)) - {k})"
  using assms
proof (cases rule: begin_cases [where c = c])
  case (taken k l s')
  then show ?thesis
    using mem_only_simps(2) [OF taken(4)] by fastforce
qed simp

theorem pmb_tx_begin_lowest_slot_witness:
  "\<exists>s'. pmb_tx_begin (Some sample_store) (Some 0) = (PMB_OK, Some 1, Some s') \<and> tx_holds s' 1 PROCESSING []"
proof -
  have so: "slots_ok sample_store"
    using sample_pool_inv by (simp add: pool_inv_def)
  have ids: "list_ids (tx_slots_list (op_log sample_store)) = {1..16}"
    by (simp add: sample_store_def list_ids_def caslist_eval caslist_ids_def)
  have "k = 1" if "k \<in> {1..16}" "\<forall>j\<in>{1..16}. k \<le> j" for k :: u64
    using that by (auto intro!: antisym)
  then show ?thesis
    using pmb_tx_begin_lowest_slot [OF so, of 0] unfolding ids by auto
qed

end
