(* ===== verification/Spec_Tx.thy ===== *)
theory Spec_Tx
  imports Txn
begin

text \<open>
  The specification of a store with several open transactions: a committed map and, for each
  slot in use, the operations of its transaction and the objects it wrote. Calls are events;
  \<open>client_ok\<close> is what the client has to respect, \<open>spec_enabled\<close> what the store guarantees
  besides (a block handed out is in use by nobody), \<open>spec_do\<close> the effect.
\<close>

section \<open>State and events\<close>

record open_tx =
  t_done :: bool
  t_ops :: "log_rec list"
  t_new :: "u64 \<rightharpoonup> pmb_obj"

record spec_state =
  c_map :: "u64 \<rightharpoonup> pmb_obj"
  running :: "u64 \<rightharpoonup> open_tx"

definition touched :: "open_tx \<Rightarrow> u64 set" where
  "touched t = dom (t_new t) \<union> released_ids (t_ops t) \<union> inplace_ids (t_ops t)"

text \<open>What a transaction may still replace, remove or update in place.\<close>

definition tx_view :: "spec_state \<Rightarrow> open_tx \<Rightarrow> u64 \<rightharpoonup> pmb_obj" where
  "tx_view a t = (c_map a ++ t_new t) |` (- released_ids (t_ops t))"

text \<open>
  The calls of a client: begin, put of a new object, update by copy (object \<open>j\<close> is replaced by
  block \<open>i\<close>; a data object keeps the rest of its value, a meta object gets a new one), removal,
  update in place, commit, execution and abort, where the first argument is the transaction,
  and a call that is refused.
\<close>

datatype event =
    EBegin u64
  | EPut u64 u64 pmb_obj
  | EReplace u64 u64 u64 u64 "u8 list" nat "u8 list"
  | EReplaceMeta u64 u64 u64 u64 "u8 list" "u8 list"
  | ERemove u64 u64
  | EPatch u64 u64 u32 "u8 list"
  | ECommit u64
  | EExecute u64
  | EAbort u64
  | ERefused

definition append_op :: "u64 \<Rightarrow> log_rec \<Rightarrow> (u64 \<rightharpoonup> pmb_obj) \<Rightarrow> spec_state \<Rightarrow> spec_state" where
  "append_op k r w a = (case running a k of None \<Rightarrow> a
     | Some t \<Rightarrow> a\<lparr>running := (running a)(k \<mapsto> t\<lparr>t_ops := t_ops t @ [r], t_new := t_new t ++ w\<rparr>)\<rparr>)"

definition replaced :: "spec_state \<Rightarrow> u64 \<Rightarrow> u64 \<Rightarrow> u64 \<Rightarrow> u8 list \<Rightarrow> nat \<Rightarrow> u8 list \<Rightarrow> pmb_obj" where
  "replaced a k j cid key off bs = (let ob = the (tx_view a (the (running a k)) j) in
     \<lparr>ob_id = cid, ob_version = ob_version ob + 1, ob_key = key, ob_val = overlay off bs (ob_val ob)\<rparr>)"

definition renewed :: "spec_state \<Rightarrow> u64 \<Rightarrow> u64 \<Rightarrow> u64 \<Rightarrow> u8 list \<Rightarrow> u8 list \<Rightarrow> pmb_obj" where
  "renewed a k j cid key bs =
     \<lparr>ob_id = cid, ob_version = ob_version (the (tx_view a (the (running a k)) j)) + 1, ob_key = key, ob_val = bs\<rparr>"

fun spec_do :: "event \<Rightarrow> spec_state \<Rightarrow> spec_state" where
  "spec_do (EBegin k) a = a\<lparr>running := (running a)(k \<mapsto> \<lparr>t_done = False, t_ops = [], t_new = Map.empty\<rparr>)\<rparr>"
| "spec_do (EPut k i ob) a = append_op k (LWrite i) [i \<mapsto> ob] a"
| "spec_do (EReplace k j i cid key off bs) a = append_op k (LUpdate j i) [i \<mapsto> replaced a k j cid key off bs] a"
| "spec_do (EReplaceMeta k j i cid key bs) a = append_op k (LUpdate j i) [i \<mapsto> renewed a k j cid key bs] a"
| "spec_do (ERemove k j) a = append_op k (LRemove j) Map.empty a"
| "spec_do (EPatch k j off bs) a = append_op k (LInplace j off bs) Map.empty a"
| "spec_do (ECommit k) a = a\<lparr>running := (running a)(k := map_option (t_done_update (\<lambda>_. True)) (running a k))\<rparr>"
| "spec_do (EExecute k) a = (case running a k of None \<Rightarrow> a
     | Some t \<Rightarrow> \<lparr>c_map = fold spec_rec (t_ops t) (c_map a ++ t_new t), running = (running a)(k := None)\<rparr>)"
| "spec_do (EAbort k) a = a\<lparr>running := (running a)(k := None)\<rparr>"
| "spec_do ERefused a = a"

text \<open>
  The rules for clients. A transaction replaces, removes or updates only objects it sees and
  that no other open transaction touches; it neither replaces nor removes what it updated in
  place; an update in place starts inside or right behind the value, and there are at most
  128 objects updated in place; a transaction with updates in place is not aborted.
\<close>

definition opn :: "spec_state \<Rightarrow> u64 \<Rightarrow> open_tx \<Rightarrow> bool" where
  "opn a k t \<longleftrightarrow> running a k = Some t \<and> \<not> t_done t"

definition usable :: "spec_state \<Rightarrow> u64 \<Rightarrow> open_tx \<Rightarrow> u64 \<Rightarrow> bool" where
  "usable a k t j \<longleftrightarrow> tx_view a t j \<noteq> None \<and> (\<forall>l u. running a l = Some u \<longrightarrow> l \<noteq> k \<longrightarrow> j \<notin> touched u)"

fun client_ok :: "spec_state \<Rightarrow> event \<Rightarrow> bool" where
  "client_ok a (EBegin k) \<longleftrightarrow> True"
| "client_ok a (EPut k i ob) \<longleftrightarrow> (\<exists>t. opn a k t)"
| "client_ok a (EReplace k j i cid key off bs) \<longleftrightarrow> (\<exists>t. opn a k t \<and> usable a k t j \<and> j \<notin> inplace_ids (t_ops t))"
| "client_ok a (EReplaceMeta k j i cid key bs) \<longleftrightarrow> (\<exists>t. opn a k t \<and> usable a k t j \<and> j \<notin> inplace_ids (t_ops t))"
| "client_ok a (ERemove k j) \<longleftrightarrow> (\<exists>t. opn a k t \<and> usable a k t j \<and> j \<notin> inplace_ids (t_ops t))"
| "client_ok a (EPatch k j off bs) \<longleftrightarrow> (\<exists>t. opn a k t \<and> usable a k t j \<and> card (insert j (inplace_ids (t_ops t))) \<le> 128 \<and>
     unat off \<le> length (ob_val (fold (rec_patch j) (t_ops t) (the (tx_view a t j)))))"
| "client_ok a (ECommit k) \<longleftrightarrow> (\<exists>t. opn a k t)"
| "client_ok a (EExecute k) \<longleftrightarrow> (\<exists>t. running a k = Some t \<and> t_done t)"
| "client_ok a (EAbort k) \<longleftrightarrow> (\<exists>t. running a k = Some t \<and> inplace_ids (t_ops t) = {})"
| "client_ok a ERefused \<longleftrightarrow> True"

definition fresh :: "spec_state \<Rightarrow> u64 \<Rightarrow> bool" where
  "fresh a i \<longleftrightarrow> i \<notin> dom (c_map a) \<and> (\<forall>k t. running a k = Some t \<longrightarrow> i \<notin> touched t)"

fun store_grants :: "spec_state \<Rightarrow> event \<Rightarrow> bool" where
  "store_grants a (EBegin k) \<longleftrightarrow> running a k = None"
| "store_grants a (EPut k i ob) \<longleftrightarrow> fresh a i"
| "store_grants a (EReplace k j i cid key off bs) \<longleftrightarrow> fresh a i"
| "store_grants a (EReplaceMeta k j i cid key bs) \<longleftrightarrow> fresh a i"
| "store_grants a _ \<longleftrightarrow> True"

definition spec_enabled :: "spec_state \<Rightarrow> event \<Rightarrow> bool" where
  "spec_enabled a e \<longleftrightarrow> client_ok a e \<and> store_grants a e"

inductive spec_reach :: "(u64 \<rightharpoonup> pmb_obj) \<Rightarrow> event list \<Rightarrow> spec_state \<Rightarrow> bool" for m :: "u64 \<rightharpoonup> pmb_obj" where
  start: "spec_reach m [] \<lparr>c_map = m, running = Map.empty\<rparr>"
| step: "spec_reach m es a \<Longrightarrow> spec_enabled a e \<Longrightarrow> spec_reach m (es @ [e]) (spec_do e a)"

section \<open>The invariant of the specification\<close>

definition tx_inv :: "(u64 \<rightharpoonup> pmb_obj) \<Rightarrow> open_tx \<Rightarrow> bool" where
  "tx_inv m t \<longleftrightarrow> written_ids (t_ops t) = dom (t_new t) \<and> dom (t_new t) \<inter> dom m = {} \<and>
     released_ids (t_ops t) \<union> inplace_ids (t_ops t) \<subseteq> dom (m ++ t_new t) \<and>
     inplace_ids (t_ops t) \<inter> released_ids (t_ops t) = {} \<and> card (inplace_ids (t_ops t)) \<le> 128 \<and>
     (\<forall>i\<in>inplace_ids (t_ops t). no_gap i (t_ops t) (length (ob_val (the ((m ++ t_new t) i)))))"

definition spec_inv :: "spec_state \<Rightarrow> bool" where
  "spec_inv a \<longleftrightarrow> (\<forall>k t. running a k = Some t \<longrightarrow> tx_inv (c_map a) t) \<and>
     (\<forall>k l t u. running a k = Some t \<longrightarrow> running a l = Some u \<longrightarrow> k \<noteq> l \<longrightarrow> touched t \<inter> touched u = {})"

lemma tx_invD:
  assumes "tx_inv m t"
  shows "written_ids (t_ops t) = dom (t_new t)" and "dom (t_new t) \<inter> dom m = {}"
    and "released_ids (t_ops t) \<union> inplace_ids (t_ops t) \<subseteq> dom (m ++ t_new t)"
    and "inplace_ids (t_ops t) \<inter> released_ids (t_ops t) = {}" and "card (inplace_ids (t_ops t)) \<le> 128"
    and "\<forall>i\<in>inplace_ids (t_ops t). no_gap i (t_ops t) (length (ob_val (the ((m ++ t_new t) i))))"
  using assms unfolding tx_inv_def by - (elim conjE, assumption)+

lemma tx_inv_cong:
  assumes "tx_inv m t" and "\<And>i. i \<in> touched t \<Longrightarrow> m' i = m i"
  shows "tx_inv m' t"
proof -
  have e: "(m' ++ t_new t) i = (m ++ t_new t) i" if "i \<in> touched t" for i
    using assms(2) [OF that] by (simp add: map_add_def split: option.split)
  have "dom (t_new t) \<inter> dom m' = {}"
    using assms by (auto simp: tx_inv_def touched_def dom_def)
  moreover have "released_ids (t_ops t) \<union> inplace_ids (t_ops t) \<subseteq> dom (m' ++ t_new t)"
  proof
    fix i
    assume i: "i \<in> released_ids (t_ops t) \<union> inplace_ids (t_ops t)"
    then have "i \<in> touched t"
      by (simp add: touched_def)
    moreover have "i \<in> dom (m ++ t_new t)"
      using tx_invD(3) [OF assms(1)] i by (rule subsetD)
    ultimately show "i \<in> dom (m' ++ t_new t)"
      using e [of i] by (metis domIff)
  qed
  moreover have "no_gap i (t_ops t) (length (ob_val (the ((m' ++ t_new t) i))))" if "i \<in> inplace_ids (t_ops t)" for i
    using e [of i] that bspec [OF tx_invD(6) [OF assms(1)] that] by (simp add: touched_def)
  ultimately show ?thesis
    using assms(1) by (simp add: tx_inv_def)
qed

lemma no_gap_append:
  "no_gap j (rs @ [r]) e \<longleftrightarrow> no_gap j rs e \<and> no_gap j [r] (fold (rec_end j) rs e)"
proof (induction rs arbitrary: e)
  case (Cons x rs)
  then show ?case
    by (cases x) auto
qed simp

lemma length_rec_patch:
  assumes "no_gap j rs (length (ob_val ob))"
  shows "length (ob_val (fold (rec_patch j) rs ob)) = fold (rec_end j) rs (length (ob_val ob))"
  using assms
proof (induction rs arbitrary: ob)
  case (Cons r rs)
  have "length (ob_val (rec_patch j r ob)) = rec_end j r (length (ob_val ob))"
    using Cons.prems by (cases r) (auto simp: patch_def overlay_def)
  moreover have "no_gap j rs (rec_end j r (length (ob_val ob)))"
    using Cons.prems by (cases r) auto
  ultimately show ?case
    using Cons.IH [of "rec_patch j r ob"] by simp
qed simp

text \<open>The effect of an executed transaction on objects it does not touch.\<close>

lemma execute_other: "i \<notin> touched t \<Longrightarrow> fold spec_rec (t_ops t) (m ++ t_new t) i = m i"
  using spec_recs_other [of i "t_ops t" "m ++ t_new t"] rec_patch_other [of i "t_ops t"]
  by (cases "m i") (auto simp: touched_def map_add_def split: option.split)

lemma no_gap_other: "j \<notin> inplace_ids rs \<Longrightarrow> no_gap j rs e"
proof (induction rs arbitrary: e)
  case (Cons r rs)
  then show ?case
    by (cases r) auto
qed simp

section \<open>The events keep the invariant\<close>

text \<open>What an operation with record \<open>r\<close> that writes the objects \<open>w\<close> has to meet.\<close>

definition op_fine :: "spec_state \<Rightarrow> u64 \<Rightarrow> open_tx \<Rightarrow> log_rec \<Rightarrow> (u64 \<rightharpoonup> pmb_obj) \<Rightarrow> bool" where
  "op_fine a k t r w \<longleftrightarrow> opn a k t \<and> dom w = written r \<and> (\<forall>i\<in>dom w. fresh a i) \<and>
     (\<forall>j\<in>released r \<union> inplaced r. usable a k t j) \<and> released r \<inter> inplace_ids (t_ops t) = {} \<and>
     card (inplace_ids (t_ops t @ [r])) \<le> 128 \<and>
     (\<forall>j\<in>inplaced r. no_gap j [r] (length (ob_val (fold (rec_patch j) (t_ops t) (the (tx_view a t j))))))"

lemma op_fineD:
  assumes "op_fine a k t r w"
  shows "running a k = Some t" and "dom w = written r" and "i \<in> dom w \<Longrightarrow> i \<notin> dom (c_map a)"
    and "i \<in> dom w \<Longrightarrow> running a l = Some u \<Longrightarrow> i \<notin> touched u"
    and "j \<in> released r \<union> inplaced r \<Longrightarrow> tx_view a t j \<noteq> None"
    and "j \<in> released r \<union> inplaced r \<Longrightarrow> running a l = Some u \<Longrightarrow> l \<noteq> k \<Longrightarrow> j \<notin> touched u"
    and "released r \<inter> inplace_ids (t_ops t) = {}" and "card (inplace_ids (t_ops t @ [r])) \<le> 128"
    and "j \<in> inplaced r \<Longrightarrow> no_gap j [r] (length (ob_val (fold (rec_patch j) (t_ops t) (the (tx_view a t j)))))"
proof -
  note d = assms [unfolded op_fine_def]
  show "running a k = Some t" "dom w = written r" "released r \<inter> inplace_ids (t_ops t) = {}" "card (inplace_ids (t_ops t @ [r])) \<le> 128"
    using d by (simp_all only: opn_def)
  show "j \<in> inplaced r \<Longrightarrow> no_gap j [r] (length (ob_val (fold (rec_patch j) (t_ops t) (the (tx_view a t j)))))"
    using d by blast
  have f: "i \<in> dom w \<Longrightarrow> fresh a i" and u: "j \<in> released r \<union> inplaced r \<Longrightarrow> usable a k t j"
    using d by blast+
  show "i \<in> dom w \<Longrightarrow> i \<notin> dom (c_map a)" "i \<in> dom w \<Longrightarrow> running a l = Some u \<Longrightarrow> i \<notin> touched u"
    using f unfolding fresh_def by blast+
  show "j \<in> released r \<union> inplaced r \<Longrightarrow> tx_view a t j \<noteq> None"
    "j \<in> released r \<union> inplaced r \<Longrightarrow> running a l = Some u \<Longrightarrow> l \<noteq> k \<Longrightarrow> j \<notin> touched u"
    using u unfolding usable_def by blast+
qed

lemma tx_inv_append:
  assumes inv: "tx_inv (c_map a) t" and op: "op_fine a k t r w"
  shows "tx_inv (c_map a) (t\<lparr>t_ops := t_ops t @ [r], t_new := t_new t ++ w\<rparr>)"
proof -
  let ?m = "c_map a" and ?rs = "t_ops t"
  note d = op_fineD [OF op]
  have w: "dom w = written r" "\<And>i. i \<in> dom w \<Longrightarrow> i \<notin> dom ?m \<and> i \<notin> touched t"
    using d(2) d(3) d(4) [OF _ d(1)] by blast+
  note rel = d(7) and u = d(5) and card = d(8) and gap = d(9)
  note i0 = tx_invD(1,2,4) [OF inv] and sub = subsetD [OF tx_invD(3) [OF inv]] and gap0 = bspec [OF tx_invD(6) [OF inv]]
  have v: "j \<notin> released_ids ?rs \<and> (?m ++ t_new t) j = tx_view a t j \<and> j \<in> dom (?m ++ t_new t)" if "j \<in> released r \<union> inplaced r" for j
    using u [OF that] by (auto simp: tx_view_def restrict_map_def split: if_splits)
  have new: "j \<notin> dom w \<and> (?m ++ (t_new t ++ w)) j = (?m ++ t_new t) j" if "j \<in> dom (?m ++ t_new t)" for j
  proof -
    have "j \<notin> dom w"
      using that w(2) [of j] by (auto simp: touched_def)
    then show ?thesis
      by (simp add: map_add_dom_app_simps)
  qed
  have ri: "inplaced r \<inter> released r = {}"
    by (cases r) auto
  have "no_gap i (?rs @ [r]) (length (ob_val (the ((?m ++ (t_new t ++ w)) i))))" if i: "i \<in> inplace_ids (?rs @ [r])" for i
  proof -
    have d: "i \<in> dom (?m ++ t_new t)"
      using i sub [of i] v [of i] by auto
    let ?e = "length (ob_val (the ((?m ++ t_new t) i)))"
    have g: "no_gap i ?rs ?e"
      using gap0 [of i] no_gap_other [of i ?rs] by blast
    have "no_gap i [r] (fold (rec_end i) ?rs ?e)"
      using gap [of i] v [of i] length_rec_patch [OF g] no_gap_other [of i "[r]"] by (cases "i \<in> inplaced r") simp_all
    then show ?thesis
      using g new [OF d] no_gap_append [of i ?rs r] by simp
  qed
  moreover have "released_ids (?rs @ [r]) \<union> inplace_ids (?rs @ [r]) \<subseteq> dom (?m ++ (t_new t ++ w))"
  proof
    fix i
    assume "i \<in> released_ids (?rs @ [r]) \<union> inplace_ids (?rs @ [r])"
    then have "i \<in> dom (?m ++ t_new t)"
      using sub [of i] v [of i] by auto
    then show "i \<in> dom (?m ++ (t_new t ++ w))"
      by (simp add: dom_map_add)
  qed
  moreover have "inplace_ids (?rs @ [r]) \<inter> released_ids (?rs @ [r]) = {}"
    using i0(3) rel ri v by auto
  moreover have "dom (t_new t ++ w) \<inter> dom ?m = {}"
    unfolding dom_map_add using i0(2) w(2) by blast
  moreover have "written_ids (?rs @ [r]) = dom (t_new t ++ w)"
    unfolding dom_map_add w(1) i0(1) [symmetric] by simp
  ultimately show ?thesis
    using card by (simp add: tx_inv_def)
qed

lemma touched_append:
  "touched (t\<lparr>t_ops := t_ops t @ [r], t_new := t_new t ++ w\<rparr>) = touched t \<union> dom w \<union> released r \<union> inplaced r"
  by (auto simp: touched_def)

lemma spec_inv_append:
  assumes inv: "spec_inv a" and op: "op_fine a k t r w"
  shows "spec_inv (append_op k r w a)"
proof -
  note k = op_fineD(1) [OF op] and w = op_fineD(4) [OF op] and u = op_fineD(6) [OF op]
  have i1: "\<And>k t. running a k = Some t \<Longrightarrow> tx_inv (c_map a) t"
    and i2: "\<And>k l t u. running a k = Some t \<Longrightarrow> running a l = Some u \<Longrightarrow> k \<noteq> l \<Longrightarrow> touched t \<inter> touched u = {}"
    using inv unfolding spec_inv_def by blast+
  have "(touched t \<union> dom w \<union> released r \<union> inplaced r) \<inter> touched x = {}" if "running a l = Some x" "l \<noteq> k" for l x
    using i2 [OF k that(1)] w [OF _ that(1)] u [OF _ that] that(2) by blast
  then show ?thesis
    using i1 i2 k tx_inv_append [OF i1 [OF k] op] unfolding spec_inv_def append_op_def
    by (simp add: touched_append) (metis inf_commute)
qed

text \<open>A transaction that ends.\<close>

lemma spec_inv_end:
  assumes inv: "spec_inv a" and k: "running a k = Some t" and m: "\<And>i. i \<notin> touched t \<Longrightarrow> m i = c_map a i"
  shows "spec_inv \<lparr>c_map = m, running = (running a)(k := None)\<rparr>"
proof -
  have "tx_inv m u" if u: "running a l = Some u" "l \<noteq> k" for l u
  proof -
    have "touched t \<inter> touched u = {}" "tx_inv (c_map a) u"
      using inv u k unfolding spec_inv_def by metis+
    then show ?thesis
      by (intro tx_inv_cong [of "c_map a" u m]) (use m in blast)+
  qed
  then show ?thesis
    using inv by (simp add: spec_inv_def)
qed

lemma tx_inv_start: "tx_inv m \<lparr>t_done = False, t_ops = [], t_new = Map.empty\<rparr>"
  by (simp add: tx_inv_def)

lemma spec_inv_step:
  assumes inv: "spec_inv a" and en: "spec_enabled a e"
  shows "spec_inv (spec_do e a)"
proof (cases e)
  case (EBegin k)
  then show ?thesis
    using inv tx_inv_start by (auto simp: spec_inv_def touched_def)
next
  case (ECommit k)
  then obtain t where t: "running a k = Some t"
    using en by (auto simp: spec_enabled_def opn_def)
  have "touched (t_done_update f u) = touched u" "tx_inv m (t_done_update f u) = tx_inv m u" for m f u
    by (simp_all add: touched_def tx_inv_def)
  then show ?thesis
    using inv ECommit t by (auto simp: spec_inv_def split: if_splits)
next
  case (EExecute k)
  then show ?thesis
    using en spec_inv_end [OF inv] execute_other by (auto simp: spec_enabled_def)
next
  case (EAbort k)
  then obtain t where t: "running a k = Some t"
    using en by (auto simp: spec_enabled_def)
  have "spec_do e a = \<lparr>c_map = c_map a, running = (running a)(k := None)\<rparr>"
    using EAbort by simp
  then show ?thesis
    using spec_inv_end [OF inv t, of "c_map a"] by simp
next
  case (EPut k i ob)
  then obtain t where "op_fine a k t (LWrite i) [i \<mapsto> ob]"
    using en inv by (auto simp: spec_enabled_def op_fine_def opn_def spec_inv_def tx_inv_def)
  then show ?thesis
    using spec_inv_append [OF inv] EPut by simp
next
  case (EReplace k j i cid key off bs)
  then obtain t where "op_fine a k t (LUpdate j i) [i \<mapsto> replaced a k j cid key off bs]"
    using en inv by (auto simp: spec_enabled_def op_fine_def opn_def spec_inv_def tx_inv_def)
  then show ?thesis
    using spec_inv_append [OF inv] EReplace by simp
next
  case (EReplaceMeta k j i cid key bs)
  then obtain t where "op_fine a k t (LUpdate j i) [i \<mapsto> renewed a k j cid key bs]"
    using en inv by (auto simp: spec_enabled_def op_fine_def opn_def spec_inv_def tx_inv_def)
  then show ?thesis
    using spec_inv_append [OF inv] EReplaceMeta by simp
next
  case (ERemove k j)
  then obtain t where "op_fine a k t (LRemove j) Map.empty"
    using en inv by (auto simp: spec_enabled_def op_fine_def opn_def spec_inv_def tx_inv_def)
  then show ?thesis
    using spec_inv_append [OF inv] ERemove by simp
next
  case (EPatch k j off bs)
  then obtain t where "op_fine a k t (LInplace j off bs) Map.empty"
    using en inv by (auto simp: spec_enabled_def op_fine_def)
  then show ?thesis
    using spec_inv_append [OF inv] EPatch by simp
next
  case ERefused
  then show ?thesis
    using inv by simp
qed

lemma spec_reach_inv: "spec_reach m es a \<Longrightarrow> spec_inv a"
  by (induction rule: spec_reach.induct) (simp add: spec_inv_def, rule spec_inv_step)

end
