(* ===== verification/Api.thy ===== *)
theory Api
  imports Txn
begin

text \<open>
  Failing calls, refused arguments and conflicts: what the functions of the API leave behind
  when they do not succeed, where a check can be got round, and \<open>pmb_resolve_conflict\<close>.
\<close>

section \<open>Failing puts\<close>

lemma op_fails_same:
  "tx_slot_op_write s k i n = (st, s') \<Longrightarrow> st \<noteq> PMB_OK \<Longrightarrow> st = PMB_ERR \<and> s' = s"
  "tx_slot_op_update s k j i n = (st, s') \<Longrightarrow> st \<noteq> PMB_OK \<Longrightarrow> st = PMB_ERR \<and> s' = s"
  "tx_slot_op_small_update s k j d off n = (st, s') \<Longrightarrow> st \<noteq> PMB_OK \<Longrightarrow> st = PMB_ERR \<and> s' = s"
  "tx_slot_op_remove s k j = (st, s') \<Longrightarrow> st \<noteq> PMB_OK \<Longrightarrow> st = PMB_ERR \<and> s' = s"
  by (auto simp: tx_slot_op_write_def tx_slot_op_update_def tx_slot_op_small_update_def tx_slot_op_remove_def Let_def
      split: if_splits)

text \<open>The registration of a put, of either kind.\<close>

definition put_op :: "pmb_handle \<Rightarrow> u64 \<Rightarrow> pmb_pair \<Rightarrow> u64 \<Rightarrow> u32 \<Rightarrow> u8 \<times> pmb_handle" where
  "put_op s k kv i n = (if p_blk_id kv \<noteq> 0 then tx_slot_op_update s k (p_blk_id kv) i n else tx_slot_op_write s k i n)"

lemma put_op_fails: "put_op s k kv i n = (st, s') \<Longrightarrow> st \<noteq> PMB_OK \<Longrightarrow> st = PMB_ERR \<and> s' = s"
  using op_fails_same(1,2) by (auto simp: put_op_def split: if_splits)

text \<open>Where \<open>tput_new_block\<close> and \<open>tput_meta_new_block\<close> fail.\<close>

lemma tput_new_block_fails:
  assumes "tput_new_block uc s k kv old = (st, kv', s')" and "st \<noteq> PMB_OK" and wf: "list_wf (free_list s)"
  shows "kv' = kv \<and> (s' = s \<and> st = PMB_ENOSPC \<and> list_ids (free_list s) = {} \<or>
    (\<exists>i l. caslist_pop (free_list s) (Some 0) = (0, Some i, l) \<and> st = PMB_ERR \<and> s' = s\<lparr>free_list := l\<rparr> \<and> list_wf l \<and>
      i \<in> list_ids (free_list s) \<and> list_ids l = list_ids (free_list s) - {i}))"
  using wf
proof (cases rule: list_pop [where x = 0])
  case empty
  then show ?thesis
    using assms(1) by (simp add: tput_new_block_def Let_def)
next
  case (taken i l)
  then show ?thesis
    using assms(1,2) put_op_fails
    by (auto simp: tput_new_block_def Let_def put_op_def [symmetric] split: if_splits prod.splits)
qed

lemma tput_meta_new_block_fails:
  assumes "tput_meta_new_block uc s k kv old = (st, kv', s')" and "st \<noteq> PMB_OK" and wf: "list_wf (meta_free_list s)"
  shows "kv' = kv \<and> s' = s\<lparr>meta_free_list := meta_free_list s'\<rparr> \<and> list_wf (meta_free_list s') \<and>
    (list_ids (meta_free_list s') = list_ids (meta_free_list s) \<or>
     st = PMB_ERR \<and> (\<exists>i\<in>list_ids (meta_free_list s). backend_direct (Some (bck s)) i = NULL \<and>
       list_ids (meta_free_list s') = list_ids (meta_free_list s) - {i}))"
  using wf
proof (cases rule: list_pop [where x = 0])
  case empty
  then show ?thesis
    using assms(1) wf by (simp add: tput_meta_new_block_def Let_def)
next
  case (taken i l)
  have bk: "list_wf (caslist_push l i)" "list_ids (caslist_push l i) = list_ids (meta_free_list s)"
    using list_push [OF taken(4,3)] taken(2,5) by auto
  show ?thesis
  proof (cases "backend_direct (Some (bck s)) i = NULL")
    case True
    then have "st = PMB_ERR" "kv' = kv" "s' = s\<lparr>meta_free_list := l\<rparr>"
      using assms(1) taken(1) by (simp_all add: tput_meta_new_block_def Let_def)
    then show ?thesis
      using taken True by auto
  next
    case False
    let ?n = "ucast (of_nat sizeof_pmb_data_hdr + ucast (p_key_len kv) + ucast (p_val_len kv) :: u64) :: u32"
    obtain st2 s2 where op: "put_op (s\<lparr>meta_free_list := l\<rparr>) k kv i ?n = (st2, s2)"
      by fastforce
    then have "st2 \<noteq> PMB_OK"
      using assms(1,2) taken(1) False by (auto simp: tput_meta_new_block_def Let_def put_op_def [symmetric])
    note f = put_op_fails [OF op this]
    have "kv' = kv" "s' = s\<lparr>meta_free_list := caslist_push l i\<rparr>"
      using assms(1) taken(1) False op f \<open>st2 \<noteq> PMB_OK\<close> by (auto simp: tput_meta_new_block_def Let_def put_op_def [symmetric])
    then show ?thesis
      using bk by simp
  qed
qed

text \<open>The same for the whole calls.\<close>

lemma pmb_tput_fails:
  assumes call: "pmb_tput uc (Some s) k (Some kv) = (st, kv', Some s')" and st: "st \<noteq> PMB_OK" and wf: "list_wf (free_list s)"
  shows "kv' = Some kv \<and> s' = s\<lparr>free_list := free_list s'\<rparr> \<and> list_wf (free_list s') \<and>
    (list_ids (free_list s') = list_ids (free_list s) \<or>
     st = PMB_ERR \<and> (\<exists>i\<in>list_ids (free_list s). list_ids (free_list s') = list_ids (free_list s) - {i}))"
proof -
  consider (refused) "kv' = Some kv" "s' = s"
    | (small) s2 where "tx_slot_op_small_update s k (p_blk_id kv) (p_val kv) (p_offset kv) (p_val_len kv) = (st, s2)" "kv' = Some kv" "s' = s2"
    | (block) old kv2 where "tput_new_block uc s k kv old = (st, kv2, s')" "kv' = Some kv2"
    using call by (auto simp: pmb_tput_def Let_def split: if_splits prod.splits)
  then show ?thesis
  proof cases
    case refused
    then show ?thesis
      using wf by simp
  next
    case small
    then show ?thesis
      using op_fails_same(3) [OF small(1) st] wf by simp
  next
    case block
    from tput_new_block_fails [OF block(1) st wf] have kv: "kv2 = kv" and
      "s' = s \<or> (\<exists>i l. st = PMB_ERR \<and> s' = s\<lparr>free_list := l\<rparr> \<and> list_wf l \<and> i \<in> list_ids (free_list s) \<and>
        list_ids l = list_ids (free_list s) - {i})"
      by blast+
    from this(2) show ?thesis
    proof (elim disjE exE conjE)
      fix i l
      assume "st = PMB_ERR" "s' = s\<lparr>free_list := l\<rparr>" "list_wf l" "i \<in> list_ids (free_list s)" "list_ids l = list_ids (free_list s) - {i}"
      then show ?thesis
        using kv block(2) by (simp, blast)
    qed (use kv block(2) wf in simp)
  qed
qed

lemma pmb_tput_meta_fails:
  assumes call: "pmb_tput_meta uc (Some s) k (Some kv) = (st, kv', Some s')" and st: "st \<noteq> PMB_OK" and wf: "list_wf (meta_free_list s)"
  shows "kv' = Some kv \<and> s' = s\<lparr>meta_free_list := meta_free_list s'\<rparr> \<and> list_wf (meta_free_list s') \<and>
    (list_ids (meta_free_list s') = list_ids (meta_free_list s) \<or>
     st = PMB_ERR \<and> (\<exists>i\<in>list_ids (meta_free_list s). backend_direct (Some (bck s)) i = NULL \<and>
       list_ids (meta_free_list s') = list_ids (meta_free_list s) - {i}))"
proof -
  consider (refused) "kv' = Some kv" "s' = s"
    | (block) old kv2 where "tput_meta_new_block uc s k kv old = (st, kv2, s')" "kv' = Some kv2"
    using call by (auto simp: pmb_tput_meta_def Let_def split: if_splits prod.splits)
  then show ?thesis
  proof cases
    case refused
    then show ?thesis
      using wf by simp
  next
    case block
    with tput_meta_new_block_fails [OF block(1) st wf] show ?thesis
      by simp
  qed
qed

lemma store_free_lists [simp]: "store (s\<lparr>free_list := l\<rparr>) = store s" "store (s\<lparr>meta_free_list := l\<rparr>) = store s"
  by (simp_all add: store_def obj_at_def val_start_def present_def fun_eq_iff)

section \<open>Conflicts\<close>

lemma resolve_conflict:
  assumes a: "block_ok (bck s) i" "block_ok (bck s) j" "present s i" "present s j" "i \<noteq> j" "fits s i" "fits s j"
    and wf: "list_wf (free_list s)"
  defines "d \<equiv> (if h_version (blk_hdr s i) > h_version (blk_hdr s j) then i else j)"
  defines "r \<equiv> (if h_version (blk_hdr s i) > h_version (blk_hdr s j) then j else i)"
  shows "\<exists>s'. pmb_resolve_conflict (Some s) i j = Inr (r, s') \<and> \<not> present s' d \<and> conf_same s s' \<and>
    (\<forall>b. block_ok (bck s) b \<longrightarrow> b \<noteq> d \<longrightarrow> same_on (blk_ptr s b) (block_len (bck s) b) (mem s') (mem s)) \<and>
    list_ids (free_list s') = insert d (list_ids (free_list s))"
proof -
  have d: "block_ok (bck s) d" "present s d" "fits s d"
    using a by (simp_all add: d_def)
  let ?s1 = "clear_block d s"
  let ?s' = "?s1\<lparr>free_list := caslist_push (free_list ?s1) d\<rparr>"
  have z: "snd (backend_set_zero (Some (bck s)) (blk_ptr s d) s) = ?s1"
    using d(1) by (rule set_zero_clear)
  have "pmb_resolve_conflict (Some s) i j = Inr (r, ?s')"
    using a(3,4) z bs.direct_not_null [OF a(1)] bs.direct_not_null [OF a(2)]
    by (simp add: pmb_resolve_conflict_def Let_def backend_get_present [OF a(1)] backend_get_present [OF a(2)] d_def r_def
        split: if_splits)
  moreover have "\<not> present ?s' d"
    using clear_block_hdr(1) [of d s] by (simp add: present_def)
  moreover have "only (blk_ptr s d) (block_len (bck s) d) (mem s) (mem ?s1)"
    using d(3) by (rule clear_block_only)
  then have "same_on (blk_ptr s b) (block_len (bck s) b) (mem ?s') (mem s)" if "block_ok (bck s) b" "b \<noteq> d" for b
    using bs.other_block_same [OF d(1) that(1), of "mem ?s1" "mem s"] only_apart that(2) by simp
  moreover have "valid_id d"
    using block_ok_bounds [OF d(1)] d(2) by (simp add: valid_id_def present_def)
  then have "list_ids (free_list ?s') = insert d (list_ids (free_list s))"
    using list_push(2) [of "free_list ?s1" d] wf by simp
  ultimately show ?thesis
    by (intro exI [of _ ?s']) (simp add: conf_same_def)
qed

section \<open>Properties\<close>

text \<open>
  C23: a \<open>pmb_tput\<close> that fails, with whatever code, leaves the client's pair, the memory of the
  pool and hence every object and every transaction as they were. The free list stays the
  same too, except that one block can be lost when the code is the generic error.
\<close>

theorem pmb_tput_failure_keeps_objects:
  assumes "pmb_tput uc (Some s) k (Some kv) = (st, kv', Some s')" and "st \<noteq> PMB_OK" and "list_wf (free_list s)"
  shows "kv' = Some kv \<and> mem s' = mem s \<and> op_log s' = op_log s \<and> store s' = store s \<and> list_wf (free_list s') \<and>
    (list_ids (free_list s') = list_ids (free_list s) \<or>
     st = PMB_ERR \<and> (\<exists>i\<in>list_ids (free_list s). list_ids (free_list s') = list_ids (free_list s) - {i}))"
proof -
  note f = pmb_tput_fails [OF assms]
  have s': "s' = s\<lparr>free_list := free_list s'\<rparr>"
    using f by blast
  have "mem s' = mem s" "op_log s' = op_log s" "store s' = store s"
    by (subst s', simp)+
  then show ?thesis
    using f by blast
qed

theorem pmb_tput_failure_keeps_objects_witness:
  "\<exists>s'. pmb_tput sample_uc (Some sample_busy) 1 (Some (sample_pair 0 0 2000)) = (PMB_ESIZE, Some (sample_pair 0 0 2000), Some s') \<and>
    store s' = store sample_busy"
proof -
  have "pmb_tput sample_uc (Some sample_busy) 1 (Some (sample_pair 0 0 2000)) = (PMB_ESIZE, Some (sample_pair 0 0 2000), Some sample_busy)"
    by (simp add: pmb_tput_def tput_bad_args_def sample_pair_def sample_busy_facts)
  then show ?thesis
    using pmb_tput_failure_keeps_objects [of sample_uc sample_busy 1 "sample_pair 0 0 2000" PMB_ESIZE _ sample_busy] sample_busy_fields(8)
    by (simp add: pmb_codes)
qed

text \<open>
  A \<open>pmb_tput_meta\<close> that fails leaves the client's pair, the pool and the set of free meta
  blocks as they were: the block taken for the object is given back. Only an identifier on
  the list that names no block is dropped.
\<close>

theorem pmb_tput_meta_failure_keeps_objects:
  assumes "pmb_tput_meta uc (Some s) k (Some kv) = (st, kv', Some s')" and "st \<noteq> PMB_OK" and "list_wf (meta_free_list s)"
  shows "kv' = Some kv \<and> mem s' = mem s \<and> op_log s' = op_log s \<and> store s' = store s \<and>
    (list_ids (meta_free_list s') = list_ids (meta_free_list s) \<or>
     (\<exists>i\<in>list_ids (meta_free_list s). backend_direct (Some (bck s)) i = NULL \<and>
       list_ids (meta_free_list s') = list_ids (meta_free_list s) - {i}))"
proof -
  note f = pmb_tput_meta_fails [OF assms]
  have s': "s' = s\<lparr>meta_free_list := meta_free_list s'\<rparr>"
    using f by blast
  have "mem s' = mem s" "op_log s' = op_log s" "store s' = store s"
    by (subst s', simp)+
  then show ?thesis
    using f by blast
qed

theorem pmb_tput_meta_failure_keeps_objects_witness:
  "\<exists>s'. pmb_tput_meta sample_uc (Some sample_busy) 1 (Some (sample_pair 5 0 5)) = (PMB_EWRGID, Some (sample_pair 5 0 5), Some s') \<and>
    store s' = store sample_busy"
proof -
  have "pmb_tput_meta sample_uc (Some sample_busy) 1 (Some (sample_pair 5 0 5)) = (PMB_EWRGID, Some (sample_pair 5 0 5), Some sample_busy)"
    by (simp add: pmb_tput_meta_def sample_pair_def sample_busy_facts)
  then show ?thesis
    using pmb_tput_meta_failure_keeps_objects [of sample_uc sample_busy 1 "sample_pair 5 0 5" PMB_EWRGID _ sample_busy] sample_busy_fields(9)
    by (simp add: pmb_codes)
qed

text \<open>
  C33: \<open>pmb_tput\<close> loses a block when the transaction is not being processed: it takes the lowest
  free block before it finds out, returns the generic error and does not put the block back,
  so repeated calls empty the free list.
\<close>

theorem pmb_tput_leaks_block:
  assumes ok: "tx_ok s k" and st: "s_status (slot_at (mem s) (tx_slot_ptr s k)) \<noteq> status_code PROCESSING"
    and args: "\<not> tput_bad_args s k kv" "\<not> max_val_len s < p_offset kv + p_val_len kv" "p_blk_id kv = 0"
    and l: "list_wf (free_list s)" "i \<in> list_ids (free_list s)" "\<forall>j\<in>list_ids (free_list s). i \<le> j" and b: "block_ok (bck s) i"
  shows "\<exists>s'. pmb_tput uc (Some s) k (Some kv) = (PMB_ERR, Some kv, Some s') \<and>
    list_ids (free_list s') = list_ids (free_list s) - {i} \<and> store s' = store s"
  using l(1)
proof (cases rule: list_pop [where x = 0])
  case empty
  then show ?thesis
    using l(2) by simp
next
  case (taken v l')
  have "v = i"
    using taken(2,6) l(2,3) by (auto intro: antisym)
  have "tx_slot_op_write (s\<lparr>free_list := l'\<rparr>) k i n = (PMB_ERR, s\<lparr>free_list := l'\<rparr>)" for n
    using st by (simp add: tx_slot_op_write_def Let_def)
  then have "pmb_tput uc (Some s) k (Some kv) = (PMB_ERR, Some kv, Some (s\<lparr>free_list := l'\<rparr>))"
    using args taken(1) bs.direct_not_null [OF b] \<open>v = i\<close>
    by (simp add: pmb_tput_def tput_new_block_def Let_def pmb_codes)
  then show ?thesis
    using taken(5) \<open>v = i\<close> by simp
qed

theorem pmb_tput_leaks_block_witness:
  "\<exists>s'. pmb_tput sample_uc (Some sample_store) 1 (Some (sample_pair 0 0 5)) = (PMB_ERR, Some (sample_pair 0 0 5), Some s') \<and>
    list_ids (free_list s') = {1..32765} - {1}"
proof -
  have f: "list_ids (free_list sample_store) = {1..32765}"
    by (simp add: sample_store_def list_ids_def caslist_eval caslist_ids_def)
  have "s_status (slot_at (mem sample_store) (tx_slot_ptr sample_store 1)) \<noteq> status_code PROCESSING"
      "\<not> tput_bad_args sample_store 1 (sample_pair 0 0 5)"
      "\<not> max_val_len sample_store < p_offset (sample_pair 0 0 5) + p_val_len (sample_pair 0 0 5)" "p_blk_id (sample_pair 0 0 5) = 0"
      "block_ok (bck sample_store) 1"
    by (simp_all add: sample_store_def sample_pair_def tput_bad_args_def NULL_def slot_at_def block_ok_def sample_layout data_id_def
        sample_backend_fields)
  moreover have "1 \<in> list_ids (free_list sample_store)" "\<forall>j\<in>list_ids (free_list sample_store). 1 \<le> j"
    unfolding f by simp_all
  ultimately show ?thesis
    using pmb_tput_leaks_block [OF sample_tx_ok, of "sample_pair 0 0 5" 1 sample_uc] sample_store_lists(1) unfolding f by blast
qed

text \<open>
  C24: \<open>pmb_resolve_conflict\<close> on two different objects returns the identifier of the one with the
  lower version (of the first when the versions are equal), clears the other, whose block
  joins the list of free data blocks, and changes no other block. (The disabled test
  \<open>SecondObjectVersionIsValid\<close> expects the second one to be kept when the versions are equal.)
\<close>

theorem pmb_resolve_conflict_keeps_lower:
  assumes "block_ok (bck s) i" "block_ok (bck s) j" "present s i" "present s j" "i \<noteq> j" "fits s i" "fits s j" "list_wf (free_list s)"
  shows "\<exists>r d s'. pmb_resolve_conflict (Some s) i j = Inr (r, s') \<and> {r, d} = {i, j} \<and> r \<noteq> d \<and>
    h_version (blk_hdr s r) \<le> h_version (blk_hdr s d) \<and> (h_version (blk_hdr s i) = h_version (blk_hdr s j) \<longrightarrow> r = i) \<and>
    \<not> present s' d \<and> list_ids (free_list s') = insert d (list_ids (free_list s)) \<and>
    (\<forall>b. block_ok (bck s) b \<longrightarrow> b \<noteq> d \<longrightarrow> same_on (blk_ptr s b) (block_len (bck s) b) (mem s') (mem s))"
proof -
  let ?d = "if h_version (blk_hdr s i) > h_version (blk_hdr s j) then i else j"
  let ?r = "if h_version (blk_hdr s i) > h_version (blk_hdr s j) then j else i"
  have "{?r, ?d} = {i, j} \<and> ?r \<noteq> ?d \<and> h_version (blk_hdr s ?r) \<le> h_version (blk_hdr s ?d) \<and>
      (h_version (blk_hdr s i) = h_version (blk_hdr s j) \<longrightarrow> ?r = i)"
    using assms(5) by (auto simp: not_less)
  then show ?thesis
    using resolve_conflict [OF assms] by (elim exE conjE, intro exI conjI)
qed

theorem pmb_resolve_conflict_keeps_lower_witness:
  "\<exists>s'. pmb_resolve_conflict (Some sample_tx) 5 6 = Inr (6, s') \<and> \<not> present s' 5"
proof -
  have "present sample_tx 5" "present sample_tx 6" "fits sample_tx 5" "fits sample_tx 6"
      "h_version (blk_hdr sample_tx 6) < h_version (blk_hdr sample_tx 5)"
    using sample_blocks sample_tx_objects by (simp_all add: present_def fits_def obj_len_def)
  then show ?thesis
    using pmb_resolve_conflict_keeps_lower [of sample_tx 5 6] sample_blocks(3,4) sample_store_lists(1)
    by (auto simp: doubleton_eq_iff not_le [symmetric])
qed

text \<open>
  C34: the check of the size adds offset and length as 32-bit numbers. With an offset close to
  \<open>2 ^ 32\<close> the sum wraps to a small number, \<open>pmb_tput\<close> accepts the value and writes it
  beyond the end of the pool: here to an address more than 3 GB behind the block.
\<close>

theorem pmb_tput_size_check_wraps:
  "\<exists>s kv s'. max_val_len s = 1024 \<and> unat (p_offset kv) + unat (p_val_len kv) > 4000000000 \<and>
    pmb_tput sample_uc (Some s) 1 (Some kv) = (PMB_OK, Some (kv\<lparr>p_blk_id := 10\<rparr>), Some s') \<and>
    (\<exists>a. pool_end (bck s) \<le> a \<and> mem s a = 0 \<and> mem s' a = 7)"
proof -
  define s where "s = sample_busy\<lparr>mem := st_bytes (mem sample_busy) 0x2000 [7]\<rparr>"
  let ?kv = "sample_pair 0 0xFFFFFF00 600"
  have mo: "mem_only sample_busy s"
    by (simp add: s_def)
  note c = mem_only_simps [OF mo]
  have "only 0x2000 4 (mem sample_busy) (mem s)"
    by (simp add: s_def only_st_bytes)
  then have o: "same_on 0x10002000 0x800000 (mem sample_busy) (mem s)"
    using only_same_on [of "0x2000" 4 "mem sample_busy" "mem s" "0x10002000" "0x800000"] same_on_sym by simp
  have h: "tx_holds s 1 PROCESSING []" "tx_slot_ptr s 1 = 0x10002000" "slot_cap s = 0x800000"
    using tx_holds_mem_only [OF sample_busy_slot(4) mo] o by (simp_all add: sample_busy_slot c)
  have "slot_at (mem s) 0x10002000 = slot_at (mem sample_busy) 0x10002000"
    by (rule slot_at_cong [OF same_on_sym], rule same_on_sub [OF o]) simp_all
  then have sz: "slot_size s 1 = 24"
    using h(2) sample_busy_slot(3) by simp
  have ready: "put_ready s 1 [] 10"
    using h sz by (simp add: put_ready_def c sample_busy_fields)
  obtain l where l: "caslist_pop (free_list s) (Some 0) = (0, Some 10, l)"
    using ready by (rule put_ready_pop)
  define s1 where "s1 = s\<lparr>free_list := l\<rparr>"
  have h1: "tx_holds s1 1 PROCESSING []" "slot_size s1 1 + 24 \<le> slot_cap s1"
    using h sz by (simp_all add: s1_def)
  let ?n = "ucast (of_nat sizeof_pmb_data_hdr + ucast (max_key_len s) + ucast (p_val_len ?kv + p_offset ?kv) :: u64) :: u32"
  obtain s2 where s2: "tx_slot_op_write s1 1 10 ?n = (PMB_OK, s2)" "slot_only s1 1 s2"
    using op_write_appends [OF h1] by blast
  note c2 = mem_only_simps [OF slot_only_mem_only [OF s2(2)]]
  let ?p = "0x1800C000 :: nat" and ?a = "0x1800C000 + 32 + 64 + 0xFFFFFF00 :: nat"
  define s' where "s' = tput_fill sample_uc ?kv ?p NULL s2"
  have p: "backend_direct (Some (bck s)) 10 = ?p"
    by (simp add: c sample_busy_facts)
  have good: "\<not> tput_bad_args s 1 ?kv" "\<not> max_val_len s < p_offset ?kv + p_val_len ?kv" "p_blk_id ?kv = 0" "?p \<noteq> NULL"
    by (simp_all add: tput_bad_args_def sample_pair_def c sample_busy_facts)
  have put: "pmb_tput sample_uc (Some s) 1 (Some ?kv) = (PMB_OK, Some (?kv\<lparr>p_blk_id := 10\<rparr>), Some s')"
    using good l s2(1) p by (simp add: pmb_tput_def tput_new_block_def Let_def s'_def flip: s1_def)
  have m2: "mem s2 0x2000 = 7"
    using s2(2) h by (simp add: slot_only_def only_def s1_def tx_slot_ptr_def) (simp add: s_def st_bytes_def)
  have kv: "p_blk_id ?kv = 0" "p_val_len ?kv \<noteq> 0" "unat (p_offset ?kv) = 0xFFFFFF00" "unat (p_val_len ?kv) = 600" "p_val ?kv = 0x2000"
      "unat (p_key_len ?kv) = 3"
    by (simp_all add: sample_pair_def)
  have mk: "unat (max_key_len s2) = 64"
    using c c2 by (simp add: s1_def sample_busy_fields)
  obtain m0 x where m0: "m0 0x2000 = 7" and m': "mem s' = st_u64 (memcpy m0 ?a 0x2000 600) ?p x"
  proof -
    let ?m0 = "set_val_len (set_id (memcpy (set_version (set_key_len (mem s2) ?p (p_key_len ?kv)) ?p 1)
      (?p + 32) (p_key ?kv) (unat (p_key_len ?kv))) ?p (p_id ?kv)) ?p (p_val_len ?kv + p_offset ?kv)"
    have "only ?p 4096 (mem s2) ?m0"
      by (simp add: hdr_defs only_after kv)
    then have "?m0 0x2000 = 7"
      using m2 by (simp add: only_def)
    moreover have "\<exists>x. mem s' = st_u64 (memcpy ?m0 ?a 0x2000 600) ?p x"
      using tput_fill_new_mem(2) [OF sample_checksum kv(1), where s = s2 and p = ?p and old = NULL] kv mk
      by (auto simp: s'_def)
    ultimately show ?thesis
      using that by blast
  qed
  have "mem s' ?a = memcpy m0 ?a 0x2000 600 ?a"
    unfolding m' by (rule f64.put_outside) simp
  also have "\<dots> = 7"
    using m0 by (simp add: memcpy_def st_bytes_def ld_bytes_def)
  finally have "mem s' ?a = 7" .
  moreover have "mem s ?a = 0"
    by (simp add: s_def sample_busy_def st_bytes_def hdr_defs slot_defs f64.put_outside f32.put_outside)
  moreover have "pool_end (bck s) \<le> ?a"
    by (simp add: c sample_busy_fields pool_end_def sample_backend_fields)
  moreover have "max_val_len s = 1024"
    by (simp add: c sample_busy_fields)
  ultimately show ?thesis
    using put kv(3,4) by (intro exI [of _ s] exI [of _ ?kv] exI [of _ s'] conjI exI [of _ ?a]) simp_all
qed

section \<open>Executing too early\<close>

text \<open>
  C18: \<open>pmb_tx_execute\<close> on a transaction that has not committed returns the generic error and
  gives its slot back all the same. When no lower slot is free, the next \<open>pmb_tx_begin\<close> hands out the
  same slot and wipes the log that was still being written: nothing of the first transaction is
  registered any more, but what it wrote is neither undone nor free, on the pool and in the free lists.
\<close>

theorem pmb_tx_execute_frees_uncommitted:
  assumes "slots_ok s" and "store_ok s" and "tx_holds s k PROCESSING rs"
    and "\<forall>j\<in>list_ids (tx_slots_list (op_log s)). k < j"
  shows "\<exists>s1 s2. pmb_tx_execute uc (Some s) k = Inr (PMB_ERR, Some s1) \<and> tx_holds s1 k PROCESSING rs \<and>
    pmb_tx_begin (Some s1) (Some c) = (PMB_OK, Some k, Some s2) \<and> tx_holds s2 k PROCESSING [] \<and>
    store s2 = store s \<and> free_list s2 = free_list s \<and> meta_free_list s2 = meta_free_list s"
proof -
  let ?s1 = "tx_log_free_slot s k"
  have ok: "tx_ok s k" and st: "s_status (slot_at (mem s) (tx_slot_ptr s k)) = status_code PROCESSING"
    using assms(3) by (simp_all add: tx_holds_def slot_holds_def)
  have "status_code PROCESSING \<noteq> status_code COMMITED"
    by simp
  then have run: "pmb_tx_execute uc (Some s) k = Inr (PMB_ERR, Some ?s1)"
    using st ok by (auto simp: pmb_tx_execute_def tx_slot_execute_def Let_def tx_slot_ptr_def bindR_def tx_ok_def)
  have "list_wf (tx_slots_list (op_log s))"
    using assms(1) by (simp add: slots_ok_def)
  note so = free_slot_ids [OF assms(1) ok refl refl this order.refl]
  have h: "tx_holds ?s1 k PROCESSING rs"
    using assms(3) by (auto simp: tx_holds_def tx_ok_def tx_log_free_slot_def tx_slot_ptr_def)
  from so(1) show ?thesis
  proof (cases rule: begin_cases [where c = c])
    case busy
    then show ?thesis
      using so(2) by simp
  next
    case (taken k' l s2)
    have "k' \<le> k"
      using taken(3) so(2) by simp
    moreover have "k' = k \<or> k < k'"
      using taken(2) so(2) assms(4) by auto
    ultimately have "k' = k"
      by auto
    note b = taken [unfolded this]
    note c = mem_only_simps [OF b(4)]
    have cs: "conf_same s s2"
      using c by (simp add: conf_same_def tx_log_free_slot_def)
    have "only (tx_slot_ptr s k) (slot_cap s) (mem s) (mem s2)"
      using b(9) by (simp add: tx_log_free_slot_def tx_slot_ptr_def)
    from slot_change_store(1) [OF ok this cs assms(2)] show ?thesis
      using run h b(1,7) c by (intro exI [of _ ?s1] exI [of _ s2]) (simp add: tx_log_free_slot_def)
  qed
qed

theorem pmb_tx_execute_frees_uncommitted_witness:
  "\<exists>s0 s1 s2 s3. pmb_tx_begin (Some sample_store) (Some 0) = (PMB_OK, Some 1, Some s0) \<and>
    pmb_tput sample_uc (Some s0) 1 (Some (sample_pair 0 0 5)) = (PMB_OK, Some (sample_pair 1 0 5), Some s1) \<and>
    pmb_tx_execute sample_uc (Some s1) 1 = Inr (PMB_ERR, Some s2) \<and> pmb_tx_begin (Some s2) (Some 0) = (PMB_OK, Some 1, Some s3) \<and>
    tx_holds s3 1 PROCESSING [] \<and> present s1 1 \<and> store s3 = store s1"
proof (rule sample_run)
  fix s0 s1
  assume a: "pmb_tx_begin (Some sample_store) (Some 0) = (PMB_OK, Some 1, Some s0)"
    "pmb_tput sample_uc (Some s0) 1 (Some (sample_pair 0 0 5)) = (PMB_OK, Some (sample_pair 1 0 5), Some s1)"
    "tx_run sample_uc 1 s0 s1 [LWrite 1] [1 \<mapsto> sample_obj]" "present s1 1"
  note b = begun_run [OF sample_checksum sample_pool_inv a(1,3)]
  have h: "tx_holds s1 1 PROCESSING [LWrite 1]" "store_ok s1" and mo: "mem_only (s0\<lparr>free_list := free_list s1\<rparr>) s1"
    using b(2) by (simp_all add: run_inv_def)
  have lg: "op_log s1 = op_log s0" "bck s1 = bck s0"
    using mem_only_simps [OF mo] by simp_all
  have bg: "list_ids (tx_slots_list (op_log s0)) = list_ids (tx_slots_list (op_log sample_store)) - {1}"
      "op_log s0 = (op_log sample_store)\<lparr>tx_slots_list := tx_slots_list (op_log s0)\<rparr>" "list_wf (tx_slots_list (op_log s0))"
      "conf_same sample_store s0"
    using b(1) unfolding begun_def by blast+
  have ids: "list_ids (tx_slots_list (op_log sample_store)) = {1..16}"
    by (simp add: sample_store_def list_ids_def caslist_eval caslist_ids_def)
  have "tx_slots_count (op_log s0) = tx_slots_count (op_log sample_store)"
    by (subst bg(2)) simp
  then have "slots_ok s1"
    using sample_pool_inv bg(1,3,4) lg by (auto simp: slots_ok_def pool_inv_def conf_same_def)
  moreover have "\<forall>j\<in>list_ids (tx_slots_list (op_log s1)). 1 < j"
    unfolding lg(1) bg(1) ids by (auto simp: order_less_le)
  ultimately show ?thesis
    using pmb_tx_execute_frees_uncommitted [OF _ h(2,1), of sample_uc 0] a by blast
qed

end
