(* ===== verification/Sys.thy ===== *)
theory Sys
  imports Spec_Tx Api
begin

text \<open>
  Several open transactions on one store. \<open>sys_step\<close> relates the handle before and after one
  API call and says which event of the specification the call is; the calls of different
  transactions come in any order. What a rule asks of a call that returned success is a
  matter of the client's arguments, of the room left in the transaction's slot, which the code does not check,
  and of the identifier the call returned. \<open>rel\<close> ties the handle to the state of the
  specification, and every step keeps it.
\<close>

section \<open>Steps of the store\<close>

text \<open>
  What a put into the data region needs: lengths within the limits, buffers that overlap neither the
  slot nor block \<open>i\<close>, which the call returns and which is a block of the region, and room in the slot.
\<close>

definition put_client :: "pmb_handle \<Rightarrow> u64 \<Rightarrow> u64 \<Rightarrow> pmb_pair \<Rightarrow> bool" where
  "put_client s k i kv \<longleftrightarrow> put_args s i kv \<and> client_bufs s k kv \<and> i < total_objs_count s \<and> slot_size s k + 24 \<le> slot_cap s"

text \<open>The same for the meta region.\<close>

definition meta_client :: "pmb_handle \<Rightarrow> u64 \<Rightarrow> u64 \<Rightarrow> pmb_pair \<Rightarrow> bool" where
  "meta_client s k i kv \<longleftrightarrow> meta_args s i kv \<and> client_bufs s k kv \<and>
     unat (meta_max_key_len s) + unat (meta_max_val_len s) < 2 ^ 32 \<and> total_objs_count s \<le> i \<and> slot_size s k + 24 \<le> slot_cap s"

text \<open>
  What an update in place needs: a short value inside the limits, a data object, room in the
  slot, and a list of pending updates that is zeroed, which the code takes for granted.
\<close>

definition can_patch :: "pmb_handle \<Rightarrow> u64 \<Rightarrow> u64 \<Rightarrow> pmb_pair \<Rightarrow> bool" where
  "can_patch s k j kv \<longleftrightarrow> j = p_blk_id kv \<and> j \<noteq> 0 \<and> j < total_objs_count s \<and> \<not> tput_bad_args s k kv \<and>
     p_val_len kv < max_val_len s div 2 \<and> unat (p_offset kv) + unat (p_val_len kv) \<le> unat (max_val_len s) \<and>
     32 + unat (max_key_len s) + unat (max_val_len s) \<le> block_len (bck s) j \<and>
     slot_size s k + 24 + unat (p_val_len kv) \<le> slot_cap s \<and> client_bufs s k kv \<and> ml_idle (slot_ml s (ucast (k - 1)))"

text \<open>The bytes of block \<open>i\<close> that a put at an offset leaves in front of the value.\<close>

abbreviation left_over :: "pmb_handle \<Rightarrow> u64 \<Rightarrow> nat \<Rightarrow> u8 list" where
  "left_over s i n \<equiv> ld_bytes (mem s) (blk_ptr s i + 32 + unat (max_key_len s)) n"

text \<open>
  Calls that are refused: the status is an error, and for a put not the generic one. Execution and abort are
  not among them, since they give the slot back even when they fail.
\<close>

inductive refused :: "checksum_fn \<Rightarrow> pmb_handle \<Rightarrow> pmb_handle \<Rightarrow> bool" for uc :: checksum_fn where
  begin_tx: "pmb_tx_begin (Some s) (Some c) = (st, c', Some s') \<Longrightarrow> st \<noteq> PMB_OK \<Longrightarrow> refused uc s s'"
| put: "pmb_tput uc (Some s) k (Some kv) = (st, kv', Some s') \<Longrightarrow> st \<noteq> PMB_OK \<Longrightarrow> st \<noteq> PMB_ERR \<Longrightarrow> refused uc s s'"
| put_meta: "pmb_tput_meta uc (Some s) k (Some kv) = (st, kv', Some s') \<Longrightarrow> st \<noteq> PMB_OK \<Longrightarrow> st \<noteq> PMB_ERR \<Longrightarrow> refused uc s s'"
| remove: "pmb_tdel (Some s) k j = (st, Some s') \<Longrightarrow> st \<noteq> PMB_OK \<Longrightarrow> refused uc s s'"
| commit: "pmb_tx_commit uc (Some s) k = (st, Some s') \<Longrightarrow> st \<noteq> PMB_OK \<Longrightarrow> refused uc s s'"

text \<open>
  What is known of a put into the meta region that succeeds: the block it takes is the lowest
  free one (\<open>can_put\<close> says it of the data region).
\<close>

definition can_put_meta :: "pmb_handle \<Rightarrow> u64 \<Rightarrow> log_rec list \<Rightarrow> u64 \<Rightarrow> pmb_pair \<Rightarrow> bool" where
  "can_put_meta s k rs i kv \<longleftrightarrow> meta_ready s k rs i \<and> meta_args s i kv \<and> client_bufs s k kv \<and>
     unat (meta_max_key_len s) + unat (meta_max_val_len s) < 2 ^ 32 \<and> total_objs_count s \<le> i"

text \<open>The calls of a run.\<close>

inductive sys_step :: "checksum_fn \<Rightarrow> pmb_handle \<Rightarrow> event \<Rightarrow> pmb_handle \<Rightarrow> bool" for uc :: checksum_fn where
  begin_tx: "pmb_tx_begin (Some s) (Some c) = (PMB_OK, Some k, Some s') \<Longrightarrow> sys_step uc s (EBegin k) s'"
| put: "pmb_tput uc (Some s) k (Some kv) = (PMB_OK, Some kv', Some s') \<Longrightarrow> p_blk_id kv = 0 \<Longrightarrow> i = p_blk_id kv' \<Longrightarrow>
    put_client s k i kv \<Longrightarrow> present s' i \<Longrightarrow>
    sys_step uc s (EPut k i \<lparr>ob_id = p_id kv, ob_version = 1, ob_key = key_bytes s kv,
      ob_val = left_over s i (unat (p_offset kv)) @ val_bytes s kv\<rparr>) s'"
| put_meta: "pmb_tput_meta uc (Some s) k (Some kv) = (PMB_OK, Some kv', Some s') \<Longrightarrow> p_blk_id kv = 0 \<Longrightarrow> i = p_blk_id kv' \<Longrightarrow>
    meta_client s k i kv \<Longrightarrow> present s' i \<Longrightarrow>
    sys_step uc s (EPut k i \<lparr>ob_id = h_id (blk_hdr s i), ob_version = 1, ob_key = key_bytes s kv, ob_val = val_bytes s kv\<rparr>) s'"
| update: "pmb_tput uc (Some s) k (Some kv) = (PMB_OK, Some kv', Some s') \<Longrightarrow> i = p_blk_id kv' \<Longrightarrow> put_client s k i kv \<Longrightarrow>
    can_update s i j kv \<Longrightarrow> present s' i \<Longrightarrow>
    sys_step uc s (EReplace k j i (p_id kv) (key_bytes s kv) (unat (p_offset kv)) (val_bytes s kv)) s'"
| update_meta: "pmb_tput_meta uc (Some s) k (Some kv) = (PMB_OK, Some kv', Some s') \<Longrightarrow> i = p_blk_id kv' \<Longrightarrow> meta_client s k i kv \<Longrightarrow>
    j = p_blk_id kv \<Longrightarrow> j \<noteq> 0 \<Longrightarrow> \<not> j < total_objs_count s \<Longrightarrow> present s' i \<Longrightarrow>
    sys_step uc s (EReplaceMeta k j i (h_id (blk_hdr s i)) (key_bytes s kv) (val_bytes s kv)) s'"
| remove: "slot_size s k + 24 \<le> slot_cap s \<Longrightarrow> pmb_tdel (Some s) k j = (PMB_OK, Some s') \<Longrightarrow> sys_step uc s (ERemove k j) s'"
| patch: "can_patch s k j kv \<Longrightarrow> pmb_tput uc (Some s) k (Some kv) = (PMB_OK, Some kv', Some s') \<Longrightarrow>
    sys_step uc s (EPatch k j (p_offset kv) (val_bytes s kv)) s'"
| commit: "pmb_tx_commit uc (Some s) k = (PMB_OK, Some s') \<Longrightarrow> sys_step uc s (ECommit k) s'"
| execute: "tx_holds s k COMMITED rs \<Longrightarrow> pmb_tx_execute uc (Some s) k = Inr (PMB_OK, Some s') \<Longrightarrow>
    \<forall>j\<in>inplace_ids rs. present s' j \<Longrightarrow> sys_step uc s (EExecute k) s'"
| abort: "pmb_tx_abort uc (Some s) k = (PMB_OK, Some s') \<Longrightarrow> sys_step uc s (EAbort k) s'"
| refused: "refused uc s s' \<Longrightarrow> sys_step uc s ERefused s'"

inductive sys_run :: "checksum_fn \<Rightarrow> pmb_handle \<Rightarrow> event list \<Rightarrow> pmb_handle \<Rightarrow> spec_state \<Rightarrow> bool"
  for uc :: checksum_fn and s0 :: pmb_handle where
  start: "sys_run uc s0 [] s0 \<lparr>c_map = store s0, running = Map.empty\<rparr>"
| step: "sys_run uc s0 es s a \<Longrightarrow> client_ok a e \<Longrightarrow> sys_step uc s e s' \<Longrightarrow> sys_run uc s0 (es @ [e]) s' (spec_do e a)"

section \<open>The relation between store and specification\<close>

definition free_ids :: "pmb_handle \<Rightarrow> u64 set" where
  "free_ids s = {i \<in> list_ids (free_list s). i < total_objs_count s} \<union> {i \<in> list_ids (meta_free_list s). \<not> i < total_objs_count s}"

text \<open>Identifiers on the list of the wrong region.\<close>

definition stray_ids :: "pmb_handle \<Rightarrow> u64 set \<times> u64 set" where
  "stray_ids s = (list_ids (free_list s) \<inter> {i. \<not> i < total_objs_count s}, list_ids (meta_free_list s) \<inter> {i. i < total_objs_count s})"

abbreviation space :: "pmb_handle \<Rightarrow> u64 set \<times> u64 set \<times> u64 set" where
  "space s \<equiv> (free_ids s \<union> dom (store s), stray_ids s)"

abbreviation slot_ids :: "pmb_handle \<Rightarrow> u64 set" where
  "slot_ids s \<equiv> list_ids (tx_slots_list (op_log s))"

definition pend_ok :: "pmb_handle \<Rightarrow> bool" where
  "pend_ok s \<longleftrightarrow> length (upd_id_list (op_log s)) = unat (tx_slots_count (op_log s)) \<and> (\<forall>ml\<in>set (upd_id_list (op_log s)). ml_rest ml)"

text \<open>The log of a transaction in its slot.\<close>

definition tx_conc :: "pmb_handle \<Rightarrow> u64 \<Rightarrow> open_tx \<Rightarrow> bool" where
  "tx_conc s k t \<longleftrightarrow> tx_holds s k (if t_done t then COMMITED else PROCESSING) (t_ops t) \<and>
     (\<forall>r\<in>set (t_ops t). inplaced r \<noteq> {} \<longrightarrow> rec_ok s r) \<and> (\<forall>i\<in>inplace_ids (t_ops t). i < total_objs_count s) \<and>
     (inplace_ids (t_ops t) \<noteq> {} \<longrightarrow> ml_idle (slot_ml s (ucast (k - 1))))"

text \<open>The store shows the committed objects and those that open transactions wrote.\<close>

definition shown :: "(u64 \<rightharpoonup> pmb_obj) \<Rightarrow> spec_state \<Rightarrow> bool" where
  "shown m a \<longleftrightarrow> (\<forall>k t i. running a k = Some t \<longrightarrow> i \<in> dom (t_new t) \<longrightarrow> m i = t_new t i) \<and>
     (\<forall>i. (\<forall>k t. running a k = Some t \<longrightarrow> i \<notin> dom (t_new t)) \<longrightarrow> m i = c_map a i)"

definition rel :: "u64 set \<times> u64 set \<times> u64 set \<Rightarrow> u64 set \<Rightarrow> pmb_handle \<Rightarrow> spec_state \<Rightarrow> bool" where
  "rel U K s a \<longleftrightarrow> spec_inv a \<and> slots_ok s \<and> store_ok s \<and> list_wf (free_list s) \<and> list_wf (meta_free_list s) \<and> pend_ok s \<and>
     slot_ids s \<inter> dom (running a) = {} \<and> slot_ids s \<union> dom (running a) = K \<and>
     (\<forall>k t. running a k = Some t \<longrightarrow> tx_conc s k t) \<and> shown (store s) a \<and>
     free_ids s \<inter> dom (store s) = {} \<and> space s = U"

lemma relD:
  assumes "rel U K s a"
  shows "spec_inv a" and "slots_ok s" and "store_ok s" and "list_wf (free_list s)" and "list_wf (meta_free_list s)" and "pend_ok s"
    and "slot_ids s \<inter> dom (running a) = {}" and "slot_ids s \<union> dom (running a) = K"
    and "running a k = Some t \<Longrightarrow> tx_conc s k t" and "shown (store s) a"
    and "free_ids s \<inter> dom (store s) = {}" and "space s = U"
    and "running a k = Some t \<Longrightarrow> tx_inv (c_map a) t"
    and "running a k = Some t \<Longrightarrow> running a l = Some u \<Longrightarrow> k \<noteq> l \<Longrightarrow> touched t \<inter> touched u = {}"
proof -
  note d = assms [unfolded rel_def]
  show "spec_inv a" "slots_ok s" "store_ok s" "list_wf (free_list s)" "list_wf (meta_free_list s)" "pend_ok s"
    "slot_ids s \<inter> dom (running a) = {}" "slot_ids s \<union> dom (running a) = K" "shown (store s) a"
    "free_ids s \<inter> dom (store s) = {}" "space s = U"
    using d by - (elim conjE, assumption)+
  show "running a k = Some t \<Longrightarrow> tx_conc s k t"
    using d by blast
  then show "running a k = Some t \<Longrightarrow> tx_inv (c_map a) t"
    "running a k = Some t \<Longrightarrow> running a l = Some u \<Longrightarrow> k \<noteq> l \<Longrightarrow> touched t \<inter> touched u = {}"
    using \<open>spec_inv a\<close> unfolding spec_inv_def by blast+
qed

lemma shownD:
  assumes "shown m a"
  shows "running a k = Some t \<Longrightarrow> i \<in> dom (t_new t) \<Longrightarrow> m i = t_new t i"
    and "(\<And>k t. running a k = Some t \<Longrightarrow> i \<notin> dom (t_new t)) \<Longrightarrow> m i = c_map a i"
  using assms unfolding shown_def by blast+

text \<open>What a transaction sees is what the store holds.\<close>

lemma committed_shown:
  assumes rel: "rel U K s a" and i: "c_map a i = Some ob"
  shows "store s i = Some ob"
proof -
  have "i \<notin> dom (t_new t)" if "running a k = Some t" for k t
    using tx_invD(2) [OF relD(13) [OF rel that]] i by blast
  then show ?thesis
    using shownD(2) [OF relD(10) [OF rel], of i] i by simp
qed

lemma view_shown:
  assumes rel: "rel U K s a" and k: "running a k = Some t" and i: "(c_map a ++ t_new t) i = Some ob"
  shows "store s i = Some ob"
  using i shownD(1) [OF relD(10) [OF rel] k, of i] committed_shown [OF rel, of i] by (auto simp: map_add_Some_iff domIff)

lemma touched_shown:
  assumes rel: "rel U K s a" and k: "running a k = Some t"
  shows "touched t \<subseteq> dom (store s)"
proof
  fix i
  assume i: "i \<in> touched t"
  then have "i \<in> dom (c_map a ++ t_new t)"
    using tx_invD(3) [OF relD(13) [OF rel k]] by (auto simp: touched_def)
  then show "i \<in> dom (store s)"
    using view_shown [OF rel k] by (metis domD domI)
qed

lemma free_fresh:
  assumes rel: "rel U K s a" and i: "i \<in> free_ids s"
  shows "fresh a i"
proof -
  have "i \<notin> dom (store s)"
    using relD(11) [OF rel] i by blast
  then show ?thesis
    using touched_shown [OF rel] committed_shown [OF rel, of i] unfolding fresh_def by blast
qed

lemma store_block: "store s i \<noteq> None \<Longrightarrow> block_ok (bck s) i \<and> present s i \<and> i \<noteq> 0 \<and> store s i = Some (obj_at s i)"
  by (auto simp: store_def present_def split: if_splits)

lemma store_fits: "store_ok s \<Longrightarrow> store s i \<noteq> None \<Longrightarrow> in_block s i \<and> fits s i"
  using store_block [of s i] in_block_fits [of s i] by (simp add: store_ok_def)

section \<open>Frames\<close>

lemma log_ok_end: "log_ok m p p rs \<Longrightarrow> rs = []"
proof (cases rs)
  case (Cons r rs')
  assume "log_ok m p p rs"
  then show ?thesis
    using Cons log_ok_le [of m "p + rec_size r" p rs'] rec_size_ge [of r] by simp
qed

lemma log_ok_unique: "log_ok m p e rs \<Longrightarrow> log_ok m p e rs' \<Longrightarrow> rs = rs'"
proof (induction rs arbitrary: p rs')
  case Nil
  then show ?case
    using log_ok_end [of m e rs'] by simp
next
  case (Cons r rs)
  have "rs' \<noteq> []"
    using Cons.prems log_ok_end [of m e "r # rs"] by auto
  then obtain r' rs'' where "rs' = r' # rs''"
    by (cases rs') simp_all
  then show ?case
    using Cons.IH [of "p + rec_size r" rs''] Cons.prems by auto
qed

lemma tx_holds_unique: "tx_holds s k st rs \<Longrightarrow> tx_holds s k st' rs' \<Longrightarrow> rs = rs'"
  using log_ok_unique by (auto simp: tx_holds_def slot_holds_def)

lemma tx_conc_ok: "tx_conc s k t \<Longrightarrow> tx_ok s k"
  by (simp add: tx_conc_def tx_holds_def)

lemma ml_changed_other:
  assumes ml: "ml_changed (ucast (k - 1)) s s'" and "tx_ok s k" "tx_ok s l" "l \<noteq> k"
  shows "slot_ml s' (ucast (l - 1)) = slot_ml s (ucast (l - 1))"
proof -
  have "unat (ucast (l - 1) :: u8) \<noteq> unat (ucast (k - 1) :: u8)"
    using tx_index(1,3) [OF assms(2)] tx_index(1,3) [OF assms(3)] assms(4) by (simp add: word_unat_eq_iff)
  then show ?thesis
    using ml by (simp add: ml_changed_def)
qed

lemma ml_changed_same: "op_log s' = op_log s \<Longrightarrow> ml_changed t s s'"
  by (simp add: ml_changed_def)

lemma tx_conc_frame:
  assumes t: "tx_conc s l u" and "slot_kept s k s'" and "tx_ok s k" and "l \<noteq> k"
    and c: "conf_same s s'" "tx_slots_count (op_log s') = tx_slots_count (op_log s)" and ml: "ml_changed (ucast (k - 1)) s s'"
  shows "tx_conc s' l u"
proof -
  have c': "bck s' = bck s" "total_objs_count s' = total_objs_count s" "max_key_len s' = max_key_len s"
    using c by (simp_all add: conf_same_def)
  have h: "tx_holds s' l (if t_done u then COMMITED else PROCESSING) (t_ops u)"
    using t tx_holds_kept(1) [OF _ assms(2-4) c'(1) c(2)] by (simp add: tx_conc_def)
  have "rec_ok s' r = rec_ok s r" if "inplaced r \<noteq> {}" for r
    using that c' by (cases r) simp_all
  moreover have "slot_ml s' (ucast (l - 1)) = slot_ml s (ucast (l - 1))"
    using ml_changed_other [OF ml assms(3) tx_conc_ok [OF t] assms(4)] .
  ultimately show ?thesis
    using t h by (simp add: tx_conc_def c'(2))
qed

lemma slots_ok_cong:
  assumes "slots_ok s" and "bck s' = bck s" and "op_log s' = op_log s"
  shows "slots_ok s'"
  using assms(1) unfolding slots_ok_def assms(2,3) .

section \<open>Operations inside a transaction\<close>

lemma shown_append:
  assumes sh: "shown m a" and op: "op_fine a k t r w"
  shows "shown (m ++ w) (append_op k r w a)"
proof -
  note k = op_fineD(1) [OF op] and w = op_fineD(3,4) [OF op]
  let ?t = "t\<lparr>t_ops := t_ops t @ [r], t_new := t_new t ++ w\<rparr>"
  have run: "running (append_op k r w a) = (running a)(k \<mapsto> ?t)" "c_map (append_op k r w a) = c_map a"
    by (simp_all add: append_op_def k)
  have "(m ++ w) i = t_new u i" if u: "((running a)(k \<mapsto> ?t)) l = Some u" "i \<in> dom (t_new u)" for l u i
  proof (cases "l = k")
    case True
    then have "t_new u = t_new t ++ w"
      using u(1) by auto
    then show ?thesis
      using shownD(1) [OF sh k, of i] u(2) by (cases "i \<in> dom w") (auto simp: map_add_dom_app_simps)
  next
    case False
    then have l: "running a l = Some u"
      using u(1) by simp
    then have "i \<notin> dom w"
      using w(2) [OF _ l] u(2) by (auto simp: touched_def)
    then show ?thesis
      using shownD(1) [OF sh l u(2)] by (simp add: map_add_dom_app_simps)
  qed
  moreover have "(m ++ w) i = c_map a i" if i: "\<And>l u. ((running a)(k \<mapsto> ?t)) l = Some u \<Longrightarrow> i \<notin> dom (t_new u)" for i
  proof -
    have n: "i \<notin> dom (t_new t)" "i \<notin> dom w"
      using i [of k ?t] by auto
    have "i \<notin> dom (t_new u)" if "running a l = Some u" for l u
      using i [of l u] n(1) that k by (cases "l = k") auto
    then show ?thesis
      using shownD(2) [OF sh, of i] n(2) by (simp add: map_add_dom_app_simps)
  qed
  ultimately show ?thesis
    unfolding shown_def run by blast
qed

lemma rel_op:
  assumes rel: "rel U K s a" and op: "op_fine a k t r w"
    and c: "conf_same s s'" "op_log s' = op_log s" "slot_kept s k s'"
      "tx_conc s' k (t\<lparr>t_ops := t_ops t @ [r], t_new := t_new t ++ w\<rparr>)"
    and st: "store s' = store s ++ w" "store_ok s'" and l: "list_wf (free_list s')" "list_wf (meta_free_list s')"
    and f: "dom w \<subseteq> free_ids s" "free_ids s' = free_ids s - dom w" "stray_ids s' = stray_ids s"
  shows "rel U K s' (append_op k r w a)"
proof -
  note k = op_fineD(1) [OF op]
  have run: "running (append_op k r w a) = (running a)(k \<mapsto> t\<lparr>t_ops := t_ops t @ [r], t_new := t_new t ++ w\<rparr>)"
    by (simp add: append_op_def k)
  have dom: "dom (running (append_op k r w a)) = dom (running a)"
    using k by (auto simp: run)
  have "tx_conc s' j u" if "running (append_op k r w a) j = Some u" for j u
    using that c(4) tx_conc_frame [OF relD(9) [OF rel] c(3) tx_conc_ok [OF relD(9) [OF rel k]] _ c(1)] c(2) ml_changed_same [OF c(2)]
    by (cases "j = k") (auto simp: run)
  moreover have "bck s' = bck s"
    using c(1) by (simp add: conf_same_def)
  then have "slots_ok s'"
    using slots_ok_cong [OF relD(2) [OF rel] _ c(2)] by simp
  moreover have "free_ids s' \<inter> dom (store s') = {}" "space s' = U"
    using relD(11) [OF rel] f unfolding relD(12) [OF rel, symmetric] by (auto simp: st(1))
  moreover have "pend_ok s'"
    using relD(6) [OF rel] by (simp add: pend_ok_def c(2))
  moreover have "shown (store s') (append_op k r w a)"
    unfolding st(1) using relD(10) [OF rel] op by (rule shown_append)
  ultimately show ?thesis
    using spec_inv_append [OF relD(1) [OF rel] op] relD(7,8) [OF rel] st(2) l unfolding rel_def dom c(2) by blast
qed

text \<open>A block is filled, every other block keeps its bytes.\<close>

lemma store_filled:
  assumes c: "conf_same s s'" and ok: "store_ok s" and i: "block_ok (bck s) i" "present s' i" "in_block s' i"
    and same: "\<And>j. block_ok (bck s) j \<Longrightarrow> j \<noteq> i \<Longrightarrow> same_on (blk_ptr s j) (block_len (bck s) j) (mem s') (mem s)"
  shows "store s' = store s ++ [i \<mapsto> obj_at s' i]" and "store_ok s'"
proof -
  have b: "bck s' = bck s"
    using c by (simp add: conf_same_def)
  have "store s' j = store s j" if "j \<noteq> i" for j
    using same that by (intro store_same [OF c ok]) blast
  then show "store s' = store s ++ [i \<mapsto> obj_at s' i]"
    using i by (auto simp: fun_eq_iff store_def b)
  have "in_block s' j" if j: "block_ok (bck s) j" "present s' j" for j
    using block_same_obj(2,3) [OF c j(1) same [OF j(1)]] j ok i(3) by (cases "j = i") (auto simp: store_ok_def)
  then show "store_ok s'"
    by (simp add: store_ok_def b)
qed

text \<open>One more record without an update in place.\<close>

lemma tx_conc_append:
  assumes t: "tx_conc s k t" and o: "\<not> t_done t" and h: "tx_holds s' k PROCESSING (t_ops t @ [r])"
    and r: "inplaced r \<noteq> {} \<longrightarrow> rec_ok s' r \<and> ml_idle (slot_ml s (ucast (k - 1)))" "\<forall>i\<in>inplaced r. i < total_objs_count s"
    and c: "conf_same s s'" "op_log s' = op_log s"
  shows "tx_conc s' k (t\<lparr>t_ops := t_ops t @ [r], t_new := w\<rparr>)"
proof -
  have c': "bck s' = bck s" "total_objs_count s' = total_objs_count s" "max_key_len s' = max_key_len s"
    using c by (simp_all add: conf_same_def)
  have "rec_ok s' x = rec_ok s x" if "inplaced x \<noteq> {}" for x
    using that c' by (cases x) simp_all
  then show ?thesis
    using t o h r by (auto simp: tx_conc_def c'(2) c(2))
qed

lemma op_write_fine:
  assumes rel: "rel U K s a" and o: "opn a k t" and i: "i \<in> free_ids s"
  shows "op_fine a k t (LWrite i) [i \<mapsto> ob]"
  using o free_fresh [OF rel i] tx_invD(5) [OF relD(13) [OF rel, of k t]] by (simp add: op_fine_def opn_def)

text \<open>Two facts on an open transaction: its log, and which records it holds.\<close>

lemma opn_holds:
  assumes rel: "rel U K s a" and o: "opn a k t"
  shows "tx_conc s k t" and "tx_holds s k PROCESSING (t_ops t)"
  using relD(9) [OF rel, of k t] o by (simp_all add: opn_def tx_conc_def)

lemma opn_recs:
  assumes "rel U K s a" and "opn a k t" and "tx_holds s k st rs"
  shows "rs = t_ops t"
  using assms(3) opn_holds(2) [OF assms(1,2)] by (rule tx_holds_unique)

lemma rel_written:
  assumes rel: "rel U K s a" and o: "opn a k t" and i: "i \<in> free_ids s" "block_ok (bck s) i" "present s' i" "in_block s' i"
    and op: "op_fine a k t r [i \<mapsto> obj_at s' i]" and r: "inplaced r = {}"
    and c: "conf_same s s'" "op_log s' = op_log s" "slot_kept s k s'" and h: "tx_holds s' k PROCESSING (t_ops t @ [r])"
    and same: "\<forall>j. block_ok (bck s) j \<longrightarrow> j \<noteq> i \<longrightarrow> same_on (blk_ptr s j) (block_len (bck s) j) (mem s') (mem s)"
    and l: "list_wf (free_list s')" "list_wf (meta_free_list s')" "free_ids s' = free_ids s - {i}" "stray_ids s' = stray_ids s"
  shows "rel U K s' (append_op k r [i \<mapsto> obj_at s' i] a)"
proof -
  have "\<not> t_done t"
    using o by (simp add: opn_def)
  note t = tx_conc_append [OF opn_holds(1) [OF rel o] this h _ _ c(1,2)]
  note st = store_filled [OF c(1) relD(3) [OF rel] i(2-4) same [rule_format]]
  show ?thesis
    using st l i(1) r by (intro rel_op [OF rel op c t]) simp_all
qed

lemma rel_put:
  assumes ck: "checksum_spec uc ck" and rel: "rel U K s a" and o: "opn a k t" and can: "can_put s k rs i kv"
    and new: "p_blk_id kv = 0"
    and call: "pmb_tput uc (Some s) k (Some kv) = (PMB_OK, Some kv', Some s')" and pr: "present s' i"
  defines "ob \<equiv> \<lparr>ob_id = p_id kv, ob_version = 1, ob_key = key_bytes s kv,
    ob_val = left_over s i (unat (p_offset kv)) @ val_bytes s kv\<rparr>"
  shows "fresh a i \<and> rel U K s' (append_op k (LWrite i) [i \<mapsto> ob] a)"
proof -
  have a: "put_ready s k rs i" "put_args s i kv" "client_bufs s k kv" "\<not> tput_bad_args s k kv" "i < total_objs_count s"
    using can by (simp_all add: can_put_def)
  obtain e: "mem_only (s\<lparr>free_list := free_list s'\<rparr>) s'" "tx_holds s' k PROCESSING (rs @ [LWrite i])" "list_wf (free_list s')"
      "list_ids (free_list s') = list_ids (free_list s) - {i}"
      "\<forall>j. block_ok (bck s) j \<longrightarrow> j \<noteq> i \<longrightarrow> same_on (blk_ptr s j) (block_len (bck s) j) (mem s') (mem s)" "slot_kept s k s'" "fits s' i"
      "obj_at s' i = ob"
    using tput_new_effect [OF ck a(1,2,3) new a(4,5)] call by (elim exE conjE) (simp add: ob_def)
  note c = mem_only_simps [OF e(1)]
  have "tx_holds s k PROCESSING rs"
    using a(1) by (simp add: put_ready_def)
  note rs = opn_recs [OF rel o this]
  have b: "block_ok (bck s) i" and i: "i \<in> free_ids s"
    using a(1,2,5) by (auto simp: put_args_def put_ready_def free_ids_def)
  have ib: "in_block s' i"
    using e(7,8) a(2,5) c put_args_cong [of s' s i kv] unfolding ob_def
    by (intro put_in_block [of s' i kv s]) (simp_all add: put_args_def)
  have cs: "conf_same s s'" "op_log s' = op_log s" "list_wf (meta_free_list s')" "free_ids s' = free_ids s - {i}"
      "stray_ids s' = stray_ids s"
    using c relD(5) [OF rel] e(4) a(5) by (auto simp: conf_same_def free_ids_def stray_ids_def)
  have "rel U K s' (append_op k (LWrite i) [i \<mapsto> obj_at s' i] a)"
    using rel_written [OF rel o i b pr ib op_write_fine [OF rel o i] _ cs(1,2) e(6) _ e(5,3) cs(3-5)] e(2) rs by simp
  then show ?thesis
    using free_fresh [OF rel i] e(8) by simp
qed

lemma can_put_meta_free: "can_put_meta s k rs i kv \<Longrightarrow> i \<in> free_ids s"
  by (auto simp: can_put_meta_def meta_ready_def free_ids_def)

text \<open>A put into the meta region, of a new object or of the next version of one.\<close>

lemma rel_meta_stored:
  assumes ck: "checksum_spec uc ck" and rel: "rel U K s a" and o: "opn a k t" and can: "can_put_meta s k rs i kv" "meta_source s i kv"
    and fine: "\<And>ob. op_fine a k t (meta_rec kv i) [i \<mapsto> ob]"
    and call: "pmb_tput_meta uc (Some s) k (Some kv) = (PMB_OK, Some kv', Some s')" and pr: "present s' i"
  defines "ob \<equiv> \<lparr>ob_id = h_id (blk_hdr s i), ob_version = meta_version s kv, ob_key = key_bytes s kv, ob_val = val_bytes s kv\<rparr>"
  shows "fresh a i \<and> rel U K s' (append_op k (meta_rec kv i) [i \<mapsto> ob] a)"
proof -
  have d: "meta_ready s k rs i" "meta_args s i kv" "client_bufs s k kv"
      "unat (meta_max_key_len s) + unat (meta_max_val_len s) < 2 ^ 32" "total_objs_count s \<le> i"
    using can(1) by (simp_all add: can_put_meta_def)
  obtain e: "mem_only (s\<lparr>meta_free_list := meta_free_list s'\<rparr>) s'" "tx_holds s' k PROCESSING (rs @ [meta_rec kv i])"
      "list_wf (meta_free_list s')" "list_ids (meta_free_list s') = list_ids (meta_free_list s) - {i}"
      "\<forall>j. block_ok (bck s) j \<longrightarrow> j \<noteq> i \<longrightarrow> same_on (blk_ptr s j) (block_len (bck s) j) (mem s') (mem s)" "slot_kept s k s'" "fits s' i"
      "obj_at s' i = ob"
    using tput_meta_effect [OF ck d(1-3) can(2) d(4,5)] call by (elim exE conjE) (simp add: ob_def)
  note c = mem_only_simps [OF e(1)]
  have "tx_holds s k PROCESSING rs"
    using d(1) by (simp add: meta_ready_def)
  note rs = opn_recs [OF rel o this]
  have b: "block_ok (bck s) i" and i: "i \<in> free_ids s" "\<not> i < total_objs_count s"
    using d(1,2,5) by (auto simp: meta_args_def meta_ready_def free_ids_def)
  have ib: "in_block s' i"
    using e(7) i(2) c by (simp add: in_block_def fits_def obj_len_def val_start_def)
  have cs: "conf_same s s'" "op_log s' = op_log s" "list_wf (free_list s')" "free_ids s' = free_ids s - {i}" "stray_ids s' = stray_ids s"
    using c relD(4) [OF rel] e(4) i(2) by (auto simp: conf_same_def free_ids_def stray_ids_def)
  have "inplaced (meta_rec kv i) = {}"
    by (simp add: meta_rec_def)
  then have "rel U K s' (append_op k (meta_rec kv i) [i \<mapsto> obj_at s' i] a)"
    using rel_written [OF rel o i(1) b pr ib fine _ cs(1,2) e(6) _ e(5) cs(3) e(3) cs(4,5)] e(2) rs by simp
  then show ?thesis
    using free_fresh [OF rel i(1)] e(8) by simp
qed

lemma rel_put_meta:
  assumes ck: "checksum_spec uc ck" and rel: "rel U K s a" and o: "opn a k t" and can: "can_put_meta s k rs i kv" and new: "p_blk_id kv = 0"
    and call: "pmb_tput_meta uc (Some s) k (Some kv) = (PMB_OK, Some kv', Some s')" and pr: "present s' i"
  shows "fresh a i \<and> rel U K s' (append_op k (LWrite i)
    [i \<mapsto> \<lparr>ob_id = h_id (blk_hdr s i), ob_version = 1, ob_key = key_bytes s kv, ob_val = val_bytes s kv\<rparr>] a)"
proof -
  have "op_fine a k t (meta_rec kv i) [i \<mapsto> ob]" for ob
    using op_write_fine [OF rel o can_put_meta_free [OF can]] new by (simp add: meta_new)
  from rel_meta_stored [OF ck rel o can meta_new(1) [OF new] this call pr] show ?thesis
    using new by (simp add: meta_new)
qed

lemma usable_store:
  assumes rel: "rel U K s a" and o: "opn a k t" and u: "usable a k t j"
  shows "tx_view a t j = store s j" and "store s j = Some (obj_at s j)" and "block_ok (bck s) j" and "present s j" and "j \<notin> free_ids s"
proof -
  obtain ob where ob: "tx_view a t j = Some ob"
    using u by (auto simp: usable_def)
  then have "(c_map a ++ t_new t) j = Some ob"
    by (auto simp: tx_view_def restrict_map_def split: if_splits)
  then have st: "store s j = Some ob"
    using view_shown [OF rel, of k t j ob] o by (simp add: opn_def)
  then show "tx_view a t j = store s j"
    by (simp add: ob)
  show "store s j = Some (obj_at s j)" "block_ok (bck s) j" "present s j"
    using store_block [of s j] st by simp_all
  show "j \<notin> free_ids s"
    using relD(11) [OF rel] st by blast
qed

text \<open>The block \<open>i\<close> that takes the next version of \<open>j\<close>.\<close>

lemma op_update_fine:
  assumes rel: "rel U K s a" and o: "opn a k t" and j: "usable a k t j" "j \<notin> inplace_ids (t_ops t)" and i: "i \<in> free_ids s"
  shows "op_fine a k t (LUpdate j i) [i \<mapsto> ob]"
  using o j free_fresh [OF rel i] tx_invD(5) [OF relD(13) [OF rel, of k t]] by (simp add: op_fine_def opn_def)

lemma usable_meta_source:
  assumes rel: "rel U K s a" and o: "opn a k t" and u: "usable a k t j" and can: "can_put_meta s k rs i kv"
    and j: "j = p_blk_id kv" "\<not> j < total_objs_count s"
  shows "meta_source s i kv"
  using usable_store(3-5) [OF rel o u] can_put_meta_free [OF can] j by (auto simp: meta_source_def)

lemma rel_update_meta:
  assumes ck: "checksum_spec uc ck" and rel: "rel U K s a" and o: "opn a k t" and can: "can_put_meta s k rs i kv"
    and j: "j = p_blk_id kv" "j \<noteq> 0" "\<not> j < total_objs_count s" and u: "usable a k t j" "j \<notin> inplace_ids (t_ops t)"
    and call: "pmb_tput_meta uc (Some s) k (Some kv) = (PMB_OK, Some kv', Some s')" and pr: "present s' i"
  shows "fresh a i \<and> rel U K s' (append_op k (LUpdate j i)
    [i \<mapsto> renewed a k j (h_id (blk_hdr s i)) (key_bytes s kv) (val_bytes s kv)] a)"
proof -
  have r: "meta_rec kv i = LUpdate j i"
    using j by (simp add: meta_rec_def)
  have "meta_version s kv = ob_version (the (tx_view a (the (running a k)) j)) + 1"
    using o j(1,2) usable_store(1,2) [OF rel o u(1)] by (simp add: meta_version_def opn_def obj_at_def)
  then show ?thesis
    using rel_meta_stored [OF ck rel o can usable_meta_source [OF rel o u(1) can j(1,3)] _ call pr]
      op_update_fine [OF rel o u can_put_meta_free [OF can]] by (simp add: r renewed_def)
qed

lemma rel_update:
  assumes ck: "checksum_spec uc ck" and rel: "rel U K s a" and o: "opn a k t" and can: "can_put s k rs i kv" "can_update s i j kv"
    and j: "usable a k t j" "j \<notin> inplace_ids (t_ops t)"
    and call: "pmb_tput uc (Some s) k (Some kv) = (PMB_OK, Some kv', Some s')" and pr: "present s' i"
  defines "ob \<equiv> replaced a k j (p_id kv) (key_bytes s kv) (unat (p_offset kv)) (val_bytes s kv)"
  shows "fresh a i \<and> rel U K s' (append_op k (LUpdate j i) [i \<mapsto> ob] a)"
proof -
  have a: "put_ready s k rs i" "put_args s i kv" "client_bufs s k kv" "\<not> tput_bad_args s k kv" "i < total_objs_count s"
    using can by (simp_all add: can_put_def)
  have u: "j = p_blk_id kv" "\<not> p_val_len kv < max_val_len s div 2" "p_val_len kv \<noteq> 0" "p_offset kv \<le> h_val_len (blk_hdr s j)"
      "unat (h_val_len (blk_hdr s j)) \<le> unat (max_val_len s)" "block_len (bck s) j = block_len (bck s) i" "j < total_objs_count s"
    using can unfolding can_update_def by blast+
  note sj = usable_store [OF rel o j(1)]
  have jf: "j \<notin> list_ids (free_list s)"
    using sj(5) u(7) by (simp add: free_ids_def)
  have ob: "ob = \<lparr>ob_id = p_id kv, ob_version = h_version (blk_hdr s j) + 1, ob_key = key_bytes s kv,
      ob_val = overlay (unat (p_offset kv)) (val_bytes s kv)
        (ld_bytes (mem s) (blk_ptr s j + 32 + unat (max_key_len s)) (unat (h_val_len (blk_hdr s j))))\<rparr>"
    using o u(7) by (simp add: ob_def replaced_def opn_def sj(1,2) obj_at_def val_start_def add.assoc)
  obtain e: "mem_only (s\<lparr>free_list := free_list s'\<rparr>) s'" "tx_holds s' k PROCESSING (rs @ [LUpdate j i])" "list_wf (free_list s')"
      "list_ids (free_list s') = list_ids (free_list s) - {i}"
      "\<forall>b. block_ok (bck s) b \<longrightarrow> b \<noteq> i \<longrightarrow> same_on (blk_ptr s b) (block_len (bck s) b) (mem s') (mem s)" "slot_kept s k s'" "fits s' i"
      "obj_at s' i = ob"
    using tput_update_effect [OF ck a(1,2,3,4) u(1) sj(3,4) jf u(2-6) a(5)] call unfolding ob by (elim exE conjE) simp
  note c = mem_only_simps [OF e(1)]
  have "tx_holds s k PROCESSING rs"
    using a(1) by (simp add: put_ready_def)
  note rs = opn_recs [OF rel o this]
  have b: "block_ok (bck s) i" and i: "i \<in> free_ids s"
    using a(1,2,5) by (auto simp: put_args_def put_ready_def free_ids_def)
  have "unat (p_offset kv) \<le> unat (h_val_len (blk_hdr s j))"
    using u(4) by (simp add: word_le_unat)
  then have "length (ob_val (obj_at s' i)) \<le> unat (max_val_len s)"
    using u(5) a(2) by (auto simp: e(8) ob overlay_def put_args_def min_def)
  then have ib: "in_block s' i"
    using e(7,8) a(2,5) c put_args_cong [of s' s i kv] unfolding ob by (intro put_in_block [of s' i kv s]) simp_all
  have cs: "conf_same s s'" "op_log s' = op_log s" "list_wf (meta_free_list s')" "free_ids s' = free_ids s - {i}"
      "stray_ids s' = stray_ids s"
    using c relD(5) [OF rel] e(4) a(5) by (auto simp: conf_same_def free_ids_def stray_ids_def)
  have "rel U K s' (append_op k (LUpdate j i) [i \<mapsto> obj_at s' i] a)"
    using rel_written [OF rel o i b pr ib op_update_fine [OF rel o j i] _ cs(1,2) e(6) _ e(5,3) cs(3-5)] e(2) rs by simp
  then show ?thesis
    using free_fresh [OF rel i] e(8) by simp
qed

text \<open>Operations that only write into the slot.\<close>

lemma rel_logged:
  assumes rel: "rel U K s a" and o: "opn a k t" and op: "op_fine a k t r Map.empty" and so: "slot_only s k s'"
    and h: "tx_holds s' k PROCESSING (t_ops t @ [r])"
    and r: "inplaced r \<noteq> {} \<longrightarrow> rec_ok s r \<and> ml_idle (slot_ml s (ucast (k - 1)))" "\<forall>i\<in>inplaced r. i < total_objs_count s"
  shows "rel U K s' (append_op k r Map.empty a)"
proof -
  have ok: "tx_ok s k" and ch: "only (tx_slot_ptr s k) (slot_cap s) (mem s) (mem s')"
    using opn_holds(1) [OF rel o] so by (simp_all add: tx_conc_ok slot_only_def)
  note c = mem_only_simps [OF slot_only_mem_only [OF so]]
  have cs: "conf_same s s'"
    using c by (simp add: conf_same_def)
  have "\<not> t_done t" "inplaced r \<noteq> {} \<longrightarrow> rec_ok s' r \<and> ml_idle (slot_ml s (ucast (k - 1)))"
    using o r(1) c by (simp_all add: opn_def) (cases r; simp)
  note t = tx_conc_append [OF opn_holds(1) [OF rel o] this(1) h this(2) r(2) cs c(2)]
  have "list_wf (free_list s')" "list_wf (meta_free_list s')" "free_ids s' = free_ids s" "stray_ids s' = stray_ids s"
    using relD(4,5) [OF rel] c by (simp_all add: free_ids_def stray_ids_def)
  then show ?thesis
    using slot_change_store [OF ok ch cs relD(3) [OF rel]]
    by (intro rel_op [OF rel op cs c(2) slot_change_kept [OF ok ch] t]) simp_all
qed

text \<open>What the two calls register in the slot.\<close>

lemma remove_call:
  assumes h: "tx_holds s k PROCESSING rs" and room: "slot_size s k + 24 \<le> slot_cap s" and call: "pmb_tdel (Some s) k j = (PMB_OK, Some s')"
  shows "tx_holds s' k PROCESSING (rs @ [LRemove j])" and "slot_only s k s'"
proof -
  obtain s2 where s2: "tx_slot_op_remove s k j = (PMB_OK, s2)" "tx_holds s2 k PROCESSING (rs @ [LRemove j])" "slot_only s k s2"
    using op_remove_appends [OF h room] by blast
  have "s2 = s'"
    using call s2(1) by (auto simp: pmb_tdel_def pmb_codes split: if_splits)
  then show "tx_holds s' k PROCESSING (rs @ [LRemove j])" "slot_only s k s'"
    using s2(2,3) by simp_all
qed

lemma patch_call:
  assumes h: "tx_holds s k PROCESSING rs" and can: "can_patch s k j kv"
    and call: "pmb_tput uc (Some s) k (Some kv) = (PMB_OK, Some kv', Some s')"
  shows "tx_holds s' k PROCESSING (rs @ [LInplace j (p_offset kv) (val_bytes s kv)])" and "slot_only s k s'"
proof -
  have p: "j = p_blk_id kv" "j \<noteq> 0" "\<not> tput_bad_args s k kv" "p_val_len kv < max_val_len s div 2"
      "unat (p_offset kv) + unat (p_val_len kv) \<le> unat (max_val_len s)"
      "slot_size s k + 24 + unat (p_val_len kv) \<le> slot_cap s" "apart (tx_slot_ptr s k) (slot_cap s) (p_val kv) (unat (p_val_len kv))"
    using can unfolding can_patch_def client_bufs_def by blast+
  obtain s2 where s2: "tx_slot_op_small_update s k j (p_val kv) (p_offset kv) (p_val_len kv) = (PMB_OK, s2)"
      "tx_holds s2 k PROCESSING (rs @ [LInplace j (p_offset kv) (val_bytes s kv)])" "slot_only s k s2"
    using op_small_update_appends [OF h p(6,7)] by blast
  have "unat (p_offset kv + p_val_len kv) = unat (p_offset kv) + unat (p_val_len kv)"
    using p(5) unat_lt_32 [of "max_val_len s"] by (simp add: unat_word_ariths)
  then have "\<not> max_val_len s < p_offset kv + p_val_len kv"
    using p(5) by (simp add: word_less_unat)
  then have "s2 = s'"
    using call s2(1) p(1-4) by (simp add: pmb_tput_def)
  then show "tx_holds s' k PROCESSING (rs @ [LInplace j (p_offset kv) (val_bytes s kv)])" "slot_only s k s'"
    using s2(2,3) by simp_all
qed

lemma rel_remove:
  assumes rel: "rel U K s a" and o: "opn a k t" and j: "usable a k t j" "j \<notin> inplace_ids (t_ops t)"
    and room: "slot_size s k + 24 \<le> slot_cap s" and call: "pmb_tdel (Some s) k j = (PMB_OK, Some s')"
  shows "rel U K s' (append_op k (LRemove j) Map.empty a)"
proof -
  have "op_fine a k t (LRemove j) Map.empty"
    using o j tx_invD(5) [OF relD(13) [OF rel, of k t]] by (simp add: op_fine_def opn_def)
  then show ?thesis
    using rel_logged [OF rel o] remove_call [OF opn_holds(2) [OF rel o] room call] by simp
qed

lemma rel_patch:
  assumes rel: "rel U K s a" and o: "opn a k t" and j: "usable a k t j" and can: "can_patch s k j kv"
    and card: "card (insert j (inplace_ids (t_ops t))) \<le> 128"
    and gap: "unat (p_offset kv) \<le> length (ob_val (fold (rec_patch j) (t_ops t) (the (tx_view a t j))))"
    and call: "pmb_tput uc (Some s) k (Some kv) = (PMB_OK, Some kv', Some s')"
  shows "rel U K s' (append_op k (LInplace j (p_offset kv) (val_bytes s kv)) Map.empty a)"
proof -
  let ?r = "LInplace j (p_offset kv) (val_bytes s kv)"
  have p: "j \<noteq> 0" "j < total_objs_count s" "unat (p_offset kv) + unat (p_val_len kv) \<le> unat (max_val_len s)"
      "32 + unat (max_key_len s) + unat (max_val_len s) \<le> block_len (bck s) j" "ml_idle (slot_ml s (ucast (k - 1)))"
    using can unfolding can_patch_def by blast+
  have "op_fine a k t ?r Map.empty"
    using o j card gap by (simp add: op_fine_def)
  moreover have "rec_ok s ?r"
    using usable_store(3) [OF rel o j] p by simp
  ultimately show ?thesis
    using rel_logged [OF rel o, of ?r] patch_call [OF opn_holds(2) [OF rel o] can call] p(2,5) by simp
qed

section \<open>The calls of a run\<close>

text \<open>A put that succeeds has taken the lowest free block.\<close>

lemma tput_took:
  assumes call: "pmb_tput uc (Some s) k (Some kv) = (PMB_OK, Some kv', Some s')" and wf: "list_wf (free_list s)"
    and new: "p_blk_id kv = 0 \<or> \<not> p_val_len kv < max_val_len s div 2"
  shows "\<not> tput_bad_args s k kv" and "p_blk_id kv' \<in> list_ids (free_list s)" and "\<forall>j\<in>list_ids (free_list s). p_blk_id kv' \<le> j"
proof -
  show "\<not> tput_bad_args s k kv"
    using call by (auto simp: pmb_tput_def pmb_codes)
  obtain old where blk: "tput_new_block uc s k kv old = (PMB_OK, kv', s')"
    using call new by (auto simp: pmb_tput_def pmb_codes Let_def split: if_splits prod.splits)
  show "p_blk_id kv' \<in> list_ids (free_list s)" "\<forall>j\<in>list_ids (free_list s). p_blk_id kv' \<le> j"
    by (rule list_pop [OF wf, of 0]; use blk in \<open>auto simp: tput_new_block_def Let_def pmb_codes split: if_splits prod.splits\<close>)+
qed

lemma tput_meta_took:
  assumes call: "pmb_tput_meta uc (Some s) k (Some kv) = (PMB_OK, Some kv', Some s')" and wf: "list_wf (meta_free_list s)"
  shows "p_blk_id kv' \<in> list_ids (meta_free_list s)" and "\<forall>j\<in>list_ids (meta_free_list s). p_blk_id kv' \<le> j"
proof -
  obtain old where blk: "tput_meta_new_block uc s k kv old = (PMB_OK, kv', s')"
    using call by (auto simp: pmb_tput_meta_def pmb_codes Let_def split: if_splits prod.splits)
  show "p_blk_id kv' \<in> list_ids (meta_free_list s)" "\<forall>j\<in>list_ids (meta_free_list s). p_blk_id kv' \<le> j"
    by (rule list_pop [OF wf, of 0]; use blk in \<open>auto simp: tput_meta_new_block_def Let_def pmb_codes split: if_splits prod.splits\<close>)+
qed

lemma took_can_put:
  assumes rel: "rel U K s a" and o: "opn a k t" and c: "put_client s k i kv" and i: "i = p_blk_id kv'"
    and call: "pmb_tput uc (Some s) k (Some kv) = (PMB_OK, Some kv', Some s')"
    and new: "p_blk_id kv = 0 \<or> \<not> p_val_len kv < max_val_len s div 2"
  shows "can_put s k (t_ops t) i kv"
  using tput_took [OF call relD(4) [OF rel] new] c opn_holds(2) [OF rel o] relD(4) [OF rel] i
  by (auto simp: can_put_def put_client_def put_ready_def)

lemma took_can_put_meta:
  assumes rel: "rel U K s a" and o: "opn a k t" and c: "meta_client s k i kv" and i: "i = p_blk_id kv'"
    and call: "pmb_tput_meta uc (Some s) k (Some kv) = (PMB_OK, Some kv', Some s')"
  shows "can_put_meta s k (t_ops t) i kv"
  using tput_meta_took [OF call relD(5) [OF rel]] c opn_holds(2) [OF rel o] relD(5) [OF rel] i
  by (auto simp: can_put_meta_def meta_client_def meta_ready_def)

text \<open>A refused call changes nothing.\<close>

lemma new_block_refused:
  assumes st: "st \<noteq> PMB_OK" "st \<noteq> PMB_ERR"
  shows "tput_new_block uc s k kv old = (st, kv', s') \<Longrightarrow> list_wf (free_list s) \<Longrightarrow> s' = s"
    and "tput_meta_new_block uc s k kv old = (st, kv', s') \<Longrightarrow> list_wf (meta_free_list s) \<Longrightarrow> s' = s"
proof -
  show "s' = s" if "tput_new_block uc s k kv old = (st, kv', s')" "list_wf (free_list s)"
    using tput_new_block_fails [OF that(1) st(1) that(2)] st(2) by blast
  show "s' = s" if "tput_meta_new_block uc s k kv old = (st, kv', s')" and wf: "list_wf (meta_free_list s)"
    using wf
  proof (cases rule: list_pop [where x = 0])
    case (taken i l)
    then show ?thesis
      using that(1) st put_op_fails by (auto simp: tput_meta_new_block_def Let_def put_op_def [symmetric] split: if_splits prod.splits)
  qed (use that(1) in \<open>simp add: tput_meta_new_block_def Let_def\<close>)
qed

lemma refused_same:
  assumes "refused uc s s'" and so: "slots_ok s" and wf: "list_wf (free_list s)" "list_wf (meta_free_list s)"
  shows "s' = s"
  using assms(1)
proof (cases rule: refused.cases)
  case (begin_tx c st c')
  show ?thesis
    using so by (rule begin_cases [where c = c]) (use begin_tx in auto)
next
  case (put k kv st kv')
  then show ?thesis
    using new_block_refused(1) [OF put(2,3) _ wf(1)] op_fails_same(3) [of s k "p_blk_id kv" "p_val kv" "p_offset kv" "p_val_len kv" st s']
    by (auto simp: pmb_tput_def Let_def split: if_splits prod.splits)
next
  case (put_meta k kv st kv')
  then show ?thesis
    using new_block_refused(2) [OF put_meta(2,3) _ wf(2)] by (auto simp: pmb_tput_meta_def Let_def split: if_splits prod.splits)
next
  case (remove k j st)
  then show ?thesis
    using op_fails_same(4) by (auto simp: pmb_tdel_def split: if_splits prod.splits)
next
  case (commit k st)
  then show ?thesis
    by (auto simp: pmb_tx_commit_def tx_slot_commit_def Let_def split: if_splits prod.splits)
qed

text \<open>The cases of a call, with what the store and the transaction bring in.\<close>

lemma sys_step_cases:
  assumes rel: "rel U K s a" and ok: "client_ok a e" and step: "sys_step uc s e s'"
  obtains (begin_tx) c k where "e = EBegin k" "pmb_tx_begin (Some s) (Some c) = (PMB_OK, Some k, Some s')"
  | (put) k t i kv kv' where "e = EPut k i \<lparr>ob_id = p_id kv, ob_version = 1, ob_key = key_bytes s kv,
        ob_val = left_over s i (unat (p_offset kv)) @ val_bytes s kv\<rparr>" "opn a k t" "can_put s k (t_ops t) i kv" "p_blk_id kv = 0"
      "pmb_tput uc (Some s) k (Some kv) = (PMB_OK, Some kv', Some s')" "present s' i"
  | (put_meta) k t i kv kv' where
      "e = EPut k i \<lparr>ob_id = h_id (blk_hdr s i), ob_version = 1, ob_key = key_bytes s kv, ob_val = val_bytes s kv\<rparr>"
      "opn a k t" "can_put_meta s k (t_ops t) i kv" "p_blk_id kv = 0"
      "pmb_tput_meta uc (Some s) k (Some kv) = (PMB_OK, Some kv', Some s')" "present s' i"
  | (update) k t j i kv kv' where "e = EReplace k j i (p_id kv) (key_bytes s kv) (unat (p_offset kv)) (val_bytes s kv)" "opn a k t"
      "can_put s k (t_ops t) i kv" "can_update s i j kv" "usable a k t j" "j \<notin> inplace_ids (t_ops t)"
      "pmb_tput uc (Some s) k (Some kv) = (PMB_OK, Some kv', Some s')" "present s' i"
  | (update_meta) k t j i kv kv' where "e = EReplaceMeta k j i (h_id (blk_hdr s i)) (key_bytes s kv) (val_bytes s kv)" "opn a k t"
      "can_put_meta s k (t_ops t) i kv" "j = p_blk_id kv" "j \<noteq> 0" "\<not> j < total_objs_count s" "usable a k t j" "j \<notin> inplace_ids (t_ops t)"
      "pmb_tput_meta uc (Some s) k (Some kv) = (PMB_OK, Some kv', Some s')" "present s' i"
  | (remove) k t j where "e = ERemove k j" "opn a k t" "usable a k t j" "j \<notin> inplace_ids (t_ops t)"
      "slot_size s k + 24 \<le> slot_cap s" "pmb_tdel (Some s) k j = (PMB_OK, Some s')"
  | (patch) k t j kv kv' where "e = EPatch k j (p_offset kv) (val_bytes s kv)" "opn a k t" "usable a k t j" "can_patch s k j kv"
      "card (insert j (inplace_ids (t_ops t))) \<le> 128"
      "unat (p_offset kv) \<le> length (ob_val (fold (rec_patch j) (t_ops t) (the (tx_view a t j))))"
      "pmb_tput uc (Some s) k (Some kv) = (PMB_OK, Some kv', Some s')"
  | (commit) k t where "e = ECommit k" "opn a k t" "pmb_tx_commit uc (Some s) k = (PMB_OK, Some s')"
  | (execute) k t where "e = EExecute k" "running a k = Some t" "t_done t" "tx_holds s k COMMITED (t_ops t)"
      "pmb_tx_execute uc (Some s) k = Inr (PMB_OK, Some s')" "\<forall>j\<in>inplace_ids (t_ops t). present s' j"
  | (abort) k t where "e = EAbort k" "running a k = Some t" "inplace_ids (t_ops t) = {}" "pmb_tx_abort uc (Some s) k = (PMB_OK, Some s')"
  | (refused) "e = ERefused" "s' = s"
  using step
proof (cases rule: sys_step.cases)
  case s: (begin_tx c k)
  then show ?thesis
    by (rule begin_tx)
next
  case s: (put k kv kv' i)
  then obtain t where "opn a k t"
    using ok by auto
  from put [OF s(1) this took_can_put [OF rel this s(5,4,2)] s(3,2,6)] s(3) show ?thesis
    by simp
next
  case s: (put_meta k kv kv' i)
  then obtain t where "opn a k t"
    using ok by auto
  from put_meta [OF s(1) this took_can_put_meta [OF rel this s(5,4,2)] s(3,2,6)] show ?thesis .
next
  case s: (update k kv kv' i j)
  then obtain t where t: "opn a k t" "usable a k t j" "j \<notin> inplace_ids (t_ops t)"
    using ok by auto
  have "\<not> p_val_len kv < max_val_len s div 2"
    using s(5) by (simp add: can_update_def)
  with update [OF s(1) t(1) took_can_put [OF rel t(1) s(4,3,2)] s(5) t(2,3) s(2,6)] show ?thesis
    by simp
next
  case s: (update_meta k kv kv' i j)
  then obtain t where t: "opn a k t" "usable a k t j" "j \<notin> inplace_ids (t_ops t)"
    using ok by auto
  from update_meta [OF s(1) t(1) took_can_put_meta [OF rel t(1) s(4,3,2)] s(5-7) t(2,3) s(2,8)] show ?thesis .
next
  case s: (remove k j)
  then show ?thesis
    using ok remove by auto
next
  case s: (patch k j kv kv')
  then show ?thesis
    using ok patch by auto
next
  case s: (commit k)
  then show ?thesis
    using ok commit by auto
next
  case s: (execute k rs)
  then obtain t where t: "running a k = Some t" "t_done t"
    using ok by auto
  then have h: "tx_holds s k COMMITED (t_ops t)"
    using relD(9) [OF rel t(1)] by (simp add: tx_conc_def)
  with s(2) have "rs = t_ops t"
    by (rule tx_holds_unique)
  with execute [OF s(1) t h s(3)] s(4) show ?thesis
    by simp
next
  case s: (abort k)
  then show ?thesis
    using ok abort by auto
next
  case s: refused
  from refused [OF s(1) refused_same [OF s(2) relD(2,4,5) [OF rel]]] show ?thesis .
qed

end
