(* ===== verification/Sim.thy ===== *)
theory Sim
  imports Sys
begin

text \<open>
  Begin, commit, execution and abort keep the relation between store and specification; with
  the operations of \<open>Sys\<close> this gives the simulation, the conservation of blocks and slots and
  the fact that every open transaction can be finished.
\<close>

section \<open>Begin, commit, execution, abort\<close>

lemma shown_same_new:
  assumes sh: "shown m a" and t: "t_new t' = (case running a k of None \<Rightarrow> Map.empty | Some t \<Rightarrow> t_new t)"
  shows "shown m (a\<lparr>running := (running a)(k \<mapsto> t')\<rparr>)"
  unfolding shown_def
proof (intro conjI allI impI)
  fix l u i
  assume u: "running (a\<lparr>running := (running a)(k \<mapsto> t')\<rparr>) l = Some u" and i: "i \<in> dom (t_new u)"
  show "m i = t_new u i"
    using u i t shownD(1) [OF sh, of l _ i] by (cases "l = k") (auto split: option.splits)
next
  fix i
  assume i: "\<forall>l u. running (a\<lparr>running := (running a)(k \<mapsto> t')\<rparr>) l = Some u \<longrightarrow> i \<notin> dom (t_new u)"
  have "i \<notin> dom (t_new u)" if u: "running a l = Some u" for l u
  proof (cases "l = k")
    case True
    then show ?thesis
      using i [rule_format, of k t'] u t by simp
  next
    case False
    then show ?thesis
      using i [rule_format, of l u] u by simp
  qed
  then show "m i = c_map (a\<lparr>running := (running a)(k \<mapsto> t')\<rparr>) i"
    using shownD(2) [OF sh, of i] by simp
qed

lemma rel_begin:
  assumes rel: "rel U K s a" and call: "pmb_tx_begin (Some s) (Some c) = (PMB_OK, Some k, Some s')"
  shows "running a k = None \<and> rel U K s' (spec_do (EBegin k) a)"
  using relD(2) [OF rel]
proof (cases rule: begin_cases [where c = c])
  case busy
  then show ?thesis
    using call by (simp add: pmb_codes)
next
  case (taken k' l s1)
  then have e: "k' = k" "s1 = s'"
    using call by simp_all
  note b = taken [unfolded e]
  note c = mem_only_simps [OF b(4)]
  have cs: "conf_same s s'"
    using c by (simp add: conf_same_def)
  have new: "running a k = None"
    using relD(7) [OF rel] b(2) by auto
  then have inv: "spec_inv (spec_do (EBegin k) a)"
    using relD(1) [OF rel] by (intro spec_inv_step) (simp_all add: spec_enabled_def)
  note st = slot_change_store [OF b(10,9) cs relD(3) [OF rel]]
  have "slots_ok s'"
    using relD(2) [OF rel] b(5,6) c by (auto simp: slots_ok_def)
  moreover have "tx_conc s' j u" if "running (spec_do (EBegin k) a) j = Some u" for j u
  proof (cases "j = k")
    case True
    then show ?thesis
      using that b(7) by (auto simp: tx_conc_def)
  next
    case False
    then show ?thesis
      using that c by (intro tx_conc_frame [OF relD(9) [OF rel] slot_change_kept [OF b(10,9)] b(10) False cs]) (simp_all add: ml_changed_def)
  qed
  moreover have "shown (store s') (spec_do (EBegin k) a)"
    unfolding st(1) spec_do.simps by (rule shown_same_new [OF relD(10) [OF rel]]) (simp add: new)
  moreover have "list_wf (free_list s')" "list_wf (meta_free_list s')" "pend_ok s'" "free_ids s' = free_ids s" "stray_ids s' = stray_ids s"
      "slot_ids s' = slot_ids s - {k}"
    using relD(4-6) [OF rel] c b(6) by (simp_all add: pend_ok_def free_ids_def stray_ids_def)
  ultimately show ?thesis
    using new inv st relD(7,8,11,12) [OF rel] b(2) unfolding rel_def by auto
qed

lemma rel_commit:
  assumes ck: "checksum_spec uc ck" and rel: "rel U K s a" and o: "opn a k t"
  shows "\<exists>s'. pmb_tx_commit uc (Some s) k = (PMB_OK, Some s') \<and> rel U K s' (spec_do (ECommit k) a)"
proof -
  have k: "running a k = Some t" "\<not> t_done t"
    using o by (simp_all add: opn_def)
  note tc = opn_holds(1) [OF rel o] note h = opn_holds(2) [OF rel o] note ok = tx_conc_ok [OF tc]
  obtain s' where s': "tx_slot_commit uc s k = (PMB_OK, s')" "tx_holds s' k COMMITED (t_ops t)" "slot_only s k s'"
    using tx_slot_commit_ok [OF ck h] by blast
  have ch: "only (tx_slot_ptr s k) (slot_cap s) (mem s) (mem s')"
    using s'(3) by (simp add: slot_only_def)
  note c = mem_only_simps [OF slot_only_mem_only [OF s'(3)]]
  have cs: "conf_same s s'"
    using c by (simp add: conf_same_def)
  note st = slot_change_store [OF ok ch cs relD(3) [OF rel]]
  let ?a = "spec_do (ECommit k) a" and ?t = "t\<lparr>t_done := True\<rparr>"
  have run: "running ?a = (running a)(k \<mapsto> ?t)" "c_map ?a = c_map a"
    by (simp_all add: k)
  have "spec_inv ?a"
    using relD(1) [OF rel] o by (intro spec_inv_step) (auto simp: spec_enabled_def)
  moreover have "tx_conc s' j u" if "running ?a j = Some u" for j u
  proof (cases "j = k")
    case True
    have "rec_ok s' r = rec_ok s r" if "inplaced r \<noteq> {}" for r
      using that c by (cases r) simp_all
    then show ?thesis
      using True that s'(2) tc c k unfolding run by (auto simp: tx_conc_def)
  next
    case False
    then show ?thesis
      using that c by (intro tx_conc_frame [OF relD(9) [OF rel] slot_change_kept [OF ok ch] ok False cs]) (simp_all add: run ml_changed_same)
  qed
  moreover have "shown (store s') ?a"
    using shown_same_new [OF relD(10) [OF rel], of ?t k] unfolding st(1) by (simp add: k)
  moreover have "slots_ok s'" "list_wf (free_list s')" "list_wf (meta_free_list s')" "pend_ok s'" "free_ids s' = free_ids s"
      "stray_ids s' = stray_ids s" "slot_ids s' = slot_ids s" "dom (running ?a) = dom (running a)"
    using slots_ok_cong [OF relD(2) [OF rel] c(1,2)] relD(4-6) [OF rel] c k by (auto simp: pend_ok_def free_ids_def stray_ids_def)
  ultimately have "rel U K s' ?a"
    using st relD(7,8,11,12) [OF rel] unfolding rel_def by simp
  moreover have "pmb_tx_commit uc (Some s) k = (PMB_OK, Some s')"
    using s'(1) ok by (auto simp: pmb_tx_commit_def tx_ok_def)
  ultimately show ?thesis
    by blast
qed

lemma store_free_slot [simp]: "store (tx_log_free_slot s k) = store s" "store_ok (tx_log_free_slot s k) = store_ok s"
  "conf_same s (tx_log_free_slot s' k) = conf_same s s'" "present (tx_log_free_slot s k) = present s"
  "free_ids (tx_log_free_slot s k) = free_ids s" "stray_ids (tx_log_free_slot s k) = stray_ids s" "pend_ok (tx_log_free_slot s k) = pend_ok s"
  "slots_kept s T (tx_log_free_slot s' k) = slots_kept s T s'"
  "ml_changed t s (tx_log_free_slot s' k) = ml_changed t s s'"
  by (simp_all add: tx_log_free_slot_def free_ids_def stray_ids_def pend_ok_def slots_kept_def present_def ml_changed_def fun_eq_iff)

text \<open>A transaction has ended and its slot is given back.\<close>

lemma rel_end:
  assumes rel: "rel U K s a" and k: "running a k = Some t" and inv: "spec_inv \<lparr>c_map = m, running = (running a)(k := None)\<rparr>"
    and sh: "shown (store s1) \<lparr>c_map = m, running = (running a)(k := None)\<rparr>"
    and c: "conf_eq s s1" "slot_kept s k s1" "pend_ok s1" "ml_changed (ucast (k - 1)) s s1" and st: "store_ok s1" "list_wf (free_list s1)" "list_wf (meta_free_list s1)"
    and f: "free_ids s1 = free_ids s \<union> R" "stray_ids s1 = stray_ids s" "dom (store s1) = dom (store s) - R" "R \<subseteq> dom (store s)"
  shows "rel U K (tx_log_free_slot s1 k) \<lparr>c_map = m, running = (running a)(k := None)\<rparr>"
proof -
  let ?a = "\<lparr>c_map = m, running = (running a)(k := None)\<rparr>" and ?s = "tx_log_free_slot s1 k"
  have ok: "tx_ok s k"
    using relD(9) [OF rel k] by (rule tx_conc_ok)
  have c': "bck s1 = bck s" "tx_slots_count (op_log s1) = tx_slots_count (op_log s)" "tx_slots_list (op_log s1) = tx_slots_list (op_log s)"
      "conf_same s s1" "tx_slots_count (op_log ?s) = tx_slots_count (op_log s)"
    using c(1) by (simp_all add: conf_eq_def conf_same_def tx_log_free_slot_def)
  have wf: "list_wf (tx_slots_list (op_log s1))" "slot_ids s1 \<subseteq> slot_ids s"
    using relD(2) [OF rel] c'(3) by (simp_all add: slots_ok_def)
  note fs = free_slot_ids [OF relD(2) [OF rel] ok c'(1,2) wf]
  have "tx_conc ?s j u" if "running ?a j = Some u" for j u
  proof -
    have j: "j \<noteq> k" "running a j = Some u"
      using that by (simp_all split: if_splits)
    show ?thesis
      using c(2,4) c' by (intro tx_conc_frame [OF relD(9) [OF rel j(2)] _ ok j(1)]) simp_all
  qed
  moreover have "slot_ids ?s \<inter> dom (running ?a) = {}" "slot_ids ?s \<union> dom (running ?a) = K"
    using relD(7,8) [OF rel] k unfolding fs(2) c'(3) by auto
  moreover have "free_ids ?s \<inter> dom (store ?s) = {}" "space ?s = U"
    using relD(11) [OF rel] f unfolding relD(12) [OF rel, symmetric] by auto
  moreover have "list_wf (free_list ?s)" "list_wf (meta_free_list ?s)"
    using st by (simp_all add: tx_log_free_slot_def)
  ultimately show ?thesis
    using inv sh fs(1) st(1) c(3) unfolding rel_def by simp
qed

subsection \<open>Execution\<close>

lemma spec_recs_point: "m i = m' i \<Longrightarrow> fold spec_rec rs m i = fold spec_rec rs m' i"
  using spec_recs_released [of i rs] spec_recs_other [of i rs] by (cases "i \<in> released_ids rs") simp_all

lemma spec_recs_untouched: "i \<notin> released_ids rs \<Longrightarrow> i \<notin> inplace_ids rs \<Longrightarrow> fold spec_rec rs m i = m i"
  using spec_recs_other [of i rs m] rec_patch_other [of i rs] by (cases "m i") simp_all

lemma dom_spec_recs: "dom (fold spec_rec rs m) = dom m - released_ids rs"
proof -
  have "fold spec_rec rs m i = None \<longleftrightarrow> m i = None \<or> i \<in> released_ids rs" for i
    using spec_recs_released [of i rs m] spec_recs_other [of i rs m] by (cases "i \<in> released_ids rs") simp_all
  then show ?thesis
    by (intro set_eqI) (simp add: domIff)
qed

lemma shown_view:
  assumes rel: "rel U K s a" and k: "running a k = Some t"
    and i: "\<And>l u. running a l = Some u \<Longrightarrow> l \<noteq> k \<Longrightarrow> i \<notin> dom (t_new u)"
  shows "store s i = (c_map a ++ t_new t) i"
proof (cases "i \<in> dom (t_new t)")
  case True
  then show ?thesis
    using shownD(1) [OF relD(10) [OF rel] k True] by (simp add: map_add_dom_app_simps)
next
  case False
  then have "store s i = c_map a i"
    using i k by (intro shownD(2) [OF relD(10) [OF rel]]) (metis option.inject)
  then show ?thesis
    using False by (simp add: map_add_dom_app_simps)
qed

lemma shown_execute:
  assumes rel: "rel U K s a" and k: "running a k = Some t"
  shows "shown (fold spec_rec (t_ops t) (store s)) (spec_do (EExecute k) a)"
proof -
  let ?M = "fold spec_rec (t_ops t) (store s)"
  have "?M i = t_new u i" if u: "running a l = Some u" "l \<noteq> k" "i \<in> dom (t_new u)" for l u i
  proof -
    have "i \<notin> touched t"
      using relD(14) [OF rel k u(1)] u(2,3) by (auto simp: touched_def)
    then show ?thesis
      using spec_recs_untouched [of i "t_ops t" "store s"] shownD(1) [OF relD(10) [OF rel] u(1,3)] by (simp add: touched_def)
  qed
  moreover have "?M i = fold spec_rec (t_ops t) (c_map a ++ t_new t) i"
    if "\<And>l u. running a l = Some u \<Longrightarrow> l \<noteq> k \<Longrightarrow> i \<notin> dom (t_new u)" for i
    using shown_view [OF rel k that] by (rule spec_recs_point)
  ultimately show ?thesis
    using k by (auto simp: shown_def split: if_splits)
qed

lemma exec_ready_rel:
  assumes rel: "rel U K s a" and k: "running a k = Some t" and d: "t_done t"
  shows "exec_ready s k (t_ops t)" and "inplace_ok s (t_ops t)"
proof -
  let ?rs = "t_ops t"
  note tc = relD(9) [OF rel k] note inv = relD(13) [OF rel k]
  have h: "tx_holds s k COMMITED ?rs" and ip: "\<And>r. r \<in> set ?rs \<Longrightarrow> inplaced r \<noteq> {} \<Longrightarrow> rec_ok s r"
    and tot: "\<And>i. i \<in> inplace_ids ?rs \<Longrightarrow> i < total_objs_count s"
    and idle: "inplace_ids ?rs \<noteq> {} \<longrightarrow> ml_idle (slot_ml s (ucast (k - 1)))"
    using tc d unfolding tx_conc_def by auto
  have sub: "i \<in> dom (store s)" if "i \<in> released_ids ?rs \<union> inplace_ids ?rs" for i
    using touched_shown [OF rel k] that by (auto simp: touched_def)
  have rel_ok: "block_ok (bck s) i \<and> fits s i" if "i \<in> released_ids ?rs" for i
    using sub [of i] that store_block [of s i] store_fits [OF relD(3) [OF rel], of i] by blast
  have recs: "rec_ok s r" if r: "r \<in> set ?rs" for r
  proof (cases r)
    case (LUpdate old new)
    then have "old \<in> released_ids ?rs"
      using r by force
    then show ?thesis
      using rel_ok LUpdate by simp
  next
    case (LRemove i)
    then have "i \<in> released_ids ?rs"
      using r by force
    then show ?thesis
      using rel_ok LRemove by simp
  next
    case (LInplace i off bs)
    then show ?thesis
      using ip [OF r] by simp
  qed simp_all
  have fit: "32 + unat (max_key_len s) + unat (h_val_len (blk_hdr s i)) \<le> block_len (bck s) i" if "i \<in> inplace_ids ?rs" for i
    using sub [of i] that tot [OF that] store_fits [OF relD(3) [OF rel], of i] by (auto simp: in_block_def val_start_def)
  have ok: "tx_ok s k"
    using tc by (rule tx_conc_ok)
  have len: "0 < unat k" "unat k \<le> length (upd_id_list (op_log s))"
    using tx_index(3) [OF ok] ok relD(6) [OF rel] by (auto simp: tx_ok_def pend_ok_def word_le_nat_alt)
  then have "ml_rest (upd_id_list (op_log s) ! (unat k - 1))"
    using relD(6) [OF rel] by (simp add: pend_ok_def)
  then show "exec_ready s k ?rs"
    using h recs tx_invD(4,5) [OF inv] fit len(2) relD(4,5) [OF rel] idle unfolding exec_ready_def tx_index(1) [OF ok] by blast
  show "inplace_ok s ?rs"
    unfolding inplace_ok_def
  proof
    fix i
    assume i: "i \<in> inplace_ids ?rs"
    then obtain ob where "(c_map a ++ t_new t) i = Some ob"
      using tx_invD(3) [OF inv] by (metis UnCI domD subsetD)
    with view_shown [OF rel k this] store_block [of s i] have "present s i" "(c_map a ++ t_new t) i = Some (obj_at s i)"
      by simp_all
    then show "present s i \<and> i < total_objs_count s \<and> no_gap i ?rs (unat (h_val_len (blk_hdr s i)))"
      using bspec [OF tx_invD(6) [OF inv] i] tot [OF i] by (simp add: obj_at_def)
  qed
qed

text \<open>Every pending list but the transaction's own is as it was.\<close>

lemma pend_ok_changed:
  assumes "pend_ok s" and "ml_changed t s s'" and "ml_rest (slot_ml s' t)" and "conf_eq s s'"
  shows "pend_ok s'"
  using upd_lists_changed [OF assms(2), of ml_rest] assms by (simp add: pend_ok_def ml_changed_def conf_eq_def)

lemma rel_execute:
  assumes ck: "checksum_spec uc ck" and rel: "rel U K s a" and k: "running a k = Some t" and d: "t_done t"
  shows "\<exists>s'. pmb_tx_execute uc (Some s) k = Inr (PMB_OK, Some s') \<and>
    ((\<forall>j\<in>inplace_ids (t_ops t). present s' j) \<longrightarrow> rel U K s' (spec_do (EExecute k) a))"
proof -
  let ?rs = "t_ops t"
  note ready = exec_ready_rel [OF rel k d]
  obtain s1 where run: "tx_slot_execute uc s k = Inr (PMB_OK, s1)" and ok1: "store_ok s1"
      and st: "(\<forall>i\<in>inplace_ids ?rs. present s1 i) \<longrightarrow> store s1 = fold spec_rec ?rs (store s)"
    using execute_refines [OF ck ready(1) relD(3) [OF rel] ready(2)] by (elim exE conjE)
  obtain ce: "conf_eq s s1" and ml: "ml_changed (ucast (k - 1)) s s1" "ml_rest (slot_ml s1 (ucast (k - 1)))" and kept: "slot_kept s k s1"
      and l: "list_wf (free_list s1)" "list_wf (meta_free_list s1)"
      "list_ids (free_list s1) = list_ids (free_list s) \<union> {i \<in> released_ids ?rs. present s i \<and> i < total_objs_count s}"
      "list_ids (meta_free_list s1) = list_ids (meta_free_list s) \<union> {i \<in> released_ids ?rs. present s i \<and> \<not> i < total_objs_count s}"
    using execute_release [OF ck ready(1)] run by (elim exE conjE) simp
  have sub: "released_ids ?rs \<subseteq> dom (store s)"
    using touched_shown [OF rel k] by (auto simp: touched_def)
  then have "present s i" if "i \<in> released_ids ?rs" for i
    using that store_block [of s i] by blast
  then have f: "free_ids s1 = free_ids s \<union> released_ids ?rs" "stray_ids s1 = stray_ids s"
    using ce unfolding free_ids_def stray_ids_def l(3,4) conf_eq_def by auto
  have "rel U K (tx_log_free_slot s1 k) (spec_do (EExecute k) a)" if pr: "\<forall>i\<in>inplace_ids ?rs. present s1 i"
  proof -
    have sm: "store s1 = fold spec_rec ?rs (store s)"
      using st pr by blast
    have do: "spec_do (EExecute k) a = \<lparr>c_map = fold spec_rec ?rs (c_map a ++ t_new t), running = (running a)(k := None)\<rparr>"
      by (simp add: k)
    have inv: "spec_inv (spec_do (EExecute k) a)"
      using k d by (intro spec_inv_step [OF relD(1) [OF rel]]) (simp add: spec_enabled_def)
    show ?thesis
      using inv shown_execute [OF rel k] pend_ok_changed [OF relD(6) [OF rel] ml ce] sub
      unfolding do sm [symmetric]
      by (intro rel_end [OF rel k _ _ ce kept _ ml(1) ok1 l(1,2) f]) (simp_all add: sm dom_spec_recs)
  qed
  moreover have "pmb_tx_execute uc (Some s) k = Inr (PMB_OK, Some (tx_log_free_slot s1 k))"
    using run tx_conc_ok [OF relD(9) [OF rel k]] by (auto simp: pmb_tx_execute_def tx_ok_def)
  ultimately show ?thesis
    by simp
qed

subsection \<open>Abort\<close>

lemma abort_ready_rel:
  assumes rel: "rel U K s a" and k: "running a k = Some t" and ip: "inplace_ids (t_ops t) = {}"
  shows "abort_ready s k (t_ops t)"
proof -
  have "abort_ok s r" if r: "r \<in> set (t_ops t)" for r
  proof -
    have "i \<in> dom (store s)" if "i \<in> written r" for i
      using tx_invD(1) [OF relD(13) [OF rel k]] touched_shown [OF rel k] r that by (auto simp: touched_def)
    then show ?thesis
      using ip r store_block store_fits [OF relD(3) [OF rel]] unfolding abort_ok_def by blast
  qed
  then show ?thesis
    using relD(9) [OF rel k] relD(4,5) [OF rel] by (auto simp: abort_ready_def tx_conc_def split: if_splits)
qed

lemma rel_abort:
  assumes ck: "checksum_spec uc ck" and rel: "rel U K s a" and k: "running a k = Some t" and ip: "inplace_ids (t_ops t) = {}"
  shows "\<exists>s'. pmb_tx_abort uc (Some s) k = (PMB_OK, Some s') \<and> rel U K s' (spec_do (EAbort k) a)"
proof -
  let ?rs = "t_ops t"
  note inv = relD(13) [OF rel k]
  note w = tx_invD(1) [OF inv]
  have new: "i \<in> dom (store s)" if "i \<in> dom (t_new t)" for i
    using shownD(1) [OF relD(10) [OF rel] k that] that by (simp add: domIff)
  note ready = abort_ready_rel [OF rel k ip]
  obtain s1 where run: "tx_slot_abort uc s k = (PMB_OK, s1)" and ok1: "store_ok s1" and st: "store s1 = store s |` (- written_ids ?rs)"
    using abort_refines [OF ck ready relD(3) [OF rel]] by blast
  obtain ce: "conf_eq s s1" and lg: "op_log s1 = op_log s" and kept: "slot_kept s k s1"
      and l: "list_wf (free_list s1)" "list_wf (meta_free_list s1)"
      "list_ids (free_list s1) = list_ids (free_list s) \<union> {i \<in> written_ids ?rs. i < total_objs_count s}"
      "list_ids (meta_free_list s1) = list_ids (meta_free_list s) \<union> {i \<in> written_ids ?rs. \<not> i < total_objs_count s}"
    using abort_revert [OF ck ready] run by (elim exE conjE) simp
  have f: "free_ids s1 = free_ids s \<union> dom (t_new t)" "stray_ids s1 = stray_ids s"
    using ce unfolding free_ids_def stray_ids_def l(3,4) conf_eq_def w by auto
  have do: "spec_do (EAbort k) a = \<lparr>c_map = c_map a, running = (running a)(k := None)\<rparr>"
    by simp
  have "spec_inv (spec_do (EAbort k) a)"
    using k ip by (intro spec_inv_step [OF relD(1) [OF rel]]) (simp add: spec_enabled_def)
  moreover have "shown (store s1) (spec_do (EAbort k) a)"
    unfolding shown_def
  proof (intro conjI allI impI)
    fix l u i
    assume u: "running (spec_do (EAbort k) a) l = Some u" and i: "i \<in> dom (t_new u)"
    then have l: "running a l = Some u" "l \<noteq> k"
      by (simp_all split: if_splits)
    then have "i \<notin> dom (t_new t)"
      using relD(14) [OF rel k l(1)] i by (auto simp: touched_def)
    then show "store s1 i = t_new u i"
      using shownD(1) [OF relD(10) [OF rel] l(1) i] by (simp add: st w)
  next
    fix i
    assume i: "\<forall>l u. running (spec_do (EAbort k) a) l = Some u \<longrightarrow> i \<notin> dom (t_new u)"
    then have "store s i = (c_map a ++ t_new t) i"
      by (intro shown_view [OF rel k]) (auto split: if_splits)
    moreover have "c_map a i = None" if "i \<in> dom (t_new t)"
      using tx_invD(2) [OF inv] that by blast
    ultimately show "store s1 i = c_map (spec_do (EAbort k) a) i"
      by (cases "i \<in> dom (t_new t)") (simp_all add: st w map_add_dom_app_simps)
  qed
  ultimately have "rel U K (tx_log_free_slot s1 k) (spec_do (EAbort k) a)"
    using relD(6) [OF rel] new unfolding do
    by (intro rel_end [OF rel k _ _ ce kept _ ml_changed_same [OF lg] ok1 l(1,2) f]) (auto simp: st w pend_ok_def lg)
  moreover have "pmb_tx_abort uc (Some s) k = (PMB_OK, Some (tx_log_free_slot s1 k))"
    using run tx_conc_ok [OF relD(9) [OF rel k]] by (auto simp: pmb_tx_abort_def tx_ok_def)
  ultimately show ?thesis
    by blast
qed

section \<open>The simulation\<close>

text \<open>One call: the store grants what the event says, and the relation holds again.\<close>

lemma sys_step_rel:
  assumes ck: "checksum_spec uc ck" and rel: "rel U K s a" and ok: "client_ok a e" and step: "sys_step uc s e s'"
  shows "spec_enabled a e \<and> rel U K s' (spec_do e a)"
proof (rule sys_step_cases [OF rel ok step])
  fix c k
  assume "e = EBegin k" "pmb_tx_begin (Some s) (Some c) = (PMB_OK, Some k, Some s')"
  then show ?thesis
    using rel_begin [OF rel] by (simp add: spec_enabled_def)
next
  fix k t i kv kv'
  assume e: "e = EPut k i \<lparr>ob_id = p_id kv, ob_version = 1, ob_key = key_bytes s kv,
      ob_val = left_over s i (unat (p_offset kv)) @ val_bytes s kv\<rparr>"
    and c: "opn a k t" "can_put s k (t_ops t) i kv" "p_blk_id kv = 0" "pmb_tput uc (Some s) k (Some kv) = (PMB_OK, Some kv', Some s')"
      "present s' i"
  show ?thesis
    using rel_put [OF ck rel c] e ok by (simp add: spec_enabled_def)
next
  fix k t i kv kv'
  assume e: "e = EPut k i \<lparr>ob_id = h_id (blk_hdr s i), ob_version = 1, ob_key = key_bytes s kv, ob_val = val_bytes s kv\<rparr>"
    and c: "opn a k t" "can_put_meta s k (t_ops t) i kv" "p_blk_id kv = 0"
      "pmb_tput_meta uc (Some s) k (Some kv) = (PMB_OK, Some kv', Some s')" "present s' i"
  show ?thesis
    using rel_put_meta [OF ck rel c] e ok by (simp add: spec_enabled_def)
next
  fix k t j i kv kv'
  assume e: "e = EReplace k j i (p_id kv) (key_bytes s kv) (unat (p_offset kv)) (val_bytes s kv)"
    and c: "opn a k t" "can_put s k (t_ops t) i kv" "can_update s i j kv" "usable a k t j" "j \<notin> inplace_ids (t_ops t)"
      "pmb_tput uc (Some s) k (Some kv) = (PMB_OK, Some kv', Some s')" "present s' i"
  show ?thesis
    using rel_update [OF ck rel c] e ok by (simp add: spec_enabled_def)
next
  fix k t j i kv kv'
  assume e: "e = EReplaceMeta k j i (h_id (blk_hdr s i)) (key_bytes s kv) (val_bytes s kv)"
    and c: "opn a k t" "can_put_meta s k (t_ops t) i kv" "j = p_blk_id kv" "j \<noteq> 0" "\<not> j < total_objs_count s" "usable a k t j"
      "j \<notin> inplace_ids (t_ops t)" "pmb_tput_meta uc (Some s) k (Some kv) = (PMB_OK, Some kv', Some s')" "present s' i"
  show ?thesis
    using rel_update_meta [OF ck rel c] e ok by (simp add: spec_enabled_def)
next
  fix k t j
  assume "e = ERemove k j" and c: "opn a k t" "usable a k t j" "j \<notin> inplace_ids (t_ops t)"
      "slot_size s k + 24 \<le> slot_cap s" "pmb_tdel (Some s) k j = (PMB_OK, Some s')"
  then show ?thesis
    using rel_remove [OF rel c] ok by (simp add: spec_enabled_def)
next
  fix k t j kv kv'
  assume "e = EPatch k j (p_offset kv) (val_bytes s kv)" and c: "opn a k t" "usable a k t j" "can_patch s k j kv"
      "card (insert j (inplace_ids (t_ops t))) \<le> 128"
      "unat (p_offset kv) \<le> length (ob_val (fold (rec_patch j) (t_ops t) (the (tx_view a t j))))"
      "pmb_tput uc (Some s) k (Some kv) = (PMB_OK, Some kv', Some s')"
  then show ?thesis
    using rel_patch [OF rel c] ok by (simp add: spec_enabled_def)
next
  fix k t
  assume "e = ECommit k" "opn a k t" "pmb_tx_commit uc (Some s) k = (PMB_OK, Some s')"
  then show ?thesis
    using rel_commit [OF ck rel, of k t] ok by (auto simp: spec_enabled_def)
next
  fix k t
  assume "e = EExecute k" and t: "running a k = Some t" "t_done t"
    and "pmb_tx_execute uc (Some s) k = Inr (PMB_OK, Some s')" "\<forall>j\<in>inplace_ids (t_ops t). present s' j"
  then show ?thesis
    using rel_execute [OF ck rel t] ok by (auto simp: spec_enabled_def)
next
  fix k t
  assume "e = EAbort k" "running a k = Some t" "inplace_ids (t_ops t) = {}" "pmb_tx_abort uc (Some s) k = (PMB_OK, Some s')"
  then show ?thesis
    using rel_abort [OF ck rel, of k t] ok by (auto simp: spec_enabled_def)
next
  assume "e = ERefused" "s' = s"
  then show ?thesis
    using rel by (simp add: spec_enabled_def)
qed

text \<open>
  The states in which a run may start: the invariant of the store, and the meta blocks on
  the meta free list hold no objects.
\<close>

definition start_ok :: "pmb_handle \<Rightarrow> bool" where
  "start_ok s \<longleftrightarrow> pool_inv s \<and> (\<forall>i\<in>list_ids (meta_free_list s). \<not> i < total_objs_count s \<longrightarrow> store s i = None)"

lemma rel_start:
  assumes "start_ok s"
  shows "rel (space s) (slot_ids s) s \<lparr>c_map = store s, running = Map.empty\<rparr>"
proof -
  have "free_ids s \<inter> dom (store s) = {}"
    using assms by (auto simp: start_ok_def pool_inv_def free_ids_def)
  then show ?thesis
    using assms by (simp add: rel_def start_ok_def pool_inv_def pend_ok_def spec_inv_def shown_def)
qed

lemma sys_run_rel:
  assumes "sys_run uc s0 es s a" and ck: "checksum_spec uc ck" and "start_ok s0"
  shows "rel (space s0) (slot_ids s0) s a \<and> spec_reach (store s0) es a"
  using assms(1,3)
proof (induction rule: sys_run.induct)
  case start
  then show ?case
    using rel_start spec_reach.start by simp
next
  case (step es s a e s')
  then have IH: "rel (space s0) (slot_ids s0) s a" "spec_reach (store s0) es a"
    by simp_all
  from sys_step_rel [OF ck IH(1) step.hyps(2,3)] IH(2) show ?case
    using spec_reach.step by blast
qed

lemma shown_idle: "shown m a \<Longrightarrow> running a = Map.empty \<Longrightarrow> m = c_map a"
  by (simp add: shown_def fun_eq_iff)

section \<open>Progress\<close>

text \<open>A committed transaction without updates in place can be executed, an open one committed, each as a step of the run.\<close>

lemma execute_step:
  assumes ck: "checksum_spec uc ck" and rel: "rel U K s a" and k: "running a k = Some t" "t_done t" and ip: "inplace_ids (t_ops t) = {}"
  obtains s' where "sys_step uc s (EExecute k) s'" "pmb_tx_execute uc (Some s) k = Inr (PMB_OK, Some s')"
proof -
  obtain s' where s': "pmb_tx_execute uc (Some s) k = Inr (PMB_OK, Some s')"
    using rel_execute [OF ck rel k] by blast
  have "tx_holds s k COMMITED (t_ops t)" "\<forall>j\<in>inplace_ids (t_ops t). present s' j"
    using relD(9) [OF rel k(1)] k(2) ip by (simp_all add: tx_conc_def)
  from that [OF sys_step.execute [OF this(1) s' this(2)] s'] show ?thesis .
qed

lemma finish_one:
  assumes ck: "checksum_spec uc ck" and s0: "start_ok s0" and run: "sys_run uc s0 es s a"
    and k: "running a k = Some t" and ip: "inplace_ids (t_ops t) = {}"
  obtains fs s' a' where "sys_run uc s0 (es @ fs) s' a'" "running a' = (running a)(k := None)"
    "c_map a' = fold spec_rec (t_ops t) (c_map a ++ t_new t)" "set fs \<subseteq> {ECommit k, EExecute k}"
proof -
  have exec: "\<exists>s' a'. sys_run uc s0 (fs @ [EExecute k]) s' a' \<and> running a' = (running b)(k := None) \<and>
      c_map a' = fold spec_rec (t_ops u) (c_map b ++ t_new u)"
    if b: "sys_run uc s0 fs r b" "running b k = Some u" "t_done u" "inplace_ids (t_ops u) = {}" for fs r b u
  proof -
    have rel: "rel (space s0) (slot_ids s0) r b"
      using sys_run_rel [OF b(1) ck s0] by simp
    obtain s' where s': "sys_step uc r (EExecute k) s'"
      using execute_step [OF ck rel b(2-4)] .
    have "client_ok b (EExecute k)"
      using b(2,3) by simp
    from sys_run.step [OF b(1) this s'] show ?thesis
      using b(2) by fastforce
  qed
  show ?thesis
  proof (cases "t_done t")
    case True
    then show ?thesis
      using exec [OF run k True ip] that [of "[EExecute k]"] by auto
  next
    case False
    then have o: "opn a k t"
      using k by (simp add: opn_def)
    have rel: "rel (space s0) (slot_ids s0) s a"
      using sys_run_rel [OF run ck s0] by simp
    obtain s1 where "pmb_tx_commit uc (Some s) k = (PMB_OK, Some s1)"
      using rel_commit [OF ck rel o] by blast
    then have "sys_run uc s0 (es @ [ECommit k]) s1 (spec_do (ECommit k) a)"
      using o by (intro sys_run.step [OF run] sys_step.commit) auto
    from exec [OF this, of "t\<lparr>t_done := True\<rparr>"] obtain s' a' where
      "sys_run uc s0 ((es @ [ECommit k]) @ [EExecute k]) s' a'" "running a' = (running (spec_do (ECommit k) a))(k := None)"
      "c_map a' = fold spec_rec (t_ops t) (c_map a ++ t_new t)"
      by (auto simp: k ip)
    then show ?thesis
      using that [of "[ECommit k, EExecute k]" s' a'] by simp
  qed
qed

lemma finish_all:
  assumes ck: "checksum_spec uc ck" and s0: "start_ok s0" and run: "sys_run uc s0 es s a"
    and ip: "\<forall>k t. running a k = Some t \<longrightarrow> inplace_ids (t_ops t) = {}"
  shows "\<exists>fs s' a'. sys_run uc s0 (es @ fs) s' a' \<and> running a' = Map.empty \<and>
    set fs \<subseteq> ECommit ` dom (running a) \<union> EExecute ` dom (running a)"
  using run ip
proof (induction "card (dom (running a))" arbitrary: es s a)
  case 0
  then have "running a = Map.empty"
    by simp
  then show ?case
    using 0 by (intro exI [of _ "[]"]) auto
next
  case (Suc n)
  then obtain k t where k: "running a k = Some t"
    by (metis card.empty domD ex_in_conv nat.distinct(1))
  obtain fs s' a' where f: "sys_run uc s0 (es @ fs) s' a'" "running a' = (running a)(k := None)" "set fs \<subseteq> {ECommit k, EExecute k}"
    by (rule finish_one [OF ck s0 Suc.prems(1) k Suc.prems(2) [rule_format, OF k]])
  have "n = card (dom (running a'))"
    using Suc.hyps(2) k f(2) by (simp add: domI)
  have "\<forall>l u. running a' l = Some u \<longrightarrow> inplace_ids (t_ops u) = {}"
    using Suc.prems(2) unfolding f(2) by simp
  from Suc.hyps(1) [OF \<open>n = card (dom (running a'))\<close> f(1) this] obtain gs s'' a'' where g: "sys_run uc s0 (es @ fs @ gs) s'' a''" "running a'' = Map.empty"
      "set gs \<subseteq> ECommit ` dom (running a') \<union> EExecute ` dom (running a')"
    by auto
  have "set (fs @ gs) \<subseteq> ECommit ` dom (running a) \<union> EExecute ` dom (running a)"
  proof -
    have "k \<in> dom (running a)" "dom (running a') \<subseteq> dom (running a)"
      using k f(2) by auto
    then show ?thesis
      using f(3) g(3) by (simp add: image_iff subset_iff) blast
  qed
  then show ?case
    using g(1,2) by blast
qed

text \<open>No call of the protocol gets stuck.\<close>

lemma begin_possible:
  assumes rel: "rel U K s a" and free: "dom (running a) \<noteq> K"
  shows "\<exists>k s'. pmb_tx_begin (Some s) (Some c) = (PMB_OK, Some k, Some s')"
  using relD(2) [OF rel]
proof (cases rule: begin_cases [where c = c])
  case busy
  then show ?thesis
    using relD(8) [OF rel] free by simp
qed blast

section \<open>Properties\<close>

text \<open>Free lists that name blocks of their own region only.\<close>

definition own_lists :: "pmb_handle \<Rightarrow> bool" where
  "own_lists s \<longleftrightarrow> (\<forall>i\<in>list_ids (free_list s). i < total_objs_count s) \<and> (\<forall>i\<in>list_ids (meta_free_list s). \<not> i < total_objs_count s)"

lemma set_diff_unique: "A \<inter> B = {} \<Longrightarrow> A \<union> B = C \<Longrightarrow> A = C - B"
  by blast

lemma own_lists_stray: "own_lists s \<longleftrightarrow> stray_ids s = ({}, {})"
  by (auto simp: own_lists_def stray_ids_def)

lemma own_free_ids: "own_lists s \<Longrightarrow> free_ids s = list_ids (free_list s) \<union> list_ids (meta_free_list s)"
  by (auto simp: own_lists_def free_ids_def)

text \<open>The sample store, with an object put by transaction 1 while transaction 2 is open as well.\<close>

lemma sample_start_ok: "start_ok sample_store"
  using sample_pool_inv by (simp add: start_ok_def sample_store_empty)

abbreviation sample_events :: "event list" where
  "sample_events \<equiv> [EBegin 1, EPut 1 1 sample_obj, EBegin 2]"

lemma sample_sys_run:
  obtains s a where "sys_run sample_uc sample_store sample_events s a" "dom (running a) = {1, 2}"
    "running a 1 = Some \<lparr>t_done = False, t_ops = [LWrite 1], t_new = [1 \<mapsto> sample_obj]\<rparr>"
    "running a 2 = Some \<lparr>t_done = False, t_ops = [], t_new = Map.empty\<rparr>" "c_map a = Map.empty"
proof (rule sample_run)
  fix s0 s1
  let ?kv = "sample_pair 0 0 5" and ?init = "\<lparr>c_map = store sample_store, running = Map.empty\<rparr>"
  assume b: "pmb_tx_begin (Some sample_store) (Some 0) = (PMB_OK, Some 1, Some s0)"
    and p: "pmb_tput sample_uc (Some s0) 1 (Some ?kv) = (PMB_OK, Some (sample_pair 1 0 5), Some s1)"
      "can_put s0 1 [] 1 ?kv" "present s1 1" "key_bytes s0 ?kv = [0, 0, 0]" "val_bytes s0 ?kv = [0, 0, 0, 0, 0]"
  have kv: "p_blk_id ?kv = 0" "p_offset ?kv = 0" "p_id ?kv = 4"
    by (simp_all add: sample_pair_def)
  have r1: "sys_run sample_uc sample_store ([] @ [EBegin 1]) s0 (spec_do (EBegin 1) ?init)"
    by (rule sys_run.step [OF sys_run.start _ sys_step.begin_tx [OF b]]) simp
  let ?a = "spec_do (EPut 1 1 sample_obj) (spec_do (EBegin 1) ?init)"
  have client: "put_client s0 1 1 ?kv"
    using p(2) by (simp add: can_put_def put_client_def put_ready_def)
  have step: "sys_step sample_uc s0 (EPut 1 1 sample_obj) s1"
    using sys_step.put [OF p(1) kv(1) _ client p(3)] by (simp add: p(4,5) kv(2,3)) (simp add: sample_pair_def)
  have "opn (spec_do (EBegin 1) ?init) 1 \<lparr>t_done = False, t_ops = [], t_new = Map.empty\<rparr>"
    by (simp add: opn_def)
  then have "client_ok (spec_do (EBegin 1) ?init) (EPut 1 1 sample_obj)"
    unfolding client_ok.simps by (rule exI)
  from sys_run.step [OF r1 this step] have r2: "sys_run sample_uc sample_store [EBegin 1, EPut 1 1 sample_obj] s1 ?a"
    by (simp only: append.simps)
  have rel: "rel (space sample_store) (slot_ids sample_store) s1 ?a"
    using sys_run_rel [OF r2 sample_checksum sample_start_ok] by simp
  have ids: "slot_ids sample_store = {1..16}"
    by (simp add: sample_store_def list_ids_def caslist_eval caslist_ids_def)
  have run: "running ?a = [1 \<mapsto> \<lparr>t_done = False, t_ops = [LWrite 1], t_new = [1 \<mapsto> sample_obj]\<rparr>]"
    by (simp add: append_op_def)
  then have dom: "dom (running ?a) = {1}"
    by simp
  have left: "slot_ids s1 = {1..16} - {1}"
    using relD(7,8) [OF rel] unfolding dom ids by blast
  have two: "(2 :: u64) \<in> {1..16} - {1}"
    by simp
  have least: "2 \<le> j" if "j \<in> {1..16} - {1}" for j :: u64
    using that inc_le [of 1 j] by (auto simp: order_le_less)
  obtain k s2 where k: "pmb_tx_begin (Some s1) (Some 0) = (PMB_OK, Some k, Some s2)" "k \<in> slot_ids s1" "\<forall>j\<in>slot_ids s1. k \<le> j"
    using relD(2) [OF rel]
  proof (cases rule: begin_cases [where c = 0])
    case busy
    then show ?thesis
      using left two by (metis empty_iff)
  qed (rule that)
  have "k = 2"
    using k(2,3) two least [of k] unfolding left by (intro antisym) auto
  then have begin2: "sys_step sample_uc s1 (EBegin 2) s2"
    using k(1) sys_step.begin_tx by blast
  have "sys_run sample_uc sample_store ([EBegin 1, EPut 1 1 sample_obj] @ [EBegin 2]) s2 (spec_do (EBegin 2) ?a)"
    by (rule sys_run.step [OF r2 _ begin2]) simp
  moreover have "running (spec_do (EBegin 2) ?a) = (running ?a)(2 \<mapsto> \<lparr>t_done = False, t_ops = [], t_new = Map.empty\<rparr>)"
    by simp
  moreover have "c_map (spec_do (EBegin 2) ?a) = Map.empty"
    by (simp add: append_op_def sample_store_empty)
  ultimately show ?thesis
    unfolding run by (intro that [of s2 "spec_do (EBegin 2) ?a"]) auto
qed

text \<open>The same with an object put into the meta region.\<close>

abbreviation meta_obj :: pmb_obj where
  "meta_obj \<equiv> \<lparr>ob_id = 0, ob_version = 1, ob_key = [0, 0, 0], ob_val = [0, 0, 0, 0, 0]\<rparr>"

lemma sample_meta_run:
  obtains s a where "sys_run sample_uc sample_store [EBegin 1, EPut 1 32767 meta_obj] s a"
    "running a 1 = Some \<lparr>t_done = False, t_ops = [LWrite 32767], t_new = [32767 \<mapsto> meta_obj]\<rparr>"
proof -
  have so: "slots_ok sample_store"
    using sample_pool_inv by (simp add: pool_inv_def)
  have ids: "slot_ids sample_store = {1..16}"
    by (simp add: sample_store_def list_ids_def caslist_eval caslist_ids_def)
  from so show ?thesis
  proof (cases rule: begin_cases [where c = 0])
    case busy
    then show ?thesis
      by (simp add: ids)
  next
    case (taken k l s0)
    have k: "k = 1"
      using taken(2,3) unfolding ids by (auto intro!: antisym)
    note b = taken [unfolded k]
    note c = mem_only_simps [OF b(4)]
    let ?kv = "sample_pair 0 0 5"
    have slot: "tx_slot_ptr s0 1 = 0x10002000" "slot_cap s0 = 0x800000"
      using sample_ptr c(1) by (simp_all add: tx_slot_ptr_def)
    have z: "ld_bytes (mem s0) a n = replicate n 0" if "a + n \<le> 0x10002000" for a n
      using ld_bytes_cong [OF only_same_on [OF b(9), of a n]] that by (simp add: sample_ptr) (simp add: sample_store_def)
    have r: "replicate 3 (0 :: u8) = [0, 0, 0]" "replicate 5 (0 :: u8) = [0, 0, 0, 0, 0]"
      by (simp_all add: numeral_eq_Suc)
    have bytes: "key_bytes s0 ?kv = [0, 0, 0]" "val_bytes s0 ?kv = [0, 0, 0, 0, 0]"
      by (simp_all add: sample_pair_def z r)
    have f: "bck s0 = sample_backend" "meta_max_key_len s0 = 64" "meta_max_val_len s0 = 1024" "total_objs_count s0 = 32766"
        "list_wf (meta_free_list s0)" "list_ids (meta_free_list s0) = {32767..36861}"
      using c sample_store_lists by (simp_all) (simp_all add: sample_store_def list_ids_def caslist_eval caslist_ids_def)
    have blk: "block_ok sample_backend 32767" "block_len sample_backend 32767 = 4096" "backend_direct (Some sample_backend) 32767 = 0x20000000"
      by (simp_all add: backend_direct_def sample_backend_fields ptr_add_def block_ok_def sample_layout data_id_def meta_id_def block_len_def word_nat)
    have "hdr_at (mem s0) 0x20000000 = hdr_at (mem sample_store) 0x20000000"
      using only_same_on [OF b(9), of "0x20000000" 32] by (intro hdr_at_cong) (simp add: sample_ptr)
    then have id: "h_id (blk_hdr s0 32767) = 0"
      by (simp add: f blk) (simp add: sample_store_def hdr_at_def)
    have ready: "meta_ready s0 1 [] 32767" and args: "meta_args s0 32767 ?kv" and bufs: "client_bufs s0 1 ?kv" and room: "slot_size s0 1 + 24 \<le> slot_cap s0"
      using b(7,8) slot by (simp_all add: meta_ready_def meta_args_def client_bufs_def sample_pair_def apart_def f blk NULL_def)
    have p: "p_blk_id ?kv = 0" "?kv\<lparr>p_blk_id := 32767\<rparr> = sample_pair 32767 0 5" "p_blk_id (sample_pair 32767 0 5) = 32767"
      by (simp_all add: sample_pair_def)
    obtain s1 where s1: "pmb_tput_meta sample_uc (Some s0) 1 (Some ?kv) = (PMB_OK, Some (sample_pair 32767 0 5), Some s1)"
        "sealed_meta sample_uc s1 32767"
      using tput_meta_effect [OF sample_checksum ready args bufs meta_new(1) [OF p(1)]] p(2) f by auto
    have pr: "present s1 32767"
      using s1(2) sample_ck_nonzero by (auto simp: sealed_meta_def checksum_verify [OF sample_checksum] present_def hdr_at_def)
    let ?a = "\<lparr>c_map = store sample_store, running = Map.empty\<rparr>"
    have r0: "sys_run sample_uc sample_store ([] @ [EBegin 1]) s0 (spec_do (EBegin 1) ?a)"
      by (rule sys_run.step [OF sys_run.start _ sys_step.begin_tx [OF b(1)]]) simp
    have "meta_client s0 1 32767 ?kv"
      using args bufs room f by (simp add: meta_client_def)
    from sys_step.put_meta [OF s1(1) p(1) p(3) [symmetric] this pr] have st: "sys_step sample_uc s0 (EPut 1 32767 meta_obj) s1"
      by (simp add: bytes id)
    have "opn (spec_do (EBegin 1) ?a) 1 \<lparr>t_done = False, t_ops = [], t_new = Map.empty\<rparr>"
      by (simp add: opn_def)
    then have "client_ok (spec_do (EBegin 1) ?a) (EPut 1 32767 meta_obj)"
      unfolding client_ok.simps by (rule exI)
    from sys_run.step [OF r0 this st] have "sys_run sample_uc sample_store [EBegin 1, EPut 1 32767 meta_obj] s1
        (spec_do (EPut 1 32767 meta_obj) (spec_do (EBegin 1) ?a))"
      by (simp only: append.simps)
    from that [OF this] show ?thesis
      by (simp add: append_op_def)
  qed
qed





text \<open>
  C6: no transaction blocks the store. At any time of a run as in C1 a transaction that has not committed can
  commit, one that has committed can be executed (the call returns success and accesses no
  array out of bounds), one without in-place updates can be aborted, and a new transaction
  can begin as long as not all slots are in use. In such a run a transaction has updated at most 128
  objects in place, has never run out of its slot, and has found the pending list of its slot zeroed; the
  code checks none of the three.
\<close>

theorem transactions_progress:
  assumes "checksum_spec uc ck" and "start_ok s0" and "sys_run uc s0 es s a"
  shows "(\<forall>k t. running a k = Some t \<longrightarrow>
      (\<not> t_done t \<longrightarrow> (\<exists>s'. pmb_tx_commit uc (Some s) k = (PMB_OK, Some s'))) \<and>
      (t_done t \<longrightarrow> (\<exists>s'. pmb_tx_execute uc (Some s) k = Inr (PMB_OK, Some s'))) \<and>
      (inplace_ids (t_ops t) = {} \<longrightarrow> (\<exists>s'. pmb_tx_abort uc (Some s) k = (PMB_OK, Some s')))) \<and>
    (dom (running a) \<noteq> slot_ids s0 \<longrightarrow> (\<exists>k s'. pmb_tx_begin (Some s) (Some c) = (PMB_OK, Some k, Some s')))"
proof -
  have rel: "rel (space s0) (slot_ids s0) s a"
    using sys_run_rel [OF assms(3,1,2)] by simp
  have "\<exists>s'. pmb_tx_commit uc (Some s) k = (PMB_OK, Some s')" if "running a k = Some t" "\<not> t_done t" for k t
    using rel_commit [OF assms(1) rel, of k t] that by (auto simp: opn_def)
  moreover have "\<exists>s'. pmb_tx_execute uc (Some s) k = Inr (PMB_OK, Some s')" if "running a k = Some t" "t_done t" for k t
    using rel_execute [OF assms(1) rel that] by blast
  moreover have "\<exists>s'. pmb_tx_abort uc (Some s) k = (PMB_OK, Some s')" if "running a k = Some t" "inplace_ids (t_ops t) = {}" for k t
    using rel_abort [OF assms(1) rel that] by blast
  ultimately show ?thesis
    using begin_possible [OF rel] by simp
qed

theorem transactions_progress_witness:
  "\<exists>s a s'. sys_run sample_uc sample_store sample_events s a \<and> pmb_tx_commit sample_uc (Some s) 1 = (PMB_OK, Some s')"
proof -
  obtain s a where r: "sys_run sample_uc sample_store sample_events s a"
      and t: "running a 1 = Some \<lparr>t_done = False, t_ops = [LWrite 1], t_new = [1 \<mapsto> sample_obj]\<rparr>"
    by (rule sample_sys_run)
  obtain s' where "pmb_tx_commit sample_uc (Some s) 1 = (PMB_OK, Some s')"
    using transactions_progress [OF sample_checksum sample_start_ok r] t by force
  then show ?thesis
    using r by blast
qed



end
