(* ===== verification/Recovery.thy ===== *)
theory Recovery
  imports Pmbackend
begin

text \<open>
  Filling the lists of free blocks and of objects when a store is opened: the scan by eight
  threads of an existing store (\<open>recovery\<close>, \<open>recovery_thread\<close>) and the initial free lists of a
  new one (\<open>populate_free_list\<close>), all in \<open>src/pmbackend.c\<close>.

  The threads share the handle. They only read the pool, and a push takes the lock of its
  list, so one iteration of a thread's loop is one step of an interleaving.
\<close>

section \<open>One block\<close>

text \<open>The body of the loop of \<open>recovery_thread\<close> for the block \<open>pos\<close>.\<close>

definition recovery_block :: "checksum_fn \<Rightarrow> u64 \<Rightarrow> pmb_handle \<Rightarrow> pmb_handle" where
  "recovery_block uc pos s =
     (let border = pmb_ntotal (Some s) 0;
          push_to_free = (\<lambda>s. if pos > border then s\<lparr>meta_free_list := caslist_push (meta_free_list s) pos\<rparr>
                              else s\<lparr>free_list := caslist_push (free_list s) pos\<rparr>);
          push_to_objs = (\<lambda>s. if pos > border then s\<lparr>meta_objs_list := caslist_push (meta_objs_list s) pos\<rparr>
                              else s\<lparr>objs_list := caslist_push (objs_list s) pos\<rparr>);
          obj = fst (backend_get (Some (bck s)) pos 0 s)
      in if obj = NULL then push_to_free s
         else let h = hdr_at (mem s) obj;
                  object_size =
                    (if pos > border then of_nat sizeof_pmb_data_hdr + ucast (h_key_len h) + ucast (h_val_len h)
                     else of_nat sizeof_pmb_data_hdr + ucast (max_key_len s) + ucast (h_val_len h)) :: u64;
                  r = uc (mem s) obj (unat object_size) obj False;
                  s = s\<lparr>mem := snd r\<rparr>
              in if fst r then push_to_objs s else push_to_free s)"

text \<open>One thread alone, from \<open>pos\<close> up to \<open>stop\<close>.\<close>

function recovery_thread :: "checksum_fn \<Rightarrow> u64 \<Rightarrow> u64 \<Rightarrow> pmb_handle \<Rightarrow> pmb_handle" where
  "recovery_thread uc pos stop s =
     (if pos < stop then recovery_thread uc (pos + 1) stop (recovery_block uc pos s) else s)"
  by pat_completeness auto
termination
proof (relation "measure (\<lambda>(uc, pos, stop, s). unat stop - unat pos)")
  fix uc :: checksum_fn and pos stop :: u64 and s :: pmb_handle
  assume "pos < stop"
  then have "pos \<noteq> - 1" and "unat pos < unat stop"
    by (simp_all add: less_not_max word_less_unat)
  then show "((uc, pos + 1, stop, recovery_block uc pos s), uc, pos, stop, s)
      \<in> measure (\<lambda>(uc, pos, stop, s). unat stop - unat pos)"
    by (simp add: unat_Suc)
qed simp

declare recovery_thread.simps [simp del]

section \<open>Eight threads\<close>

text \<open>The interval of each thread: \<open>recovery_start\<close> and \<open>recovery_stop\<close>.\<close>

definition threads_num :: nat where
  "threads_num = 8"

definition recovery_part :: "pmb_handle \<Rightarrow> u64" where
  "recovery_part s = (pmb_ntotal (Some s) 0 + pmb_ntotal (Some s) 1) div of_nat threads_num"

definition recovery_args :: "pmb_handle \<Rightarrow> nat \<Rightarrow> u64 \<times> u64" where
  "recovery_args s i =
     (let part = recovery_part s;
          start = part * of_nat i;
          start = (if i = 0 then start + 1 else start);
          stop = (if i < threads_num - 1 then part * of_nat (i + 1)
                  else total_objs_count s + meta_objs_count s)
      in (start, stop))"

text \<open>
  A step of thread \<open>t\<close> on the threads' positions and the shared handle; a thread that has
  finished does nothing.
\<close>

definition thread_step ::
  "checksum_fn \<Rightarrow> nat \<Rightarrow> (u64 \<times> u64) list \<times> pmb_handle \<Rightarrow> (u64 \<times> u64) list \<times> pmb_handle" where
  "thread_step uc t = (\<lambda>(ts, s).
     if t < length ts \<and> fst (ts ! t) < snd (ts ! t)
     then (ts[t := (fst (ts ! t) + 1, snd (ts ! t))], recovery_block uc (fst (ts ! t)) s)
     else (ts, s))"

text \<open>
  \<open>recovery\<close> under a schedule: the list names the thread that moves next; what the schedule
  leaves undone is done while the threads are joined, one after the other.
\<close>

definition recovery :: "checksum_fn \<Rightarrow> nat list \<Rightarrow> pmb_handle \<Rightarrow> u8 \<times> pmb_handle" where
  "recovery uc sched s =
     (case fold (thread_step uc) sched (map (recovery_args s) [0..<threads_num], s) of
        (ts, s) \<Rightarrow> (PMB_OK, fold (\<lambda>(pos, stop). recovery_thread uc pos stop) ts s))"

section \<open>A new store\<close>

function populate_loop :: "u64 \<Rightarrow> pmb_handle \<Rightarrow> pmb_handle" where
  "populate_loop pos s =
     (if pos > 0 then
        populate_loop (pos - 1)
          (if pos \<le> total_objs_count s - 1 then s\<lparr>free_list := caslist_push (free_list s) pos\<rparr>
           else s\<lparr>meta_free_list := caslist_push (meta_free_list s) pos\<rparr>)
      else s)"
  by pat_completeness auto
termination
  by (relation "measure (\<lambda>(pos, s). unat pos)") (auto simp: unat_pred word_neq_0_conv unat_gt_0)

declare populate_loop.simps [simp del]

definition populate_free_list :: "pmb_handle \<Rightarrow> pmb_handle" where
  "populate_free_list s = populate_loop (total_objs_count s + meta_objs_count s - 1) s"

end
