(* ===== verification/Recover.thy ===== *)
theory Recover
  imports Recovery Txn
begin

text \<open>
  What the scan of an existing store finds: every block is classified once, as an object or as
  free, data or meta, whichever way the eight threads of \<open>recovery\<close> are interleaved.
\<close>

section \<open>Classification\<close>

text \<open>\<open>obj_valid\<close>: the block holds an object whose checksum is right, over the length that recovery uses.\<close>

definition scan_len :: "pmb_handle \<Rightarrow> u64 \<Rightarrow> nat" where
  "scan_len s i =
     (let h = hdr_at (mem s) (backend_direct (Some (bck s)) i)
      in unat (if pmb_ntotal (Some s) 0 < i then of_nat sizeof_pmb_data_hdr + ucast (h_key_len h) + ucast (h_val_len h)
               else of_nat sizeof_pmb_data_hdr + ucast (max_key_len s) + ucast (h_val_len h) :: u64))"

definition obj_valid :: "(u8 list \<Rightarrow> u64) \<Rightarrow> pmb_handle \<Rightarrow> u64 \<Rightarrow> bool" where
  "obj_valid ck s i \<longleftrightarrow> (let p = backend_direct (Some (bck s)) i
     in i \<noteq> 0 \<and> p \<noteq> NULL \<and> ld_u64 (mem s) p \<noteq> 0 \<and>
        ld_u64 (mem s) p = ck (range_without (mem s) p (scan_len s i) p))"

definition scan_ids :: "(u8 list \<Rightarrow> u64) \<Rightarrow> pmb_handle \<Rightarrow> bool \<Rightarrow> bool \<Rightarrow> u64 set \<Rightarrow> u64 set" where
  "scan_ids ck s region valid A =
     {i \<in> A. i \<noteq> 0 \<and> (pmb_ntotal (Some s) 0 < i \<longleftrightarrow> region) \<and> (obj_valid ck s i \<longleftrightarrow> valid)}"

text \<open>\<open>grown l B l'\<close>: the list \<open>l'\<close> is \<open>l\<close> with the identifiers \<open>B\<close> added.\<close>

definition grown :: "caslist option \<Rightarrow> u64 set \<Rightarrow> caslist option \<Rightarrow> bool" where
  "grown l B l' \<longleftrightarrow> list_wf l' \<and> list_ids l' = list_ids l \<union> B"

lemma grown_push: "grown l B l' \<Longrightarrow> valid_id i \<Longrightarrow> grown l (insert i B) (caslist_push l' i)"
  using list_push [of l' i] by (simp add: grown_def)

lemma grown_same: "list_wf l \<Longrightarrow> grown l {} l"
  by (simp add: grown_def)

lemma grown_unique: "grown l B l1 \<Longrightarrow> grown l B l2 \<Longrightarrow> l1 = l2"
  by (auto simp: grown_def list_wf_def list_ids_def intro: caslist_canonical)

text \<open>\<open>scanned ck s A s'\<close>: the handle \<open>s'\<close> is \<open>s\<close> after the blocks \<open>A\<close> were looked at.\<close>

definition scanned :: "(u8 list \<Rightarrow> u64) \<Rightarrow> pmb_handle \<Rightarrow> u64 set \<Rightarrow> pmb_handle \<Rightarrow> bool" where
  "scanned ck s A s' \<longleftrightarrow> (\<exists>f mf ob mo.
     s' = s\<lparr>free_list := f, meta_free_list := mf, objs_list := ob, meta_objs_list := mo\<rparr> \<and>
     grown (free_list s) (scan_ids ck s False False A) f \<and> grown (meta_free_list s) (scan_ids ck s True False A) mf \<and>
     grown (objs_list s) (scan_ids ck s False True A) ob \<and> grown (meta_objs_list s) (scan_ids ck s True True A) mo)"

definition scan_start :: "pmb_handle \<Rightarrow> bool" where
  "scan_start s \<longleftrightarrow> list_wf (free_list s) \<and> list_wf (meta_free_list s) \<and> list_wf (objs_list s) \<and> list_wf (meta_objs_list s)"

lemma scanned_none: "scan_start s \<Longrightarrow> scanned ck s {} s"
  unfolding scanned_def
  by (intro exI [of _ "free_list s"] exI [of _ "meta_free_list s"] exI [of _ "objs_list s"] exI [of _ "meta_objs_list s"])
    (simp add: scan_ids_def scan_start_def grown_same)

lemma scanned_unique: "scanned ck s A s1 \<Longrightarrow> scanned ck s A s2 \<Longrightarrow> s1 = s2"
  unfolding scanned_def by (elim exE conjE) (simp add: grown_unique)

lemma scanned_only_0: "scanned ck s A s' \<Longrightarrow> A - {0} = B - {0} \<Longrightarrow> scanned ck s B s'"
proof -
  assume "A - {0} = B - {0}"
  then have "scan_ids ck s r v A = scan_ids ck s r v B" for r v
    unfolding scan_ids_def by blast
  then show "scanned ck s A s' \<Longrightarrow> scanned ck s B s'"
    by (simp add: scanned_def)
qed

lemma scan_ids_insert:
  "scan_ids ck s r v (insert i A) =
     (if i \<noteq> 0 \<and> (pmb_ntotal (Some s) 0 < i \<longleftrightarrow> r) \<and> (obj_valid ck s i \<longleftrightarrow> v)
      then insert i (scan_ids ck s r v A) else scan_ids ck s r v A)"
  by (auto simp: scan_ids_def)

section \<open>One block\<close>

lemma recovery_block_eq:
  assumes "checksum_spec uc ck"
  shows "recovery_block uc i s =
    (let r = pmb_ntotal (Some s) 0 < i
     in if obj_valid ck s i
        then (if r then s\<lparr>meta_objs_list := caslist_push (meta_objs_list s) i\<rparr> else s\<lparr>objs_list := caslist_push (objs_list s) i\<rparr>)
        else (if r then s\<lparr>meta_free_list := caslist_push (meta_free_list s) i\<rparr> else s\<lparr>free_list := caslist_push (free_list s) i\<rparr>))"
proof -
  define p where "p = backend_direct (Some (bck s)) i"
  have get: "fst (backend_get (Some (bck s)) i 0 s) = (if i = 0 \<or> ld_u64 (mem s) p = 0 then NULL else p)"
    by (simp add: backend_get_def p_def hdr_at_def Let_def)
  have m: "s\<lparr>mem := mem s\<rparr> = s"
    by simp
  show ?thesis
  proof (cases "i = 0 \<or> ld_u64 (mem s) p = 0 \<or> p = NULL")
    case True
    then have "fst (backend_get (Some (bck s)) i 0 s) = NULL" and "\<not> obj_valid ck s i"
      unfolding get obj_valid_def p_def [symmetric] Let_def by auto
    then show ?thesis
      unfolding recovery_block_def Let_def by (simp only: simp_thms if_True if_False)
  next
    case False
    then have g: "fst (backend_get (Some (bck s)) i 0 s) = p" and "p \<noteq> NULL"
      and v: "obj_valid ck s i \<longleftrightarrow> ld_u64 (mem s) p = ck (range_without (mem s) p (scan_len s i) p)"
      unfolding get obj_valid_def p_def [symmetric] Let_def by auto
    note len = scan_len_def [of s i, folded p_def, unfolded Let_def, symmetric]
    show ?thesis
      unfolding recovery_block_def Let_def g len checksum_verify [OF assms] fst_conv snd_conv m v
      using \<open>p \<noteq> NULL\<close> by (simp only: simp_thms if_False)
  qed
qed

lemma obj_valid_lists [simp]:
  "obj_valid ck (s\<lparr>free_list := f, meta_free_list := mf, objs_list := ob, meta_objs_list := mo\<rparr>) i = obj_valid ck s i"
  "pmb_ntotal (Some (s\<lparr>free_list := f, meta_free_list := mf, objs_list := ob, meta_objs_list := mo\<rparr>)) r = pmb_ntotal (Some s) r"
  by (simp_all add: obj_valid_def scan_len_def pmb_ntotal_def Let_def)

lemma recovery_block_scanned:
  assumes uc: "checksum_spec uc ck" and sc: "scanned ck s A s'" and i: "i \<noteq> - 1"
  shows "scanned ck s (insert i A) (recovery_block uc i s')"
proof (cases "i = 0")
  case True
  then have "recovery_block uc i s' = s'"
    by (simp add: recovery_block_eq [OF uc] Let_def)
  then show ?thesis
    using True scanned_only_0 [OF sc] by simp
next
  case False
  with i have v: "valid_id i"
    by (simp add: valid_id_def)
  obtain f mf ob mo where s': "s' = s\<lparr>free_list := f, meta_free_list := mf, objs_list := ob, meta_objs_list := mo\<rparr>"
    and g: "grown (free_list s) (scan_ids ck s False False A) f" "grown (meta_free_list s) (scan_ids ck s True False A) mf"
      "grown (objs_list s) (scan_ids ck s False True A) ob" "grown (meta_objs_list s) (scan_ids ck s True True A) mo"
    using sc unfolding scanned_def by blast
  note p = g [THEN grown_push, OF v]
  show ?thesis
    unfolding scanned_def scan_ids_insert recovery_block_eq [OF uc] s' obj_valid_lists Let_def
    by (rule exI [of _ "if pmb_ntotal (Some s) 0 < i \<or> obj_valid ck s i then f else caslist_push f i"],
        rule exI [of _ "if pmb_ntotal (Some s) 0 < i \<and> \<not> obj_valid ck s i then caslist_push mf i else mf"],
        rule exI [of _ "if pmb_ntotal (Some s) 0 < i \<or> \<not> obj_valid ck s i then ob else caslist_push ob i"],
        rule exI [of _ "if pmb_ntotal (Some s) 0 < i \<and> obj_valid ck s i then caslist_push mo i else mo"])
      (simp add: g p False)
qed

section \<open>Threads and schedules\<close>

lemma recovery_thread_scanned:
  assumes "checksum_spec uc ck"
  shows "scanned ck s A s' \<Longrightarrow> scanned ck s (A \<union> {pos..<stop}) (recovery_thread uc pos stop s')"
proof (induction "unat stop - unat pos" arbitrary: pos A s' rule: less_induct)
  case less
  show ?case
  proof (cases "pos < stop")
    case True
    note n = less_not_max [OF True]
    have "A \<union> {pos..<stop} = insert pos A \<union> {pos + 1..<stop}"
      using True unat_Suc [OF n] by (auto simp: word_nat Suc_le_eq dest: unat_eqI)
    moreover have "unat stop - unat (pos + 1) < unat stop - unat pos"
      using True unat_Suc [OF n] by (simp add: word_nat)
    ultimately show ?thesis
      using less.hyps [OF _ recovery_block_scanned [OF assms less.prems n]] True
      by (subst recovery_thread.simps) simp
  next
    case False
    then show ?thesis
      using less.prems by (subst recovery_thread.simps) simp
  qed
qed

definition to_scan :: "(u64 \<times> u64) list \<Rightarrow> u64 set" where
  "to_scan ts = (\<Union>(p, q)\<in>set ts. {p..<q})"

lemma threads_scanned:
  assumes "checksum_spec uc ck"
  shows "scanned ck s A s' \<Longrightarrow> scanned ck s (A \<union> to_scan ts) (fold (\<lambda>(p, q). recovery_thread uc p q) ts s')"
proof (induction ts arbitrary: A s')
  case (Cons t ts)
  obtain p q where t: "t = (p, q)"
    by (cases t)
  have "A \<union> to_scan (t # ts) = (A \<union> {p..<q}) \<union> to_scan ts"
    by (auto simp: to_scan_def t)
  then show ?case
    using Cons.IH [OF recovery_thread_scanned [OF assms Cons.prems]] by (simp add: t)
qed (simp add: to_scan_def)

lemma to_scan_nth: "to_scan ts = (\<Union>j<length ts. {fst (ts ! j)..<snd (ts ! j)})"
  by (force simp: to_scan_def in_set_conv_nth)

lemma to_scan_split:
  "t < length ts \<Longrightarrow> to_scan ts =
    {fst (ts ! t)..<snd (ts ! t)} \<union> (\<Union>j\<in>{..<length ts} - {t}. {fst (ts ! j)..<snd (ts ! j)})"
  unfolding to_scan_nth by blast

lemma thread_step_scanned:
  assumes uc: "checksum_spec uc ck" and sc: "scanned ck s A s'" and step: "thread_step uc t (ts, s') = (ts', s'')"
  shows "\<exists>A'. scanned ck s A' s'' \<and> A' \<union> to_scan ts' = A \<union> to_scan ts"
proof (cases "t < length ts \<and> fst (ts ! t) < snd (ts ! t)")
  case True
  let ?p = "fst (ts ! t)" and ?q = "snd (ts ! t)"
  have n: "?p \<noteq> - 1"
    using True less_not_max by blast
  have eq: "ts' = ts[t := (?p + 1, ?q)]" "s'' = recovery_block uc ?p s'"
    using step True by (simp_all add: thread_step_def)
  have "{?p..<?q} = insert ?p {?p + 1..<?q}"
    using True unat_Suc [OF n] by (auto simp: word_nat Suc_le_eq dest: unat_eqI)
  then have "insert ?p (to_scan ts') = to_scan ts"
    using True to_scan_split [of t ts'] to_scan_split [of t ts] unfolding eq by simp
  then show ?thesis
    using recovery_block_scanned [OF uc sc n] eq(2) by (intro exI [of _ "insert ?p A"]) auto
next
  case False
  then show ?thesis
    using step sc by (auto simp: thread_step_def)
qed

lemma schedule_scanned:
  assumes "checksum_spec uc ck"
  shows "scanned ck s A s' \<Longrightarrow> fold (thread_step uc) sched (ts, s') = (ts', s'') \<Longrightarrow>
    \<exists>A'. scanned ck s A' s'' \<and> A' \<union> to_scan ts' = A \<union> to_scan ts"
proof (induction sched arbitrary: ts s' A)
  case (Cons t sched)
  obtain ts1 s1 where st: "thread_step uc t (ts, s') = (ts1, s1)"
    by (cases "thread_step uc t (ts, s')")
  obtain A1 where A1: "scanned ck s A1 s1" "A1 \<union> to_scan ts1 = A \<union> to_scan ts"
    using thread_step_scanned [OF assms Cons.prems(1) st] by blast
  then show ?case
    using Cons.IH [OF A1(1), of ts1] Cons.prems(2) by (simp add: st)
qed auto

lemma recovery_scanned:
  assumes "checksum_spec uc ck" and "scan_start s"
  shows "fst (recovery uc sched s) = PMB_OK"
    and "scanned ck s (to_scan (map (recovery_args s) [0..<threads_num])) (snd (recovery uc sched s))"
proof -
  let ?ts = "map (recovery_args s) [0..<threads_num]"
  obtain ts' s' where f: "fold (thread_step uc) sched (?ts, s) = (ts', s')"
    by (cases "fold (thread_step uc) sched (?ts, s)")
  obtain A where A: "scanned ck s A s'" "A \<union> to_scan ts' = to_scan ?ts"
    using schedule_scanned [OF assms(1) scanned_none [OF assms(2)] f] by auto
  show "fst (recovery uc sched s) = PMB_OK"
    by (simp add: recovery_def f)
  show "scanned ck s (to_scan ?ts) (snd (recovery uc sched s))"
    using threads_scanned [OF assms(1) A(1), of ts'] by (simp add: recovery_def f A(2))
qed

section \<open>The intervals\<close>

text \<open>The eight intervals cover the identifiers of the store, up to the identifier 0.\<close>

lemma recovery_args_cover:
  assumes T: "0 < total_objs_count s" and w: "unat (total_objs_count s) + unat (meta_objs_count s) < 2 ^ 64"
  shows "to_scan (map (recovery_args s) [0..<threads_num]) - {0} = {1..<total_objs_count s + meta_objs_count s}"
proof -
  let ?N = "unat (total_objs_count s) + unat (meta_objs_count s)"
  define P where "P = (?N - 1) div 8"
  have N: "unat (total_objs_count s + meta_objs_count s) = ?N"
    using w by (simp add: unat_add_no_wrap)
  have "total_objs_count s - 1 + meta_objs_count s = total_objs_count s + meta_objs_count s - 1"
    by simp
  moreover have "total_objs_count s + meta_objs_count s \<noteq> 0"
    using N T by (metis add_is_0 unat_0 unat_eq_zero word_gt_0)
  ultimately have "unat (pmb_ntotal (Some s) 0 + pmb_ntotal (Some s) 1) = ?N - 1"
    using N by (simp only: pmb_ntotal_def option.case if_True if_False not_not one_neq_zero unat_pred
        simp_thms)
  then have part: "unat (recovery_part s) = P"
    by (simp add: recovery_part_def threads_num_def P_def unat_div)
  have P8: "8 * P \<le> ?N - 1" and N1: "1 \<le> ?N"
    using T by (simp_all add: P_def word_nat)
  have mul: "unat (recovery_part s * of_nat j) = P * j" if "j \<le> 8" for j
  proof -
    have "P * j \<le> 8 * P"
      using that by simp
    then have "P * j < 2 ^ 64"
      using P8 w by linarith
    then show ?thesis
      using that by (subst unat_mult_no_wrap) (simp_all add: part)
  qed
  have in_args: "i \<in> {fst (recovery_args s j)..<snd (recovery_args s j)} \<longleftrightarrow>
      P * j \<le> unat i \<and> unat i < (if j < 7 then P * Suc j else ?N)" if "j < 8" "i \<noteq> 0" for i j
    using mul [of j] mul [of "Suc j"] that N
    by (cases "j = 0")
      (auto simp: recovery_args_def Let_def threads_num_def word_nat unat_gt_0 Suc_le_eq split: if_splits)
  show ?thesis
  proof (intro set_eqI iffI)
    fix i
    assume "i \<in> to_scan (map (recovery_args s) [0..<threads_num]) - {0}"
    then obtain j where j: "j < 8" "i \<noteq> 0" "i \<in> {fst (recovery_args s j)..<snd (recovery_args s j)}"
      by (auto simp: to_scan_nth threads_num_def)
    have "P * Suc j \<le> P * 8"
      using j(1) by (intro mult_le_mono) simp_all
    moreover have "unat i < (if j < 7 then P * Suc j else ?N)"
      using j(3) in_args [OF j(1,2)] by blast
    then have "unat i < P * Suc j \<or> unat i < ?N"
      by (simp only: simp_thms split: if_splits)
    ultimately have "unat i < P * 8 \<or> unat i < ?N"
      using less_le_trans by blast
    then have "unat i < ?N"
      using P8 by linarith
    then show "i \<in> {1..<total_objs_count s + meta_objs_count s}"
      using j(2) N by (simp add: word_nat unat_gt_0 Suc_le_eq)
  next
    fix i
    assume "i \<in> {1..<total_objs_count s + meta_objs_count s}"
    then have i: "i \<noteq> 0" "unat i < ?N"
      using N by (auto simp: word_nat)
    have "\<exists>j<8. P * j \<le> unat i \<and> unat i < (if j < 7 then P * Suc j else ?N)"
    proof (cases "P * 7 \<le> unat i")
      case True
      then show ?thesis
        using i by (intro exI [of _ 7]) simp
    next
      case False
      then have P: "0 < P"
        by (cases "P = 0") simp_all
      then have "unat i div P < 7"
        using False by (simp add: div_less_iff_less_mult mult.commute)
      then show ?thesis
        using P by (intro exI [of _ "unat i div P"])
          (simp add: dividend_less_times_div less_trans)
    qed
    then show "i \<in> to_scan (map (recovery_args s) [0..<threads_num]) - {0}"
      using in_args i(1) by (auto simp: to_scan_nth threads_num_def)
  qed
qed

definition store_ids :: "pmb_handle \<Rightarrow> u64 set" where
  "store_ids s = {1..<total_objs_count s + meta_objs_count s}"

lemma recovery_outcome:
  assumes "checksum_spec uc ck" and "scan_start s" and T: "0 < total_objs_count s"
    and "unat (total_objs_count s) + unat (meta_objs_count s) < 2 ^ 64"
  shows "\<exists>f mf ob mo. recovery uc sched s =
      (PMB_OK, s\<lparr>free_list := f, meta_free_list := mf, objs_list := ob, meta_objs_list := mo\<rparr>) \<and>
    grown (free_list s) {i \<in> store_ids s. i < total_objs_count s \<and> \<not> obj_valid ck s i} f \<and>
    grown (meta_free_list s) {i \<in> store_ids s. total_objs_count s \<le> i \<and> \<not> obj_valid ck s i} mf \<and>
    grown (objs_list s) {i \<in> store_ids s. i < total_objs_count s \<and> obj_valid ck s i} ob \<and>
    grown (meta_objs_list s) {i \<in> store_ids s. total_objs_count s \<le> i \<and> obj_valid ck s i} mo"
proof -
  let ?A = "store_ids s"
  have "scanned ck s ?A (snd (recovery uc sched s))"
    by (rule scanned_only_0 [OF recovery_scanned(2) [OF assms(1,2)]])
      (auto simp: store_ids_def recovery_args_cover [OF assms(3,4)])
  then obtain f mf ob mo where snd: "snd (recovery uc sched s) =
      s\<lparr>free_list := f, meta_free_list := mf, objs_list := ob, meta_objs_list := mo\<rparr>"
    and g: "grown (free_list s) (scan_ids ck s False False ?A) f" "grown (meta_free_list s) (scan_ids ck s True False ?A) mf"
      "grown (objs_list s) (scan_ids ck s False True ?A) ob" "grown (meta_objs_list s) (scan_ids ck s True True ?A) mo"
    unfolding scanned_def by blast
  have "total_objs_count s \<noteq> 0"
    using T by auto
  then have border: "pmb_ntotal (Some s) 0 < i \<longleftrightarrow> total_objs_count s \<le> i" for i
    using T by (simp add: pmb_ntotal_def word_nat unat_pred) linarith
  have nz: "i \<noteq> 0" if "i \<in> ?A" for i
    using that by (auto simp: store_ids_def)
  have ids: "scan_ids ck s False v ?A = {i \<in> ?A. i < total_objs_count s \<and> obj_valid ck s i = v}"
      "scan_ids ck s True v ?A = {i \<in> ?A. total_objs_count s \<le> i \<and> obj_valid ck s i = v}" for v
    unfolding scan_ids_def border using nz by (auto simp only: simp_thms not_le)
  show ?thesis
    using g recovery_scanned(1) [OF assms(1,2), of sched] snd unfolding ids
    by (intro exI [of _ f] exI [of _ mf] exI [of _ ob] exI [of _ mo]) (simp add: prod_eq_iff)
qed

section \<open>Properties\<close>

text \<open>
  C11: recovery classifies every block of the store exactly once, whatever the interleaving of
  its eight threads. Nothing but the four lists changes; an identifier from 1 up to the
  number of blocks joins a list of objects when its block holds an object with a valid
  checksum and a free list when it does not, of the data region up to the border and of
  the meta region above it.
\<close>

theorem recovery_classifies:
  assumes "checksum_spec uc ck" and "scan_start s" and "0 < total_objs_count s"
    and "unat (total_objs_count s) + unat (meta_objs_count s) < 2 ^ 64"
  shows "\<exists>f mf ob mo. recovery uc sched s =
      (PMB_OK, s\<lparr>free_list := f, meta_free_list := mf, objs_list := ob, meta_objs_list := mo\<rparr>) \<and>
    grown (free_list s) {i \<in> store_ids s. i < total_objs_count s \<and> \<not> obj_valid ck s i} f \<and>
    grown (meta_free_list s) {i \<in> store_ids s. total_objs_count s \<le> i \<and> \<not> obj_valid ck s i} mf \<and>
    grown (objs_list s) {i \<in> store_ids s. i < total_objs_count s \<and> obj_valid ck s i} ob \<and>
    grown (meta_objs_list s) {i \<in> store_ids s. total_objs_count s \<le> i \<and> obj_valid ck s i} mo"
  using recovery_outcome [OF assms(1-4)] .


definition blank_lists :: "pmb_handle \<Rightarrow> pmb_handle" where
  "blank_lists s = s\<lparr>free_list := caslist_new True 0 0, meta_free_list := caslist_new True 0 0,
     objs_list := caslist_new True 0 0, meta_objs_list := caslist_new True 0 0\<rparr>"

lemma blank_list: "list_wf (caslist_new True 0 0)" "list_ids (caslist_new True 0 0) = {}"
  by (simp_all add: list_wf_def list_ids_def caslist_eval caslist_ids_def)

lemma blank_lists_start: "scan_start (blank_lists s)"
  by (simp add: scan_start_def blank_lists_def blank_list)

lemma recovery_classifies_witness:
  "\<exists>s'. recovery sample_uc [3, 3, 7, 0, 1] (blank_lists sample_store) = (PMB_OK, s') \<and>
    list_ids (free_list s') = {1..32765} \<and> list_ids (meta_free_list s') = {32766..36861} \<and>
    list_ids (objs_list s') = {} \<and> list_ids (meta_objs_list s') = {}"
proof -
  let ?s = "blank_lists sample_store"
  have f: "total_objs_count ?s = 32766" "meta_objs_count ?s = 4096" "mem ?s = (\<lambda>_. 0)"
    by (simp_all add: blank_lists_def sample_store_def)
  have free: "\<not> obj_valid sample_ck ?s i" for i
    by (simp add: obj_valid_def f Let_def)
  have ids: "{i \<in> store_ids ?s. i < 32766} = {1..32765}" "{i \<in> store_ids ?s. 32766 \<le> i} = {32766..36861}"
    by (auto simp: store_ids_def f word_nat)
  have ini: "list_ids (free_list ?s) = {}" "list_ids (meta_free_list ?s) = {}" "list_ids (objs_list ?s) = {}"
      "list_ids (meta_objs_list ?s) = {}"
    by (simp_all add: blank_lists_def blank_list)
  obtain g mg ob mo where "recovery sample_uc [3, 3, 7, 0, 1] ?s =
      (PMB_OK, ?s\<lparr>free_list := g, meta_free_list := mg, objs_list := ob, meta_objs_list := mo\<rparr>)"
    "list_ids g = {1..32765}" "list_ids mg = {32766..36861}" "list_ids ob = {}" "list_ids mo = {}"
    using recovery_classifies [OF sample_checksum blank_lists_start, of sample_store "[3, 3, 7, 0, 1]"]
    unfolding f grown_def ini by (auto simp: free ids)
  then show ?thesis
    by (intro exI conjI) auto
qed

text \<open>
  C16: the outcome of recovery does not depend on the interleaving of its threads: any two
  schedules leave the same handle, the lists equal link for link.
\<close>

theorem recovery_schedule_irrelevant:
  assumes "checksum_spec uc ck" and "scan_start s"
  shows "recovery uc sched s = recovery uc sched' s"
  using recovery_scanned [OF assms, of sched] recovery_scanned [OF assms, of sched']
  by (intro prod_eqI) (auto intro: scanned_unique)

theorem recovery_schedule_irrelevant_witness:
  "recovery sample_uc [0, 1, 2, 0, 7] (blank_lists sample_store) = recovery sample_uc [] (blank_lists sample_store)"
  by (rule recovery_schedule_irrelevant [OF sample_checksum blank_lists_start])

end
