(* ===== verification/Iterator.thy ===== *)
theory Iterator
  imports Pmbackend
begin

text \<open>
  The iterators of \<open>src/pmbackend.c\<close>. An iterator consumes the list of objects that recovery
  found in its region. The handle an iterator points to is passed beside it.
\<close>

record pmb_iter =
  it_region :: u8
  it_pos :: u64

definition iter_list :: "pmb_handle \<Rightarrow> u8 \<Rightarrow> caslist option" where
  "iter_list s region = (if region \<noteq> 0 then meta_objs_list s else objs_list s)"

definition set_iter_list :: "u8 \<Rightarrow> caslist option \<Rightarrow> pmb_handle \<Rightarrow> pmb_handle" where
  "set_iter_list region l s = (if region \<noteq> 0 then s\<lparr>meta_objs_list := l\<rparr> else s\<lparr>objs_list := l\<rparr>)"

definition pmb_iter_open ::
  "bool \<Rightarrow> pmb_handle option \<Rightarrow> u8 \<Rightarrow> pmb_iter option \<times> pmb_handle option" where
  "pmb_iter_open malloc_ok handle region =
     (case handle of
        None \<Rightarrow> (None, None)
      | Some s \<Rightarrow>
          (if iter_list s region = None then (None, handle)
           else case caslist_pop (iter_list s region) (Some 0) of (st, cell, l) \<Rightarrow>
                  let s = set_iter_list region l s
                  in if st = 0 then
                       (if \<not> malloc_ok then (None, Some s)
                        else (Some \<lparr>it_region = region, it_pos = (case cell of None \<Rightarrow> 0 | Some v \<Rightarrow> v)\<rparr>, Some s))
                     else (None, Some s)))"

definition pmb_iter_pos :: "pmb_iter option \<Rightarrow> u64" where
  "pmb_iter_pos iter = (case iter of None \<Rightarrow> 0 | Some it \<Rightarrow> it_pos it)"

definition pmb_iter_close :: "pmb_iter option \<Rightarrow> pmb_handle \<Rightarrow> u8 \<times> pmb_handle" where
  "pmb_iter_close iter s =
     (case iter of
        None \<Rightarrow> (PMB_EARGS, s)
      | Some it \<Rightarrow>
          (PMB_OK, if iter_list s (it_region it) \<noteq> None
             then set_iter_list (it_region it) (snd (caslist_free (iter_list s (it_region it)))) s else s))"

definition pmb_iter_valid :: "pmb_iter option \<Rightarrow> u64" where
  "pmb_iter_valid iter = (case iter of None \<Rightarrow> 0 | Some it \<Rightarrow> if it_pos it = 0 then 0 else 1)"

definition pmb_iter_get :: "pmb_iter option \<Rightarrow> pmb_handle \<Rightarrow> pmb_pair option \<Rightarrow> u8 \<times> pmb_pair option" where
  "pmb_iter_get iter s pair =
     (case (iter, pair) of
        (Some it, Some _) \<Rightarrow>
          (if pmb_iter_valid iter = 0 then (PMB_ERR, pair) else pmb_get (Some s) (it_pos it) pair)
      | _ \<Rightarrow> (PMB_EARGS, pair))"

definition pmb_iter_next :: "pmb_iter option \<Rightarrow> pmb_handle \<Rightarrow> u8 \<times> pmb_iter option \<times> pmb_handle" where
  "pmb_iter_next iter s =
     (case iter of
        None \<Rightarrow> (PMB_EARGS, None, s)
      | Some it \<Rightarrow>
          (case caslist_pop (iter_list s (it_region it)) (Some (it_pos it)) of (st, cell, l) \<Rightarrow>
             let it = it\<lparr>it_pos := (case cell of None \<Rightarrow> it_pos it | Some v \<Rightarrow> v)\<rparr>;
                 s = set_iter_list (it_region it) l s
             in if st \<noteq> 0 then (PMB_ERR, Some it, s) else (PMB_OK, Some it, s)))"

end
