(* ===== verification/Open.thy ===== *)
theory Open
  imports Iterator Recovery
begin

text \<open>
  Opening and closing a store, \<open>pmb_open\<close> and \<open>pmb_close\<close> of \<open>src/pmbackend.c\<close>, and the thread
  that makes the whole pool durable in the background.
\<close>

record pmb_opts =
  o_path :: "string option"
  o_data_size :: u64
  o_meta_size :: u64
  o_write_log_entries :: u8
  o_max_key_len :: u32
  o_max_val_len :: u32
  o_meta_max_key_len :: u32
  o_meta_max_val_len :: u32
  o_sync_type :: u8

text \<open>What \<open>malloc\<close> gives to \<open>pmb_open\<close>: the handle, the lists in the order of their creation, the log.\<close>

record open_heap =
  oh_handle_ok :: bool
  oh_list_ok :: "nat \<Rightarrow> bool"
  oh_log :: log_heap

definition TX_LOG_SIZE :: u64 where
  "TX_LOG_SIZE = 128 * 1024 * 1024"

text \<open>The handle with the fields set so far: the pointers not yet set are NULL here.\<close>

definition new_handle :: "pmb_opts \<Rightarrow> backend \<Rightarrow> world \<Rightarrow> pmb_handle" where
  "new_handle opts b w = \<lparr>mem = mem w, plog = plog w, Pagesize = Pagesize w, bck = b,
     total_objs_count = 0, meta_objs_count = 0,
     max_key_len = o_max_key_len opts, max_val_len = o_max_val_len opts,
     meta_max_key_len = o_meta_max_key_len opts, meta_max_val_len = o_meta_max_val_len opts,
     objs_list = None, free_list = None, meta_objs_list = None, meta_free_list = None,
     op_log = \<lparr>tx_slots_count = 0, tx_slot_capacity = 0, tx_slots_list = None, upd_id_list = []\<rparr>\<rparr>"

text \<open>The calls of \<open>backend_open\<close> and, when that gives NULL, \<open>backend_create\<close>; the flag is \<open>empty\<close>.\<close>

definition open_or_create ::
  "nvml \<Rightarrow> pmb_opts \<Rightarrow> world \<Rightarrow> crash + (bool \<times> backend option \<times> world)" where
  "open_or_create nv opts w =
     (if o_write_log_entries opts = 0 then Inl DivByZero
      else let n = ucast (o_write_log_entries opts); slot_size = TX_LOG_SIZE div n
           in bindR (backend_open nv (o_path opts) (o_data_size opts) (o_meta_size opts) n slot_size
                (o_max_key_len opts) (o_max_val_len opts) (o_meta_max_key_len opts) (o_meta_max_val_len opts)
                (o_sync_type opts) w) (\<lambda>(bo, w).
              if bo = None then
                bindR (backend_create nv (o_path opts) (o_data_size opts) (o_meta_size opts) n slot_size
                  (o_max_key_len opts) (o_max_val_len opts) (o_meta_max_key_len opts) (o_meta_max_val_len opts)
                  (o_sync_type opts) w) (\<lambda>(bo, w). Inr (True, bo, w))
              else Inr (False, bo, w)))"

text \<open>The lists of a new store.\<close>

definition open_empty :: "open_heap \<Rightarrow> pmb_handle \<Rightarrow> pmb_handle" where
  "open_empty hp s =
     populate_free_list (s\<lparr>
       free_list := caslist_new (oh_list_ok hp 0) 1 (total_objs_count s),
       meta_free_list := caslist_new (oh_list_ok hp 1) 1 (meta_objs_count s),
       objs_list := None, meta_objs_list := None\<rparr>)"

text \<open>The recovery of an existing store; \<open>None\<close> when \<open>tx_log_check\<close> does not return.\<close>

definition open_existing ::
  "checksum_fn \<Rightarrow> open_heap \<Rightarrow> nat list \<Rightarrow> pmb_handle \<Rightarrow> (crash + pmb_handle) option" where
  "open_existing uc hp sched s =
     (case tx_log_check uc s of
        None \<Rightarrow> None
      | Some (Inl c) \<Rightarrow> Some (Inl c)
      | Some (Inr s) \<Rightarrow>
          Some (Inr (snd (recovery uc sched (s\<lparr>
            free_list := caslist_new (oh_list_ok hp 0) 0 0,
            meta_free_list := caslist_new (oh_list_ok hp 1) 0 0,
            objs_list := caslist_new (oh_list_ok hp 2) 0 0,
            meta_objs_list := caslist_new (oh_list_ok hp 3) 0 0\<rparr>)))))"

text \<open>
  \<open>pmb_open\<close>: the error code, and NULL with the state of the process (\<open>Inl\<close>) or the handle
  (\<open>Inr\<close>).
\<close>

definition pmb_open ::
  "nvml \<Rightarrow> checksum_fn \<Rightarrow> open_heap \<Rightarrow> nat list \<Rightarrow> pmb_opts option \<Rightarrow> world \<Rightarrow>
   (crash + (u8 \<times> (world + pmb_handle))) option" where
  "pmb_open nv uc hp sched opts w =
     (if \<not> oh_handle_ok hp then Some (Inr (PMB_ERR, Inl w))
      else (case opts of
        None \<Rightarrow> Some (Inl NullDeref)
      | Some opts \<Rightarrow>
          (case open_or_create nv opts w of
             Inl c \<Rightarrow> Some (Inl c)
           | Inr (_, None, w) \<Rightarrow> Some (Inr (PMB_ECREAT, Inl w))
           | Inr (is_empty, Some b, w) \<Rightarrow>
               (case tx_log_init (oh_log hp) (o_write_log_entries opts) (new_handle opts b w) of
                  Inl c \<Rightarrow> Some (Inl c)
                | Inr s \<Rightarrow>
                    let s = s\<lparr>total_objs_count := backend_nblock (Some (bck s)) False,
                              meta_objs_count := backend_nblock (Some (bck s)) True\<rparr>
                    in if is_empty then Some (Inr (0, Inr (open_empty hp s)))
                       else case open_existing uc hp sched s of
                              None \<Rightarrow> None
                            | Some (Inl c) \<Rightarrow> Some (Inl c)
                            | Some (Inr s) \<Rightarrow> Some (Inr (0, Inr s))))))"

text \<open>
  \<open>pmb_close\<close>: the status and the process after the handle was released. The lists are
  released with the handle and cannot be observed any more.
\<close>

definition pmb_close :: "pmb_handle option \<Rightarrow> u8 \<times> pmb_handle option" where
  "pmb_close handle =
     (case handle of
        None \<Rightarrow> (PMB_EARGS, None)
      | Some s \<Rightarrow>
          (let s = (if objs_list s \<noteq> None then s\<lparr>objs_list := snd (caslist_free (objs_list s))\<rparr> else s);
               s = (if meta_objs_list s \<noteq> None then s\<lparr>meta_objs_list := snd (caslist_free (meta_objs_list s))\<rparr> else s);
               s = s\<lparr>free_list := snd (caslist_free (free_list s))\<rparr>;
               s = s\<lparr>meta_free_list := snd (caslist_free (meta_free_list s))\<rparr>;
               s = tx_log_free s
           in (PMB_OK, Some (backend_close (Some (bck s)) s))))"

text \<open>\<open>n\<close> rounds of the loop of \<open>_sync_thread\<close>, which ends only when the thread is cancelled.\<close>

primrec sync_thread :: "nat \<Rightarrow> backend \<Rightarrow> 'a world_scheme \<Rightarrow> 'a world_scheme" where
  "sync_thread 0 b w = w"
| "sync_thread (Suc n) b w = sync_thread n b (snd (backend_persist_all (Some b) w))"

end
