(* ===== verification/Log_Check.thy ===== *)
theory Log_Check
  imports Recover Open
begin

text \<open>
  What \<open>tx_log_check\<close> does with the transactions that a crash interrupted: it returns unless
  the log has 255 slots, a slot that it looks at is settled (rolled back, or rolled forward
  when the slot is committed and its checksum is right), and the first slot is not looked at.
\<close>

section \<open>Frames\<close>

lemma backend_set_zero_conf: "conf_eq s (snd (backend_set_zero (Some b) p s))"
  "op_log (snd (backend_set_zero (Some b) p s)) = op_log s"
  by (simp_all add: backend_set_zero_def conf_eq_def Let_def)

lemma meta_upd_add_conf: "tx_slot_meta_upd_add t i n s = Inr s' \<Longrightarrow> conf_eq s s'"
  by (auto simp: tx_slot_meta_upd_add_def Let_def bindR_eq_Inr_iff conf_eq_def split: if_splits)

lemma tx_update_block_conf:
  assumes "tx_update_block t i p off n s = Inr s'"
  shows "conf_eq s s'"
proof -
  have m: "conf_eq s (backend_memcpy b d q k s)" for b d q k
    using backend_memcpy_mem [of b d q k s] by (auto simp: conf_eq_def)
  show ?thesis
    using assms conf_eq_trans [OF m meta_upd_add_conf] unfolding tx_update_block_def Let_def by (metis Inl_Inr_False)
qed

lemma tx_check_entry_conf: "tx_check_entry c t p e s = Inr s' \<Longrightarrow> conf_eq s s'"
  using tx_update_block_conf
  by (auto simp: tx_check_entry_def Let_def backend_set_zero_conf split: option.splits tx_op.splits if_splits)

lemma tx_check_loop_conf: "tx_check_loop c t slot pos s = Inr s' \<Longrightarrow> conf_eq s s'"
proof (induction c t slot pos s rule: tx_check_loop.induct)
  case (1 c t slot pos s)
  note r = 1(2) [unfolded tx_check_loop.simps [of c t slot pos s]]
  show ?case
  proof (cases "pos < ptr_add slot (s_size (slot_at (mem s) slot)) \<and>
      \<not> (e_blk_id1 (entry_at (mem s) pos) = 0 \<and> e_blk_id2 (entry_at (mem s) pos) = 0)")
    case True
    then obtain s1 where s1: "tx_check_entry c t (slot + sizeof_tx_slot) (entry_at (mem s) pos) s = Inr s1"
        "tx_check_loop c t slot (pos + sizeof_tx_entry) s1 = Inr s'"
      using r by (auto simp: Let_def bindR_eq_Inr_iff)
    then have "conf_eq s1 s'"
      using 1(1) [of "entry_at (mem s) pos"] True by blast
    then show ?thesis
      using tx_check_entry_conf [OF s1(1)] conf_eq_trans by blast
  next
    case False
    then show ?thesis
      using r by (auto simp: Let_def split: if_splits)
  qed
qed

lemma tx_slot_checksum_conf: "conf_eq s (tx_slot_checksum uc p t s)"
proof -
  let ?s = "s\<lparr>mem := snd (uc (mem s) p (unat (s_size (slot_at (mem s) p))) p True)\<rparr>"
  obtain l where "snd (backend_tx_persist (Some (bck s)) t (s_size (slot_at (mem ?s) p)) ?s) = ?s\<lparr>plog := l\<rparr>"
    using backend_tx_persist_plog by metis
  then show ?thesis
    by (simp add: tx_slot_checksum_def Let_def conf_eq_def)
qed

lemma tx_set_zero_conf: "p \<noteq> NULL \<Longrightarrow> conf_eq s (snd (backend_tx_set_zero (Some b) p s))"
  using backend_tx_set_zero_mem [of p b s] by (auto simp: conf_eq_def)

lemma tx_check_slot_conf:
  assumes "tx_check_slot uc t s = Inr s'"
  shows "conf_eq s s'"
proof -
  let ?p = "backend_tx_direct (Some (bck s)) t"
  show ?thesis
  proof (cases "?p = NULL \<or> s_status (slot_at (mem s) ?p) = status_code EMPTY")
    case True
    then have "tx_check_slot uc t s = Inr s"
      unfolding tx_check_slot_def Let_def by metis
    then show ?thesis
      using assms by simp
  next
    case False
    let ?r = "uc (mem s) ?p (unat (of_nat sizeof_tx_slot + s_size (slot_at (mem s) ?p))) ?p False"
    obtain c s2 where s2: "tx_check_loop c t ?p (?p + sizeof_tx_slot) (s\<lparr>mem := snd ?r\<rparr>) = Inr s2"
      and s': "s' = (let s3 = tx_slot_checksum uc ?p t (s2\<lparr>mem := set_slot_size (set_slot_status (mem s2) ?p EMPTY) ?p 0\<rparr>)
         in snd (backend_tx_set_zero (Some (bck s3)) ?p s3))"
      using assms False by (auto simp: tx_check_slot_def Let_def bindR_eq_Inr_iff)
    have "conf_eq s s2"
      using tx_check_loop_conf [OF s2] by (simp add: conf_eq_def)
    moreover have "conf_eq s2 (tx_slot_checksum uc ?p t (s2\<lparr>mem := set_slot_size (set_slot_status (mem s2) ?p EMPTY) ?p 0\<rparr>))"
      by (rule conf_eq_trans [OF _ tx_slot_checksum_conf]) (simp add: conf_eq_def)
    ultimately show ?thesis
      unfolding s' Let_def using tx_set_zero_conf False conf_eq_trans by blast
  qed
qed

section \<open>Termination of the outer loop\<close>

lemma unat_Suc_8: "x \<noteq> - 1 \<Longrightarrow> unat (x + 1) = Suc (unat x)" for x :: u8
  by (simp add: unatSuc add_eq_0_iff add.commute [of x] eq_commute [of _ "- 1"])

lemma tx_log_check_loop_returns:
  assumes "tx_slots_count (op_log s) \<noteq> - 1"
  shows "\<exists>r. tx_log_check_loop uc t s = Some r"
  using assms
proof (induction "256 - unat t" arbitrary: t s rule: less_induct)
  case less
  show ?case
  proof (cases "t \<le> tx_slots_count (op_log s)")
    case True
    then have "t \<noteq> - 1"
      using less.prems word_order.extremum_unique by blast
    then have t: "unat (t + 1) = Suc (unat t)"
      by (rule unat_Suc_8)
    show ?thesis
    proof (cases "tx_check_slot uc t s")
      case (Inl c)
      then show ?thesis
        using True by (subst tx_log_check_loop.simps) simp
    next
      case (Inr s1)
      have "tx_slots_count (op_log s1) \<noteq> - 1"
        using tx_check_slot_conf [OF Inr] less.prems by (simp add: conf_eq_def)
      moreover have "256 - unat (t + 1) < 256 - unat t"
        using t unat_lt_8 [of t] by simp
      ultimately obtain r where "tx_log_check_loop uc (t + 1) s1 = Some r"
        using less.hyps by blast
      then show ?thesis
        using True Inr by (subst tx_log_check_loop.simps) simp
    qed
  next
    case False
    then show ?thesis
      by (subst tx_log_check_loop.simps) simp
  qed
qed

lemma tx_log_check_loop_stuck:
  assumes "\<And>t. tx_check_slot uc t s = Inr s" and "tx_slots_count (op_log s) = - 1"
  shows "tx_log_check_loop uc t s = None"
proof (rule ccontr)
  assume "tx_log_check_loop uc t s \<noteq> None"
  then obtain r where "tx_log_check_loop uc t s = Some r"
    by blast
  then show False
    using assms
  proof (induction rule: tx_log_check_loop.raw_induct [rotated, consumes 1])
    case (1 loop uc t s r)
    then show ?case
      by (auto split: if_splits sum.splits)
  qed
qed


section \<open>Clearing several blocks\<close>

definition clear_ok :: "pmb_handle \<Rightarrow> u64 \<Rightarrow> bool" where
  "clear_ok s i \<longleftrightarrow> block_ok (bck s) i \<and> i \<noteq> 0 \<and> fits s i"

lemma clear_block_other:
  assumes "clear_ok s i"
  shows "block_ok (bck s) j \<Longrightarrow> j \<noteq> i \<Longrightarrow> same_on (blk_ptr s j) (block_len (bck s) j) (mem (clear_block i s)) (mem s)"
    and "slot_ok (bck s) t \<Longrightarrow> same_on (backend_tx_direct (Some (bck s)) t) (slot_cap s) (mem (clear_block i s)) (mem s)"
proof -
  have i: "block_ok (bck s) i" and o: "only (blk_ptr s i) (block_len (bck s) i) (mem s) (mem (clear_block i s))"
    using assms clear_block_only by (simp_all add: clear_ok_def)
  show "block_ok (bck s) j \<Longrightarrow> j \<noteq> i \<Longrightarrow> same_on (blk_ptr s j) (block_len (bck s) j) (mem (clear_block i s)) (mem s)"
    using bs.other_block_same [OF i] only_apart [OF o] by blast
  show "slot_ok (bck s) t \<Longrightarrow> same_on (backend_tx_direct (Some (bck s)) t) (slot_cap s) (mem (clear_block i s)) (mem s)"
    using bs.slot_same [OF i] only_apart [OF o] by blast
qed

lemma clear_block_keeps_ok:
  assumes "clear_ok s i" and "clear_ok s j"
  shows "clear_ok (clear_block i s) j"
proof (cases "j = i")
  case True
  then show ?thesis
    using assms(1) bs.extent_header [of "bck s" i] clear_block_hdr [of i s] by (simp add: clear_ok_def fits_def obj_len_def)
next
  case False
  then have "hdr_at (mem (clear_block i s)) (blk_ptr s j) = blk_hdr s j"
    using hdr_same_block [OF _ clear_block_other(1) [OF assms(1)]] assms(2) unfolding clear_ok_def by blast
  then show ?thesis
    using assms(2) by (simp add: clear_ok_def fits_def obj_len_def)
qed

text \<open>\<open>cleared s D s'\<close>: the objects in the blocks \<open>D\<close> are gone, every other block is as it was.\<close>

definition cleared :: "pmb_handle \<Rightarrow> u64 set \<Rightarrow> pmb_handle \<Rightarrow> bool" where
  "cleared s D s' \<longleftrightarrow> conf_eq s s' \<and> op_log s' = op_log s \<and>
     (\<forall>i. block_ok (bck s) i \<longrightarrow> i \<notin> D \<longrightarrow> same_on (blk_ptr s i) (block_len (bck s) i) (mem s') (mem s)) \<and>
     (\<forall>i\<in>D. \<not> present s' i \<and> clear_ok s' i)"

lemma cleared_bck: "cleared s D s' \<Longrightarrow> bck s' = bck s"
  by (simp add: cleared_def conf_eq_def)

lemma cleared_refl: "cleared s {} s"
  by (simp add: cleared_def)

lemma clear_ok_same:
  assumes "bck s' = bck s" and "same_on (blk_ptr s i) (block_len (bck s) i) (mem s') (mem s)" and "block_ok (bck s) i"
  shows "clear_ok s' i = clear_ok s i" and "present s' i = present s i"
  using hdr_same_block [OF assms(3,2)] by (simp_all add: clear_ok_def fits_def obj_len_def present_def assms(1))

lemma cleared_trans:
  assumes a: "cleared s D s1" and b: "cleared s1 E s2"
  shows "cleared s (D \<union> E) s2"
proof -
  have c: "bck s1 = bck s" "bck s2 = bck s"
    using a b by (simp_all add: cleared_bck)
  have "\<not> present s2 i \<and> clear_ok s2 i" if "i \<in> D" "i \<notin> E" for i
  proof -
    have i: "\<not> present s1 i" "clear_ok s1 i" "block_ok (bck s1) i"
      using a that(1) by (auto simp: cleared_def clear_ok_def)
    then have "same_on (blk_ptr s1 i) (block_len (bck s1) i) (mem s2) (mem s1)"
      using b that(2) unfolding cleared_def by blast
    then show ?thesis
      using clear_ok_same [of s2 s1 i] i c by simp
  qed
  moreover have "same_on (blk_ptr s i) (block_len (bck s) i) (mem s2) (mem s)" if "block_ok (bck s) i" "i \<notin> D \<union> E" for i
  proof -
    have "same_on (blk_ptr s i) (block_len (bck s) i) (mem s1) (mem s)"
      using a that unfolding cleared_def by blast
    moreover have "same_on (blk_ptr s1 i) (block_len (bck s1) i) (mem s2) (mem s1)"
      using b that c unfolding cleared_def by auto
    ultimately show ?thesis
      unfolding c by (blast intro: same_on_trans)
  qed
  moreover have "conf_eq s s2" "op_log s2 = op_log s"
    using a b conf_eq_trans [of s s1 s2] by (simp_all add: cleared_def)
  ultimately show ?thesis
    using b unfolding cleared_def by blast
qed

lemma cleared_clear_block: "clear_ok s i \<Longrightarrow> cleared s {i} (clear_block i s)"
  using clear_block_other(1) [of s i] clear_block_keeps_ok [of s i i] clear_block_hdr(1) [of i s]
  by (auto simp: cleared_def present_def)

lemma cleared_all:
  assumes "\<forall>i\<in>set is. clear_ok s i"
  shows "cleared s (set is) (fold clear_block is s) \<and>
    (\<forall>t. slot_ok (bck s) t \<longrightarrow> same_on (backend_tx_direct (Some (bck s)) t) (slot_cap s) (mem (fold clear_block is s)) (mem s))"
  using assms
proof (induction "is" arbitrary: s)
  case Nil
  then show ?case
    by (simp add: cleared_refl)
next
  case (Cons i "is")
  have i: "clear_ok s i"
    using Cons.prems by simp
  have "\<forall>j\<in>set is. clear_ok (clear_block i s) j"
    using Cons.prems clear_block_keeps_ok [OF i] by simp
  note IH = Cons.IH [OF this]
  have "cleared s ({i} \<union> set is) (fold clear_block is (clear_block i s))"
    using cleared_trans [OF cleared_clear_block [OF i]] IH by blast
  moreover have "same_on (backend_tx_direct (Some (bck s)) t) (slot_cap s) (mem (fold clear_block is (clear_block i s))) (mem s)"
    if "slot_ok (bck s) t" for t
  proof (rule same_on_trans)
    show "same_on (backend_tx_direct (Some (bck s)) t) (slot_cap s) (mem (fold clear_block is (clear_block i s))) (mem (clear_block i s))"
      using IH that by simp
  qed (rule clear_block_other(2) [OF i that])
  ultimately show ?case
    by simp
qed

lemma fold_clear_lists [simp]:
  "free_list (fold clear_block is s) = free_list s" "meta_free_list (fold clear_block is s) = meta_free_list s"
  by (induction "is" arbitrary: s) simp_all

section \<open>The records of one slot\<close>

text \<open>The blocks that settling a record clears.\<close>

fun settled :: "bool \<Rightarrow> log_rec \<Rightarrow> u64 list" where
  "settled commit (LWrite i) = (if commit then [] else [i])"
| "settled commit (LRemove i) = (if commit then [i] else [])"
| "settled commit (LUpdate old new) = [if commit then old else new]"
| "settled commit r = []"

fun rec_valid :: "log_rec \<Rightarrow> bool" where
  "rec_valid (LWrite i) \<longleftrightarrow> i \<noteq> 0"
| "rec_valid (LRemove i) \<longleftrightarrow> i \<noteq> 0"
| "rec_valid (LUpdate old new) \<longleftrightarrow> old \<noteq> 0"
| "rec_valid r \<longleftrightarrow> False"

definition settle_ids :: "bool \<Rightarrow> log_rec list \<Rightarrow> u64 list" where
  "settle_ids commit rs = concat (map (settled commit) rs)"

lemma settle_ids_simps [simp]:
  "settle_ids c [] = []" "settle_ids c (r # rs) = settled c r @ settle_ids c rs"
  by (simp_all add: settle_ids_def)

lemma check_entry:
  assumes "rec_at (mem s) pos = r" and "rec_valid r" and "\<forall>i\<in>set (settled c r). clear_ok s i"
  shows "tx_check_entry c t p (entry_at (mem s) pos) s = Inr (fold clear_block (settled c r) s)"
    and "\<not> (e_blk_id1 (entry_at (mem s) pos) = 0 \<and> e_blk_id2 (entry_at (mem s) pos) = 0)"
  using assms
  by (auto simp: rec_at_def tx_check_entry_def Let_def clear_ok_def set_zero_clear split: option.splits tx_op.splits)

lemma tx_check_loop_recs:
  assumes "log_ok (mem s) pos (slot + unat (s_size (slot_at (mem s) slot))) rs" and "\<forall>r\<in>set rs. rec_valid r"
    and "\<forall>i\<in>set (settle_ids c rs). clear_ok s i"
    and "slot_ok (bck s) k" and "slot = backend_tx_direct (Some (bck s)) k" and "slot + 24 \<le> pos"
    and "unat (s_size (slot_at (mem s) slot)) \<le> slot_cap s"
  shows "tx_check_loop c t slot pos s = Inr (fold clear_block (settle_ids c rs) s)"
  using assms
proof (induction rs arbitrary: pos s)
  case Nil
  have "ptr_add slot (s_size (slot_at (mem s) slot)) = slot + unat (s_size (slot_at (mem s) slot))"
    using bs.slot_bound [OF Nil.prems(4)] Nil.prems(5,7) by (intro ptr_add_no_wrap) simp
  then show ?case
    using Nil by (simp add: tx_check_loop.simps)
next
  case (Cons r rs)
  let ?e = "slot + unat (s_size (slot_at (mem s) slot))" and ?s = "fold clear_block (settled c r) s"
  have end_ptr: "ptr_add slot (s_size (slot_at (mem s) slot)) = ?e"
    using bs.slot_bound [OF Cons.prems(4)] Cons.prems(5,7) by (intro ptr_add_no_wrap) simp
  have r: "rec_at (mem s) pos = r" "rec_valid r" "\<forall>i\<in>set (settled c r). clear_ok s i"
    using Cons.prems(1-3) by auto
  have sz: "rec_size r = 24"
    using r(2) by (cases r) auto
  have le: "pos + 24 \<le> ?e"
    using Cons.prems(1) log_ok_le sz by fastforce
  have cl: "cleared s (set (settled c r)) ?s" and slots: "same_on slot (slot_cap s) (mem ?s) (mem s)"
    using cleared_all [OF r(3)] Cons.prems(4,5) by blast+
  have b: "bck ?s = bck s"
    using cl by (rule cleared_bck)
  have "same_on slot 24 (mem ?s) (mem s)"
    using slots by (rule same_on_sub) (use bs.slot_extent_header [OF Cons.prems(4)] in auto)
  then have hd: "slot_at (mem ?s) slot = slot_at (mem s) slot"
    by (rule slot_at_cong)
  have "same_on (pos + 24) (?e - (pos + 24)) (mem s) (mem ?s)"
    by (rule same_on_sym, rule same_on_sub [OF slots]) (use Cons.prems(6,7) le in auto)
  then have "log_ok (mem ?s) (pos + 24) ?e rs"
    using Cons.prems(1) sz by (auto intro: log_ok_cong)
  moreover have "clear_ok ?s i" if "i \<in> set (settle_ids c rs)" for i
  proof (cases "i \<in> set (settled c r)")
    case True
    then show ?thesis
      using cl by (simp add: cleared_def)
  next
    case False
    have i: "clear_ok s i" "block_ok (bck s) i"
      using Cons.prems(3) that by (auto simp: clear_ok_def)
    then have "same_on (blk_ptr s i) (block_len (bck s) i) (mem ?s) (mem s)"
      using cl False unfolding cleared_def by blast
    then show ?thesis
      using clear_ok_same(1) [OF b] i by blast
  qed
  ultimately have "tx_check_loop c t slot (pos + 24) ?s = Inr (fold clear_block (settle_ids c rs) ?s)"
    using Cons.prems hd b by (intro Cons.IH) auto
  then show ?case
    using check_entry [OF r] le end_ptr by (subst tx_check_loop.simps) (auto simp: sizeof_tx_entry_def Let_def)
qed

section \<open>One slot\<close>

text \<open>
  Whether \<open>tx_log_check\<close> takes the slot as committed. It verifies the checksum over the
  header of the slot and as many bytes again as the slot holds, which is not the range
  that \<open>tx_slot_commit\<close> sealed.
\<close>

definition committed :: "(u8 list \<Rightarrow> u64) \<Rightarrow> pmb_handle \<Rightarrow> u8 \<Rightarrow> bool" where
  "committed ck s t \<longleftrightarrow> (let p = backend_tx_direct (Some (bck s)) t
     in s_status (slot_at (mem s) p) = status_code COMMITED \<and>
        ld_u64 (mem s) p = ck (range_without (mem s) p (24 + unat (s_size (slot_at (mem s) p))) p))"

text \<open>\<open>slot_ready ck s t rs\<close>: slot \<open>t\<close> is in use with the records \<open>rs\<close>, none of them in place.\<close>

definition slot_ready :: "(u8 list \<Rightarrow> u64) \<Rightarrow> pmb_handle \<Rightarrow> u8 \<Rightarrow> log_rec list \<Rightarrow> bool" where
  "slot_ready ck s t rs \<longleftrightarrow> slot_ok (bck s) t \<and>
     (\<exists>st. st \<noteq> EMPTY \<and> slot_holds (mem s) (backend_tx_direct (Some (bck s)) t) (slot_cap s) st rs) \<and>
     unat (s_size (slot_at (mem s) (backend_tx_direct (Some (bck s)) t))) + 24 < 2 ^ 64 \<and>
     (s_status (slot_at (mem s) (backend_tx_direct (Some (bck s)) t)) = status_code COMMITED \<longrightarrow>
       unat (s_size (slot_at (mem s) (backend_tx_direct (Some (bck s)) t))) + 24 \<le> slot_cap s) \<and>
     (\<forall>r\<in>set rs. rec_valid r) \<and> (\<forall>i\<in>set (settle_ids (committed ck s t) rs). clear_ok s i)"

lemma check_slot_settles:
  assumes ck: "checksum_spec uc ck" and ready: "slot_ready ck s t rs"
  shows "\<exists>s'. tx_check_slot uc t s = Inr s' \<and> cleared s (set (settle_ids (committed ck s t) rs)) s' \<and>
    slots_kept s {t} s' \<and> s_status (slot_at (mem s') (backend_tx_direct (Some (bck s)) t)) = status_code EMPTY \<and>
    free_list s' = free_list s \<and> meta_free_list s' = meta_free_list s"
proof -
  let ?p = "backend_tx_direct (Some (bck s)) t" and ?c = "committed ck s t"
  let ?is = "settle_ids ?c rs"
  obtain st where slot: "slot_ok (bck s) t" and st: "st \<noteq> EMPTY" and sh: "slot_holds (mem s) ?p (slot_cap s) st rs"
      and cap: "unat (s_size (slot_at (mem s) ?p)) + 24 < 2 ^ 64"
      and rs: "\<forall>r\<in>set rs. rec_valid r" and ok: "\<forall>i\<in>set ?is. clear_ok s i"
    using ready by (auto simp: slot_ready_def)
  note p = bs.slot_not_null [OF slot] bs.slot_extent_header [OF slot] bs.slot_bound [OF slot]
  have st': "s_status (slot_at (mem s) ?p) \<noteq> status_code EMPTY"
    using sh st by (cases st) (auto simp: slot_holds_def)
  have "unat (24 + s_size (slot_at (mem s) ?p)) = 24 + unat (s_size (slot_at (mem s) ?p))"
    using cap by (subst unat_add_no_wrap) simp_all
  then have com: "(fst (uc (mem s) ?p (unat (of_nat sizeof_tx_slot + s_size (slot_at (mem s) ?p))) ?p False) \<and>
      s_status (slot_at (mem s) ?p) = status_code COMMITED) = ?c"
    by (auto simp: checksum_verify [OF ck] committed_def Let_def sizeof_tx_slot_def)
  define s2 where "s2 = fold clear_block ?is s"
  have cl: "cleared s (set ?is) s2" and kept: "slots_kept s {} s2"
    using cleared_all [OF ok] by (simp_all add: s2_def slots_kept_def)
  have loop: "tx_check_loop ?c t ?p (?p + sizeof_tx_slot) s = Inr s2"
    unfolding s2_def using sh rs ok slot
    by (intro tx_check_loop_recs [of _ _ _ _ _ t]) (auto simp: slot_holds_def sizeof_tx_slot_def)
  have b2: "bck s2 = bck s"
    using cl by (rule cleared_bck)
  let ?m3 = "set_slot_size (set_slot_status (mem s2) ?p EMPTY) ?p 0"
  obtain l' c' where cs: "tx_slot_checksum uc ?p t (s2\<lparr>mem := ?m3\<rparr>) = s2\<lparr>mem := set_slot_flch64 ?m3 ?p c', plog := l'\<rparr>"
    using tx_slot_checksum_mem [OF ck, of ?p t "s2\<lparr>mem := ?m3\<rparr>"] by auto
  let ?s3 = "s2\<lparr>mem := set_slot_flch64 ?m3 ?p c', plog := l'\<rparr>"
  obtain l'' where z: "snd (backend_tx_set_zero (Some (bck s)) ?p ?s3) =
      ?s3\<lparr>mem := memset (set_slot_flch64 ?m3 ?p c') ?p 0 12, plog := l''\<rparr>"
    using backend_tx_set_zero_mem [OF p(1), of "bck s" ?s3] by auto
  let ?s' = "?s3\<lparr>mem := memset (set_slot_flch64 ?m3 ?p c') ?p 0 12, plog := l''\<rparr>"
  have m: "s\<lparr>mem := mem s\<rparr> = s"
    by simp
  have "tx_check_slot uc t s = Inr ?s'"
    unfolding tx_check_slot_def Let_def checksum_verify [OF ck] snd_conv m
      com [unfolded checksum_verify [OF ck]] loop bindR_simps cs
    using p(1) st' z b2 by simp
  moreover have o: "only ?p (slot_cap s) (mem s2) (mem ?s')"
    using p(2) by (simp add: slot_defs only_after)
  moreover have "cleared s (set ?is) ?s'"
  proof -
    have same: "same_on (blk_ptr s2 i) (block_len (bck s2) i) (mem ?s') (mem s2)" if "block_ok (bck s2) i" for i
      using bs.block_same [OF slot, of i] only_apart [OF o] that unfolding b2 by blast
    have "cleared s2 {} ?s'"
      using same by (simp add: cleared_def conf_eq_def)
    from cleared_trans [OF cl this] show ?thesis
      by simp
  qed
  moreover have "slots_kept s {t} ?s'"
    unfolding slots_kept_def
  proof (intro allI impI)
    fix u
    assume u: "slot_ok (bck s) u" "u \<notin> {t}"
    have "same_on (backend_tx_direct (Some (bck s)) u) (slot_cap s) (mem ?s') (mem s2)"
      using bs.other_slot_same [OF slot u(1)] u(2) only_apart [OF o] by blast
    moreover have "same_on (backend_tx_direct (Some (bck s)) u) (slot_cap s) (mem s2) (mem s)"
      using kept u(1) by (simp add: slots_kept_def)
    ultimately show "same_on (backend_tx_direct (Some (bck s)) u) (slot_cap s) (mem ?s') (mem s)"
      by (rule same_on_trans)
  qed
  moreover have "free_list s2 = free_list s" "meta_free_list s2 = meta_free_list s"
    by (simp_all add: s2_def fold_clear_lists)
  ultimately show ?thesis
    using slot_zeroed [of "set_slot_flch64 ?m3 ?p c'" ?p] by (intro exI [of _ ?s']) simp
qed

section \<open>The whole log\<close>

text \<open>
  \<open>log_ready ck s L\<close>: every slot but the first is empty or in use with the records that \<open>L\<close>
  gives. \<open>log_clears\<close> are the blocks that settling a slot clears.
\<close>

abbreviation slot_empty :: "pmb_handle \<Rightarrow> u8 \<Rightarrow> bool" where
  "slot_empty s t \<equiv> s_status (slot_at (mem s) (backend_tx_direct (Some (bck s)) t)) = status_code EMPTY"

definition log_ready :: "(u8 list \<Rightarrow> u64) \<Rightarrow> pmb_handle \<Rightarrow> (u8 \<Rightarrow> log_rec list) \<Rightarrow> bool" where
  "log_ready ck s L \<longleftrightarrow> layout_ok (bck s) \<and> tx_slots_count (op_log s) = b_tx_slots_count (bck s) \<and>
     0 < b_tx_slots_count (bck s) \<and> b_tx_slots_count (bck s) \<noteq> - 1 \<and>
     (\<forall>t. 0 < t \<and> t < b_tx_slots_count (bck s) \<longrightarrow> slot_empty s t \<or> slot_ready ck s t (L t))"

definition log_clears :: "(u8 list \<Rightarrow> u64) \<Rightarrow> pmb_handle \<Rightarrow> (u8 \<Rightarrow> log_rec list) \<Rightarrow> u8 \<Rightarrow> u64 set" where
  "log_clears ck s L t = (if slot_empty s t then {} else set (settle_ids (committed ck s t) (L t)))"

text \<open>The state when the loop comes to slot \<open>t\<close>.\<close>

definition checked_to :: "(u8 list \<Rightarrow> u64) \<Rightarrow> pmb_handle \<Rightarrow> (u8 \<Rightarrow> log_rec list) \<Rightarrow> u8 \<Rightarrow> pmb_handle \<Rightarrow> bool" where
  "checked_to ck s L t s' \<longleftrightarrow> cleared s (\<Union>u\<in>{1..<t}. log_clears ck s L u) s' \<and> slots_kept s {1..<t} s' \<and>
     (\<forall>u\<in>{1..<t}. slot_empty s' u) \<and> free_list s' = free_list s \<and> meta_free_list s' = meta_free_list s"

lemma slot_unchanged:
  assumes slot: "slot_ok (bck s) t" and b: "bck s' = bck s"
    and same: "same_on (backend_tx_direct (Some (bck s)) t) (slot_cap s) (mem s') (mem s)"
  shows "slot_at (mem s') (backend_tx_direct (Some (bck s)) t) = slot_at (mem s) (backend_tx_direct (Some (bck s)) t)"
    and "slot_ready ck s t rs \<Longrightarrow> committed ck s' t = committed ck s t"
    and "slot_ready ck s t rs \<Longrightarrow> cleared s D s' \<Longrightarrow> slot_ready ck s' t rs"
proof -
  let ?p = "backend_tx_direct (Some (bck s)) t"
  note hd = bs.slot_extent_header [OF slot]
  have same24: "same_on ?p 24 (mem s') (mem s)" and same8: "same_on ?p 8 (mem s') (mem s)"
    using hd by (auto intro: same_on_sub [OF same])
  show at: "slot_at (mem s') ?p = slot_at (mem s) ?p"
    using same24 by (rule slot_at_cong)
  show com: "committed ck s' t = committed ck s t" if r: "slot_ready ck s t rs"
  proof -
    let ?n = "24 + unat (s_size (slot_at (mem s) ?p))"
    have "range_without (mem s') ?p ?n ?p = range_without (mem s) ?p ?n ?p"
      if "s_status (slot_at (mem s) ?p) = status_code COMMITED"
    proof (rule range_without_cong)
      show "same_on ?p ?n (mem s') (mem s)"
        using r that by (intro same_on_sub [OF same]) (auto simp: slot_ready_def)
    qed
    moreover have "ld_u64 (mem s') ?p = ld_u64 (mem s) ?p"
      using ld_bytes_cong [OF same8] by (simp add: ld_u64_def)
    ultimately show ?thesis
      by (auto simp: committed_def b at Let_def)
  qed
  show "slot_ready ck s' t rs" if r: "slot_ready ck s t rs" and cl: "cleared s D s'"
  proof -
    have "clear_ok s' i" if "i \<in> set (settle_ids (committed ck s t) rs)" for i
    proof (cases "i \<in> D")
      case True
      then show ?thesis
        using cl by (simp add: cleared_def)
    next
      case False
      have i: "clear_ok s i" "block_ok (bck s) i"
        using r that by (auto simp: slot_ready_def clear_ok_def)
      then have "same_on (blk_ptr s i) (block_len (bck s) i) (mem s') (mem s)"
        using cl False unfolding cleared_def by blast
      then show ?thesis
        using clear_ok_same(1) [OF b] i by blast
    qed
    moreover obtain st where "st \<noteq> EMPTY" "slot_holds (mem s) ?p (slot_cap s) st rs"
      using r by (auto simp: slot_ready_def)
    then have "\<exists>st. st \<noteq> EMPTY \<and> slot_holds (mem s') ?p (slot_cap s) st rs"
      using slot_holds_cong same same_on_sym by blast
    ultimately show ?thesis
      using r com [OF r] unfolding slot_ready_def b at by auto
  qed
qed

lemma checked_step:
  assumes ck: "checksum_spec uc ck" and ready: "log_ready ck s L" and I: "checked_to ck s L t s'"
    and t: "0 < t" "t < b_tx_slots_count (bck s)"
  shows "\<exists>s''. tx_check_slot uc t s' = Inr s'' \<and> checked_to ck s L (t + 1) s''"
proof -
  let ?p = "backend_tx_direct (Some (bck s)) t" and ?D = "\<Union>u\<in>{1..<t}. log_clears ck s L u"
  have slot: "slot_ok (bck s) t"
    using ready t(2) by (simp add: slot_ok_def log_ready_def)
  have cl: "cleared s ?D s'" and kept: "slots_kept s {1..<t} s'" and emp: "\<forall>u\<in>{1..<t}. slot_empty s' u"
      and fl: "free_list s' = free_list s" "meta_free_list s' = meta_free_list s"
    using I unfolding checked_to_def by blast+
  have b: "bck s' = bck s"
    using cl by (rule cleared_bck)
  have same: "same_on ?p (slot_cap s) (mem s') (mem s)"
    using kept slot by (simp add: slots_kept_def)
  note un = slot_unchanged [OF slot b same]
  have "t \<noteq> - 1"
    using t(2) word_order.extremum_strict by blast
  then have "unat (t + 1) = Suc (unat t)"
    by (rule unat_Suc_8)
  then have ran: "{1..<t + 1} = insert t {1..<t}"
    using t(1) by (auto simp: word_nat Suc_le_eq less_Suc_eq dest: unat_eqI)
  show ?thesis
  proof (cases "slot_empty s t")
    case True
    then have "tx_check_slot uc t s' = Inr s'"
      unfolding tx_check_slot_def Let_def b un(1) by simp
    moreover have "checked_to ck s L (t + 1) s'"
      using cl kept emp fl True un(1) unfolding checked_to_def ran by (auto simp: log_clears_def slots_kept_def b)
    ultimately show ?thesis
      by blast
  next
    case False
    then have r: "slot_ready ck s t (L t)"
      using ready t by (auto simp: log_ready_def)
    obtain s'' where s'': "tx_check_slot uc t s' = Inr s''" "cleared s' (set (settle_ids (committed ck s' t) (L t))) s''"
        "slots_kept s' {t} s''" "s_status (slot_at (mem s'') (backend_tx_direct (Some (bck s')) t)) = status_code EMPTY"
        "free_list s'' = free_list s'" "meta_free_list s'' = meta_free_list s'"
      using check_slot_settles [OF ck un(3) [OF r cl]] by blast
    have D: "set (settle_ids (committed ck s' t) (L t)) = log_clears ck s L t"
      using False by (simp add: un(2) [OF r] log_clears_def)
    have b2: "bck s'' = bck s"
      using cleared_bck [OF s''(2)] b by simp
    have "cleared s (?D \<union> log_clears ck s L t) s''"
      using cleared_trans [OF cl s''(2)] unfolding D .
    then have c1: "cleared s (\<Union>u\<in>{1..<t + 1}. log_clears ck s L u) s''"
      unfolding ran by (simp add: Un_commute)
    have k2: "same_on (backend_tx_direct (Some (bck s)) u) (slot_cap s) (mem s'') (mem s')" if "slot_ok (bck s) u" "u \<noteq> t" for u
      using s''(3) that unfolding slots_kept_def b by blast
    then have c2: "slots_kept s {1..<t + 1} s''"
      using kept unfolding slots_kept_def ran by (blast intro: same_on_trans)
    have "slot_empty s'' u" if u: "u \<in> {1..<t}" for u
    proof -
      have su: "slot_ok (bck s) u"
        using u slot by (auto simp: slot_ok_def)
      have "u \<noteq> t"
        using u by auto
      then have "same_on (backend_tx_direct (Some (bck s)) u) 24 (mem s'') (mem s')"
        using bs.slot_extent_header [OF su] by (intro same_on_sub [OF k2 [OF su]]) auto
      then show ?thesis
        using emp u slot_at_cong unfolding b b2 by metis
    qed
    moreover have "slot_empty s'' t"
      using s''(4) unfolding b b2 .
    ultimately show ?thesis
      using s''(1,5,6) c1 c2 fl unfolding checked_to_def ran by auto
  qed
qed

lemma checked_loop:
  assumes ck: "checksum_spec uc ck" and ready: "log_ready ck s L"
  shows "checked_to ck s L t s' \<Longrightarrow> 0 < t \<Longrightarrow> t \<le> b_tx_slots_count (bck s) \<Longrightarrow>
    \<exists>s''. tx_log_check_loop uc t s' = Some (Inr s'') \<and> checked_to ck s L (b_tx_slots_count (bck s)) s''"
proof (induction "unat (b_tx_slots_count (bck s)) - unat t" arbitrary: t s' rule: less_induct)
  case less
  let ?n = "b_tx_slots_count (bck s)"
  have n: "?n \<noteq> - 1" "tx_slots_count (op_log s) = ?n"
    using ready by (simp_all add: log_ready_def)
  have c: "bck s' = bck s" "tx_slots_count (op_log s') = ?n"
    using less.prems(1) n(2) by (simp_all add: checked_to_def cleared_def conf_eq_def)
  show ?case
  proof (cases "t = ?n")
    case True
    then have "tx_check_slot uc t s' = Inr s'"
      by (simp add: tx_check_slot_def backend_tx_direct_def c(1) Let_def)
    moreover have "\<not> t + 1 \<le> ?n"
      using True unat_Suc_8 [OF n(1)] by (simp add: word_nat)
    ultimately have "tx_log_check_loop uc t s' = Some (Inr s')"
      using True c(2) by (subst tx_log_check_loop.simps, simp) (subst tx_log_check_loop.simps, simp)
    then show ?thesis
      using less.prems(1) True by blast
  next
    case False
    then have lt: "t < ?n"
      using less.prems(3) by simp
    obtain s1 where s1: "tx_check_slot uc t s' = Inr s1" "checked_to ck s L (t + 1) s1"
      using checked_step [OF ck ready less.prems(1,2) lt] by blast
    have "t \<noteq> - 1"
      using lt word_order.extremum_strict by blast
    then have u: "unat (t + 1) = Suc (unat t)"
      by (rule unat_Suc_8)
    then have "unat ?n - unat (t + 1) < unat ?n - unat t" "0 < t + 1" "t + 1 \<le> ?n"
      using lt by (simp_all add: word_nat)
    then obtain s2 where "tx_log_check_loop uc (t + 1) s1 = Some (Inr s2)" "checked_to ck s L ?n s2"
      using less.hyps [OF _ s1(2)] by blast
    then show ?thesis
      using s1(1) less.prems(3) c(2) by (subst tx_log_check_loop.simps) auto
  qed
qed

lemma log_check_settles:
  assumes ck: "checksum_spec uc ck" and ready: "log_ready ck s L"
  shows "\<exists>s'. tx_log_check uc s = Some (Inr s') \<and> checked_to ck s L (b_tx_slots_count (bck s)) s'"
proof -
  have "checked_to ck s L 1 s"
    by (simp add: checked_to_def cleared_refl slots_kept_def)
  moreover have "1 \<le> b_tx_slots_count (bck s)"
    using ready by (simp add: log_ready_def word_nat Suc_le_eq)
  ultimately show ?thesis
    using checked_loop [OF ck ready] by (simp add: tx_log_check_def)
qed

lemma cleared_store:
  assumes "cleared s D s'" and "store_ok s"
  shows "store s' = store s |` (- D)" and "store_ok s'"
proof -
  have c: "conf_same s s'" "bck s' = bck s"
    using assms(1) by (simp_all add: cleared_def conf_same_eq cleared_bck [OF assms(1)])
  have same: "same_on (blk_ptr s i) (block_len (bck s) i) (mem s') (mem s)" if "block_ok (bck s) i" "i \<notin> D" for i
    using assms(1) that unfolding cleared_def by blast
  have gone: "\<not> present s' i" if "i \<in> D" for i
    using assms(1) that by (simp add: cleared_def)
  show "store s' = store s |` (- D)"
  proof
    fix i
    show "store s' i = (store s |` (- D)) i"
      using gone [of i] store_same [OF c(1) assms(2) same [of i]] by (cases "i \<in> D") (simp_all add: store_def)
  qed
  show "store_ok s'"
    unfolding store_ok_def
  proof (intro allI impI)
    fix i
    assume i: "block_ok (bck s') i \<and> present s' i"
    then have "i \<notin> D"
      using gone by blast
    then show "in_block s' i"
      using i block_same_obj(2,3) [OF c(1) _ same [of i]] assms(2) by (simp add: c(2) store_ok_def)
  qed
qed

lemma tx_log_check_stuck:
  assumes "tx_slots_count (op_log s) = 255" and "\<forall>t. slot_ok (bck s) t \<longrightarrow> slot_empty s t" and "layout_ok (bck s)"
  shows "tx_log_check uc s = None"
proof -
  have "tx_check_slot uc t s = Inr s" for t
  proof (cases "slot_ok (bck s) t")
    case True
    then show ?thesis
      using assms(2) unfolding tx_check_slot_def Let_def by simp
  next
    case False
    then show ?thesis
      using assms(3) by (simp add: tx_check_slot_def backend_tx_direct_def slot_ok_def Let_def)
  qed
  then show ?thesis
    using tx_log_check_loop_stuck [of uc s 1] assms(1) by (simp add: tx_log_check_def)
qed

section \<open>Properties\<close>

definition full_log_store :: pmb_handle where
  "full_log_store = sample_store\<lparr>bck := sample_backend\<lparr>b_tx_log := 0x10082000, b_tx_slots_count := 255,
       b_tx_slot_size := 0x80000\<rparr>,
     op_log := (op_log sample_store)\<lparr>tx_slots_count := 255\<rparr>\<rparr>"

definition sample_heap :: open_heap where
  "sample_heap = \<lparr>oh_handle_ok = True, oh_list_ok = \<lambda>_. True,
     oh_log = \<lparr>lh_list_ok = True, lh_array_ok = True, lh_metas = \<lambda>_. replicate 128 zero_meta\<rparr>\<rparr>"

text \<open>
  C37: \<open>tx_log_check\<close> returns, whatever the log and the pool hold, unless the log has 255 slots: the
  counter of its outer loop is a \<open>uint8_t\<close> that runs up to the number of slots. With 255 slots that
  are all empty it never returns, and neither does the opening of the store.
\<close>

theorem tx_log_check_returns:
  "(tx_slots_count (op_log s) \<noteq> 255 \<longrightarrow> (\<exists>r. tx_log_check uc s = Some r)) \<and>
   (tx_slots_count (op_log s) = 255 \<and> layout_ok (bck s) \<and> (\<forall>t. slot_ok (bck s) t \<longrightarrow> slot_empty s t) \<longrightarrow>
     tx_log_check uc s = None \<and> open_existing uc hp sched s = None)"
proof -
  have "(- 1 :: u8) = 255"
    by simp
  then have "\<exists>r. tx_log_check uc s = Some r" if "tx_slots_count (op_log s) \<noteq> 255"
    using tx_log_check_loop_returns [of s uc 1] that unfolding tx_log_check_def by metis
  then show ?thesis
    using tx_log_check_stuck [of s uc] by (simp add: open_existing_def)
qed

theorem tx_log_check_returns_witness:
  "(\<exists>r. tx_log_check sample_uc sample_tx = Some r) \<and> tx_log_check sample_uc full_log_store = None \<and>
   open_existing sample_uc sample_heap [] full_log_store = None"
proof -
  have "tx_slots_count (op_log sample_tx) \<noteq> 255"
    by (simp add: sample_store_def)
  moreover have "tx_slots_count (op_log full_log_store) = 255" "layout_ok (bck full_log_store)"
      "\<forall>t. slot_ok (bck full_log_store) t \<longrightarrow> slot_empty full_log_store t"
    using sample_layout
    by (simp_all add: full_log_store_def sample_store_def slot_at_def layout_ok_def pool_end_def sample_backend_fields)
  ultimately show ?thesis
    using tx_log_check_returns [of sample_tx sample_uc] tx_log_check_returns [of full_log_store sample_uc sample_heap "[]"] by blast
qed

text \<open>
  C10: the log is settled. For a log whose slots, but the first, are empty or hold a transaction
  without in-place updates, \<open>tx_log_check\<close> returns; seen as a map, the store loses
  exactly the objects written by the transactions it takes as interrupted and the objects
  removed or replaced by those it takes as committed; those slots become empty, and the
  first slot keeps all its bytes: the transaction in it is not settled.
\<close>

theorem tx_log_check_settles:
  assumes "checksum_spec uc ck" and "log_ready ck s L" and "store_ok s"
  shows "\<exists>s'. tx_log_check uc s = Some (Inr s') \<and>
    store s' = store s |` (- (\<Union>t\<in>{1..<b_tx_slots_count (bck s)}. log_clears ck s L t)) \<and> store_ok s' \<and>
    (\<forall>t\<in>{1..<b_tx_slots_count (bck s)}. slot_empty s' t) \<and>
    same_on (backend_tx_direct (Some (bck s)) 0) (slot_cap s) (mem s') (mem s)"
proof -
  obtain s' where s': "tx_log_check uc s = Some (Inr s')" "checked_to ck s L (b_tx_slots_count (bck s)) s'"
    using log_check_settles [OF assms(1,2)] by blast
  have "slot_ok (bck s) 0"
    using assms(2) by (simp add: slot_ok_def log_ready_def)
  then have "same_on (backend_tx_direct (Some (bck s)) 0) (slot_cap s) (mem s') (mem s)"
    using s'(2) by (simp add: checked_to_def slots_kept_def)
  then show ?thesis
    using s' cleared_store [OF _ assms(3)] unfolding checked_to_def by blast
qed

text \<open>A store with a transaction in its second slot that wrote block 5.\<close>

definition sample_log_mem :: "tx_status \<Rightarrow> memory" where
  "sample_log_mem st =
     (let m = \<lambda>_. 0;
          m = set_val_len (set_key_len (set_flch64 m 0x18007000 77) 0x18007000 3) 0x18007000 8;
          m = set_slot_size (set_slot_status m 0x10802000 st) 0x10802000 48
      in set_entry_blk_id1 (set_entry_type m 0x10802018 WRITE) 0x10802018 5)"

abbreviation sample_log :: "tx_status \<Rightarrow> pmb_handle" where
  "sample_log st \<equiv> sample_store\<lparr>mem := sample_log_mem st\<rparr>"

lemma sample_log_facts:
  "rec_at (sample_log_mem st) 0x10802018 = LWrite 5"
  "slot_at (sample_log_mem st) 0x10802000 = \<lparr>s_flch64 = 0, s_status = status_code st, s_size = 48\<rparr>"
  "h_flch64 (hdr_at (sample_log_mem st) 0x18007000) = 77"
  "h_key_len (hdr_at (sample_log_mem st) 0x18007000) = 3" "h_val_len (hdr_at (sample_log_mem st) 0x18007000) = 8"
  by (simp_all add: rec_at_def sample_log_mem_def entry_defs hdr_defs slot_defs op_of_code_def Let_def)

lemma sample_slot_ptr: "t < 16 \<Longrightarrow> backend_tx_direct (Some sample_backend) t = 0x10002000 + unat t * 0x800000"
  using backend_tx_direct_slot(1) [OF sample_layout, of t] by (simp add: sample_backend_fields)

lemma sample_log_rest:
  assumes "apart 0x18007000 4096 p n" and "apart 0x10802000 0x800000 p n"
  shows "same_on p n (sample_log_mem st) (\<lambda>_. 0)"
proof -
  define m0 :: memory where "m0 = (\<lambda>_. 0)"
  define m1 where "m1 = set_val_len (set_key_len (set_flch64 m0 0x18007000 77) 0x18007000 3) 0x18007000 8"
  have "only 0x18007000 4096 m0 m1"
    by (simp add: m1_def hdr_defs only_after)
  moreover have "only 0x10802000 0x800000 m1 (sample_log_mem st)"
    unfolding sample_log_mem_def Let_def m0_def [symmetric] m1_def [symmetric]
    by (simp add: slot_defs entry_defs only_after)
  ultimately show ?thesis
    using assms unfolding m0_def by (meson only_apart same_on_trans)
qed

lemma sample_log_slot:
  "slot_ok sample_backend 1" "backend_tx_direct (Some sample_backend) 1 = 0x10802000"
  using sample_layout sample_slot_ptr [of 1] by (simp_all add: slot_ok_def sample_backend_fields)

lemma sample_log_clear: "clear_ok (sample_log st) 5"
  using sample_blocks sample_log_facts by (simp add: clear_ok_def fits_def obj_len_def)

lemma sample_log_ready: "log_ready ck (sample_log PROCESSING) (\<lambda>t. [LWrite 5])"
proof -
  let ?s = "sample_log PROCESSING"
  have c: "bck ?s = sample_backend" "tx_slots_count (op_log ?s) = 16" "mem ?s = sample_log_mem PROCESSING"
    by (simp_all add: sample_store_def)
  have other: "slot_empty ?s t" if t: "0 < t" "t < 16" "t \<noteq> 1" for t
  proof -
    let ?p = "backend_tx_direct (Some sample_backend) t"
    have sl: "slot_ok sample_backend t"
      using t sample_layout by (simp add: slot_ok_def sample_backend_fields)
    have "apart 0x10802000 0x800000 ?p 0x800000"
      using bs.slots_apart [OF sample_log_slot(1) sl] t(3) sample_log_slot(2) by (simp add: sample_backend_fields)
    moreover have "apart 0x18007000 4096 ?p 0x800000"
      using apart_sym [OF bs.slot_block_apart [OF sl, of 5]] sample_busy_block by (simp add: sample_backend_fields)
    ultimately have "same_on ?p 0x800000 (sample_log_mem PROCESSING) (\<lambda>_. 0)"
      by (intro sample_log_rest)
    then have "same_on ?p 24 (sample_log_mem PROCESSING) (\<lambda>_. 0)"
      by (rule same_on_sub) simp_all
    then have "slot_at (sample_log_mem PROCESSING) ?p = slot_at (\<lambda>_. 0) ?p"
      by (rule slot_at_cong)
    then show ?thesis
      unfolding c by (simp add: slot_at_def)
  qed
  have "slot_ready ck ?s 1 [LWrite 5]"
  proof -
    have "\<not> committed ck ?s 1"
      unfolding committed_def c sample_log_slot(2) by (simp add: sample_log_facts)
    moreover have "slot_holds (sample_log_mem PROCESSING) 0x10802000 0x800000 PROCESSING [LWrite 5]"
      by (simp add: slot_holds_def sample_log_facts)
    ultimately show ?thesis
      unfolding slot_ready_def c sample_log_slot(2)
      using sample_log_slot(1) sample_log_clear by (auto simp: sample_log_facts sample_backend_fields)
  qed
  then show ?thesis
    unfolding log_ready_def using sample_layout other [unfolded c] unfolding c sample_backend_fields by auto
qed

lemma sample_log_store_ok: "store_ok (sample_log st)"
  unfolding store_ok_def
proof (intro allI impI)
  fix i
  assume i: "block_ok (bck (sample_log st)) i \<and> present (sample_log st) i"
  have b: "bck (sample_log st) = sample_backend"
    by (simp add: sample_store_def)
  have "i = 5"
  proof (rule ccontr)
    assume n: "i \<noteq> 5"
    have bi: "block_ok sample_backend i"
      using i by (simp add: b)
    let ?p = "backend_direct (Some sample_backend) i"
    have "apart 0x18007000 4096 ?p (block_len sample_backend i)"
      using bs.blocks_apart [OF sample_busy_block(1) bi] n by (simp add: sample_busy_block)
    moreover have "apart 0x10802000 0x800000 ?p (block_len sample_backend i)"
      using bs.slot_block_apart [OF sample_log_slot(1) bi] by (simp add: sample_log_slot(2) sample_backend_fields)
    ultimately have "same_on ?p (block_len sample_backend i) (sample_log_mem st) (\<lambda>_. 0)"
      by (intro sample_log_rest)
    then have "same_on ?p 32 (sample_log_mem st) (\<lambda>_. 0)"
      by (rule same_on_sub) (use bs.extent_header [OF bi] in simp_all)
    then have "hdr_at (sample_log_mem st) ?p = hdr_at (\<lambda>_. 0) ?p"
      by (rule hdr_at_cong)
    then show False
      using i b by (simp add: present_def hdr_at_def)
  qed
  then show "in_block (sample_log st) i"
    using sample_blocks sample_log_facts by (simp add: in_block_def val_start_def) (simp add: sample_store_def)
qed

theorem tx_log_check_settles_witness:
  "\<exists>s'. tx_log_check sample_uc (sample_log PROCESSING) = Some (Inr s') \<and>
    store (sample_log PROCESSING) 5 \<noteq> None \<and> store s' 5 = None \<and> slot_empty s' 1"
proof -
  let ?s = "sample_log PROCESSING"
  have c: "bck ?s = sample_backend" "b_tx_slots_count sample_backend = 16" "(1 :: u8) \<in> {1..<16}"
    by (simp_all add: sample_store_def sample_backend_fields)
  have "5 \<in> log_clears sample_ck ?s (\<lambda>t. [LWrite 5]) 1"
    using sample_log_facts(2) [of PROCESSING] unfolding log_clears_def committed_def c(1) sample_log_slot(2) by simp
  moreover have "store ?s 5 \<noteq> None"
    using sample_blocks sample_log_facts by (simp add: store_def present_def)
  moreover obtain s' where "tx_log_check sample_uc ?s = Some (Inr s')"
      "store s' = store ?s |` (- (\<Union>t\<in>{1..<16}. log_clears sample_ck ?s (\<lambda>t. [LWrite 5]) t))"
      "\<forall>t\<in>{1..<16}. slot_empty s' t"
    using tx_log_check_settles [OF sample_checksum sample_log_ready sample_log_store_ok] unfolding c by (elim exE conjE)
  ultimately show ?thesis
    using c(3) by (intro exI [of _ s'] conjI) (auto simp: restrict_map_def)
qed

lemma slot_only_frame:
  assumes "slot_only s k s'"
  shows "bck s' = bck s" and "only (tx_slot_ptr s k) (slot_cap s) (mem s) (mem s')"
proof -
  have "s' = s\<lparr>mem := mem s', plog := plog s'\<rparr>"
    using assms unfolding slot_only_def by blast
  then show "bck s' = bck s"
    by (rule ssubst) simp
qed (use assms in \<open>simp add: slot_only_def\<close>)

text \<open>
  C38: a committed transaction can be undone. \<open>tx_slot_commit\<close> seals \<open>size\<close> bytes of the slot, but
  \<open>tx_log_check\<close> verifies 24 bytes more. Whenever the checksum of the longer range is a
  different one, the slot is not taken as committed, and the objects that the
  committed transaction wrote are cleared.
\<close>

theorem tx_log_check_undoes_commit:
  assumes ck: "checksum_spec uc ck" and h: "tx_holds s k PROCESSING rs" and room: "slot_size s k + 24 \<le> slot_cap s"
    and rs: "\<forall>r\<in>set rs. rec_valid r" and ok: "\<forall>i\<in>set (settle_ids False rs). clear_ok s i"
  shows "\<exists>s1. tx_slot_commit uc s k = (PMB_OK, s1) \<and> tx_holds s1 k COMMITED rs \<and>
    (ck (range_without (mem s1) (tx_slot_ptr s k) (24 + slot_size s1 k) (tx_slot_ptr s k)) \<noteq>
        ck (range_without (mem s1) (tx_slot_ptr s k) (slot_size s1 k) (tx_slot_ptr s k)) \<longrightarrow>
      (\<exists>s2. tx_check_slot uc (ucast (k - 1)) s1 = Inr s2 \<and> (\<forall>i\<in>set (settle_ids False rs). \<not> present s2 i)))"
proof -
  let ?p = "tx_slot_ptr s k" and ?t = "ucast (k - 1) :: u8"
  obtain s1 where s1: "tx_slot_commit uc s k = (PMB_OK, s1)" "tx_holds s1 k COMMITED rs" "slot_only s k s1"
      "slot_size s1 k = slot_size s k" "fst (uc (mem s1) ?p (slot_size s1 k) ?p False)"
    using tx_slot_commit_ok [OF ck h] by blast
  have b: "bck s1 = bck s" and o: "only ?p (slot_cap s) (mem s) (mem s1)"
    using slot_only_frame [OF s1(3)] by blast+
  have tk: "tx_ok s k" "tx_slot_ptr s1 k = ?p" "backend_tx_direct (Some (bck s)) ?t = ?p"
    using h by (simp_all add: tx_holds_def tx_slot_ptr_def b)
  have "\<exists>s2. tx_check_slot uc ?t s1 = Inr s2 \<and> (\<forall>i\<in>set (settle_ids False rs). \<not> present s2 i)"
    if ne: "ck (range_without (mem s1) ?p (24 + slot_size s1 k) ?p) \<noteq> ck (range_without (mem s1) ?p (slot_size s1 k) ?p)"
  proof -
    have "\<not> committed ck s1 ?t"
      using s1(5) ne by (simp add: committed_def b tk checksum_verify [OF ck])
    moreover have "clear_ok s1 i" if "i \<in> set (settle_ids False rs)" for i
    proof -
      have i: "clear_ok s i" "block_ok (bck s) i"
        using ok that by (auto simp: clear_ok_def)
      then show ?thesis
        using clear_ok_same(1) [OF b slot_change_blocks(1) [OF tk(1) o i(2)] i(2)] by simp
    qed
    moreover have "slot_size s k + 24 < 2 ^ 64"
      using room unat_lt_64 [of "b_tx_slot_size (bck s)"] by simp
    ultimately have "slot_ready ck s1 ?t rs"
      using s1(2,4) rs room tx_index(2) [OF tk(1)] unfolding slot_ready_def tx_holds_def b tk by auto
    from check_slot_settles [OF ck this] show ?thesis
      using \<open>\<not> committed ck s1 ?t\<close> unfolding cleared_def by auto
  qed
  then show ?thesis
    using s1(1,2) by blast
qed

text \<open>A checksum that tells ranges of different lengths apart.\<close>

definition len_ck :: "u8 list \<Rightarrow> u64" where
  "len_ck bs = of_nat (length bs) + 1"

definition len_uc :: checksum_fn where
  "len_uc m addr len csump insrt =
     (let c = len_ck (range_without m addr len csump)
      in if insrt then (True, st_u64 m csump c) else (ld_u64 m csump = c, m))"

theorem tx_log_check_undoes_commit_witness:
  "\<exists>s1 s2. tx_slot_commit len_uc (sample_log PROCESSING) 2 = (PMB_OK, s1) \<and> tx_holds s1 2 COMMITED [LWrite 5] \<and>
    tx_check_slot len_uc 1 s1 = Inr s2 \<and> \<not> present s2 5"
proof -
  let ?s = "sample_log PROCESSING"
  have ck: "checksum_spec len_uc len_ck"
    by (simp add: checksum_spec_def len_uc_def Let_def)
  have c: "bck ?s = sample_backend" "tx_slots_count (op_log ?s) = 16" "mem ?s = sample_log_mem PROCESSING" "(2 :: u64) - 1 = 1"
    by (simp_all add: sample_store_def)
  have p: "tx_slot_ptr ?s 2 = 0x10802000"
    using sample_log_slot(2) by (simp add: tx_slot_ptr_def c)
  have h: "tx_holds ?s 2 PROCESSING [LWrite 5]"
    using sample_layout unfolding tx_holds_def tx_ok_def p c
    by (simp add: sample_backend_fields slot_holds_def sample_log_facts)
  have room: "slot_size ?s 2 + 24 \<le> slot_cap ?s"
    unfolding p c by (simp add: sample_log_facts sample_backend_fields)
  have ne: "len_ck (range_without m q (24 + n) q) \<noteq> len_ck (range_without m q n q)" for m q n
    by (simp add: len_ck_def range_without_def)
  obtain s1 where s1: "tx_slot_commit len_uc ?s 2 = (PMB_OK, s1)" "tx_holds s1 2 COMMITED [LWrite 5]"
    "len_ck (range_without (mem s1) (tx_slot_ptr ?s 2) (24 + slot_size s1 2) (tx_slot_ptr ?s 2)) \<noteq>
        len_ck (range_without (mem s1) (tx_slot_ptr ?s 2) (slot_size s1 2) (tx_slot_ptr ?s 2)) \<Longrightarrow>
      \<exists>s2. tx_check_slot len_uc (ucast ((2 :: u64) - 1)) s1 = Inr s2 \<and> (\<forall>i\<in>set (settle_ids False [LWrite 5]). \<not> present s2 i)"
    using tx_log_check_undoes_commit [OF ck h room] sample_log_clear by auto
  from s1(3) [OF ne] show ?thesis
    using s1(1,2) by auto
qed

end
