(* ===== verification/Reopen.thy ===== *)
theory Reopen
  imports Log_Check Api
begin

text \<open>
  Opening a store, end to end: the state of a new store (\<open>tx_log_init\<close>, \<open>populate_free_list\<close>,
  \<open>pmb_open\<close>), reopening an existing one after a crash, and the iterators over the objects
  that recovery found.
\<close>

section \<open>The slots of the log\<close>

definition slot_range :: "u8 \<Rightarrow> u8 \<Rightarrow> u64 set" where
  "slot_range i n = {v. unat i \<le> unat v \<and> unat v \<le> unat n}"

definition fresh_ml :: "log_heap \<Rightarrow> nat \<Rightarrow> tx_metalist" where
  "fresh_ml hp j = \<lparr>ml_count = 0, ml_list = lh_metas hp j\<rparr>"

text \<open>\<open>init_from hp n i lg lg'\<close>: the loop of \<open>tx_log_init\<close> from slot \<open>i\<close> on turns \<open>lg\<close> into \<open>lg'\<close>.\<close>

definition init_from :: "log_heap \<Rightarrow> u8 \<Rightarrow> u8 \<Rightarrow> tx_log \<Rightarrow> tx_log \<Rightarrow> bool" where
  "init_from hp n i lg lg' \<longleftrightarrow> tx_slots_count lg' = tx_slots_count lg \<and> tx_slot_capacity lg' = tx_slot_capacity lg \<and>
     grown (tx_slots_list lg) (slot_range i n) (tx_slots_list lg') \<and>
     length (upd_id_list lg') = length (upd_id_list lg) \<and>
     (\<forall>j<length (upd_id_list lg). upd_id_list lg' ! j =
       (if unat i - 1 \<le> j \<and> j < unat n then fresh_ml hp j else upd_id_list lg ! j))"

lemma tx_log_init_loop_ok:
  assumes "lh_array_ok hp" and n: "n \<noteq> - 1"
  shows "i \<noteq> 0 \<Longrightarrow> list_wf (tx_slots_list lg) \<Longrightarrow> \<exists>lg'. tx_log_init_loop hp n i lg = Inr lg' \<and> init_from hp n i lg lg'"
proof (induction "256 - unat i" arbitrary: i lg rule: less_induct)
  case less
  show ?case
  proof (cases "i \<le> n")
    case True
    then have "i \<noteq> - 1"
      using n word_order.extremum_unique by blast
    then have u: "unat (i + 1) = Suc (unat i)"
      by (rule unat_Suc_8)
    have i: "0 < unat i" "unat i \<le> unat n"
      using less.prems(1) True by (simp_all add: unat_gt_0 word_nat)
    let ?lg = "lg\<lparr>tx_slots_list := caslist_push (tx_slots_list lg) (ucast i),
       upd_id_list := (upd_id_list lg)[unat i - 1 := fresh_ml hp (unat i - 1)]\<rparr>"
    have "ucast i \<noteq> (0 :: u64)" "ucast i \<noteq> (- 1 :: u64)"
      using i unat_lt_8 [of i] by (simp_all add: word_eq_unat unat_u64_max del: unat_eq_0)
    then have v: "valid_id (ucast i)"
      by (simp add: valid_id_def)
    note push = list_push [OF less.prems(2) v]
    have "256 - unat (i + 1) < 256 - unat i" "i + 1 \<noteq> 0"
      using u unat_lt_8 [of i] by (auto simp flip: unat_eq_0)
    then obtain lg' where lg': "tx_log_init_loop hp n (i + 1) ?lg = Inr lg'" "init_from hp n (i + 1) ?lg lg'"
      using less.hyps [of "i + 1" ?lg] push(1) by auto
    have "slot_range i n = insert (ucast i) (slot_range (i + 1) n)"
      using i u by (auto simp: slot_range_def word_eq_unat)
    then have "init_from hp n i lg lg'"
      using lg'(2) push i by (auto simp: init_from_def grown_def u nth_list_update)
    moreover have "tx_log_init_loop hp n i lg = Inr lg'"
      using True assms(1) less.prems(1) lg'(1) by (subst tx_log_init_loop.simps) (simp add: Let_def fresh_ml_def)
    ultimately show ?thesis
      by blast
  next
    case False
    then have "init_from hp n i lg lg"
      using less.prems(2) by (auto simp: init_from_def grown_def slot_range_def word_nat)
    then show ?thesis
      using False by (subst tx_log_init_loop.simps) simp
  qed
qed

lemma tx_log_init_loop_full:
  assumes "lh_array_ok hp"
  shows "tx_log_init_loop hp (- 1) i lg = Inl OutOfBounds"
proof (induction "if i = 0 then 0 else 256 - unat i" arbitrary: i lg rule: less_induct)
  case less
  show ?case
  proof (cases "i = 0")
    case True
    then show ?thesis
      using assms by (subst tx_log_init_loop.simps) simp
  next
    case False
    have "(if i + 1 = 0 then 0 else 256 - unat (i + 1)) < 256 - unat i"
      using unat_Suc_8 [of i] unat_lt_8 [of i] by (cases "i = - 1") auto
    then have "tx_log_init_loop hp (- 1) (i + 1) lg' = Inl OutOfBounds" for lg'
      using less.hyps [of "i + 1" lg'] False by simp
    then show ?thesis
      using assms False by (subst tx_log_init_loop.simps) (simp add: Let_def)
  qed
qed

lemma new_range:
  assumes "e \<noteq> 0" and "e \<noteq> - 1"
  shows "list_wf (caslist_new True 1 e)" and "list_ids (caslist_new True 1 e) = {1..e}"
proof -
  have u: "0 < unat e" "Suc (Suc (unat e)) \<le> 2 ^ 64"
    using assms unat_Suc [of e] unat_lt_64 [of "e + 1"] by (simp_all add: unat_gt_0)
  then have "\<not> 1 > e"
    by (simp add: word_nat)
  then have c: "caslist_new True 1 e = Some \<lparr>cl_size = e - 1 + 1, cl_begin = 1, cl_end = e, cl_next = []\<rparr>"
    by (simp add: caslist_new_def)
  show "list_ids (caslist_new True 1 e) = {1..e}"
    unfolding c by (simp add: list_ids_def caslist_ids_def caslist_chain_def)
  show "list_wf (caslist_new True 1 e)"
    unfolding c using u by (simp add: list_wf_def caslist_wf_def caslist_chain_def word_nat Suc_le_eq)
qed

lemma slot_list_new:
  assumes "n \<noteq> 0"
  shows "list_wf (caslist_new True 1 (ucast (n :: u8)))" and "list_ids (caslist_new True 1 (ucast n)) = {1..ucast n}"
proof -
  have "0 < unat n"
    using assms by (simp add: unat_gt_0)
  then have "ucast n \<noteq> (0 :: u64)" "ucast n \<noteq> (- 1 :: u64)"
    using unat_lt_8 [of n] by (simp_all add: word_eq_unat unat_u64_max del: unat_eq_0)
  then show "list_wf (caslist_new True 1 (ucast n))" "list_ids (caslist_new True 1 (ucast n)) = {1..ucast n}"
    by (rule new_range)+
qed

lemma init_outcome:
  assumes hp: "lh_array_ok hp" "lh_list_ok hp" and n: "n \<noteq> 0" "n \<noteq> - 1"
  shows "\<exists>lg. tx_log_init hp n s = Inr (s\<lparr>op_log := lg\<rparr>) \<and> tx_slots_count lg = n \<and> list_wf (tx_slots_list lg) \<and>
    list_ids (tx_slots_list lg) = {1..ucast n} \<and> upd_id_list lg = map (fresh_ml hp) [0..<unat n]"
proof -
  let ?lg = "\<lparr>tx_slots_count = n,
         tx_slot_capacity = ucast ((ucast (get_block_size (max_key_len s) (max_val_len s)) -
            of_nat sizeof_tx_slot :: u64) div of_nat sizeof_tx_entry),
         tx_slots_list = caslist_new True 1 (ucast n),
         upd_id_list = replicate (unat n) \<lparr>ml_count = 0, ml_list = []\<rparr>\<rparr>"
  obtain lg where lg: "tx_log_init_loop hp n 1 ?lg = Inr lg" "init_from hp n 1 ?lg lg"
    using tx_log_init_loop_ok [OF hp(1) n(2), of 1 ?lg] slot_list_new(1) [OF n(1)] by auto
  have "slot_range 1 n = {1..ucast n}"
    by (auto simp: slot_range_def word_nat)
  then have "list_wf (tx_slots_list lg)" "list_ids (tx_slots_list lg) = {1..ucast n}"
    using lg(2) slot_list_new(2) [OF n(1)] by (simp_all add: init_from_def grown_def)
  moreover have "upd_id_list lg = map (fresh_ml hp) [0..<unat n]"
    using lg(2) by (intro nth_equalityI) (auto simp: init_from_def)
  moreover have "tx_log_init hp n s = Inr (s\<lparr>op_log := lg\<rparr>)"
    using lg(1) hp(2) by (simp add: tx_log_init_def)
  moreover have "tx_slots_count lg = n"
    using lg(2) by (simp add: init_from_def)
  ultimately show ?thesis
    by blast
qed

section \<open>The free lists of a new store\<close>

lemma populate_loop_lists:
  assumes "list_wf (free_list s)" and "list_wf (meta_free_list s)" and "pos \<noteq> - 1"
  shows "\<exists>f mf. populate_loop pos s = s\<lparr>free_list := f, meta_free_list := mf\<rparr> \<and>
    grown (free_list s) {i \<in> {1..pos}. i \<le> total_objs_count s - 1} f \<and>
    grown (meta_free_list s) {i \<in> {1..pos}. \<not> i \<le> total_objs_count s - 1} mf"
  using assms
proof (induction "unat pos" arbitrary: pos s)
  case 0
  then have "pos = 0"
    by (simp add: unat_eq_zero)
  then have "populate_loop pos s = s" "{1..pos} = {}"
    by (simp_all add: populate_loop.simps [of 0])
  then show ?case
    using 0 by (intro exI [of _ "free_list s"] exI [of _ "meta_free_list s"]) (simp add: grown_same)
next
  case (Suc n)
  have p0: "pos \<noteq> 0"
    using Suc(2) by auto
  then have v: "valid_id pos" and p: "unat (pos - 1) = n" "pos - 1 \<noteq> - 1"
    using Suc.prems(3) Suc(2) unat_pred [OF p0] unat_lt_64 [of pos]
    by (auto simp: valid_id_def word_eq_unat unat_u64_max)
  define s1 where "s1 = (if pos \<le> total_objs_count s - 1 then s\<lparr>free_list := caslist_push (free_list s) pos\<rparr>
           else s\<lparr>meta_free_list := caslist_push (meta_free_list s) pos\<rparr>)"
  have step: "populate_loop pos s = populate_loop (pos - 1) s1"
    unfolding s1_def using p0 by (subst populate_loop.simps) (simp add: word_neq_0_conv)
  have ran: "{1..pos} = insert pos {1..pos - 1}"
    using Suc(2) p(1) by (auto simp: word_nat word_eq_unat)
  note push = list_push [OF Suc.prems(1) v] list_push [OF Suc.prems(2) v]
  have s1: "total_objs_count s1 = total_objs_count s" "list_wf (free_list s1)" "list_wf (meta_free_list s1)"
      "list_ids (free_list s1) = list_ids (free_list s) \<union> {i \<in> {pos}. i \<le> total_objs_count s - 1}"
      "list_ids (meta_free_list s1) = list_ids (meta_free_list s) \<union> {i \<in> {pos}. \<not> i \<le> total_objs_count s - 1}"
      "s1\<lparr>free_list := f, meta_free_list := mf\<rparr> = s\<lparr>free_list := f, meta_free_list := mf\<rparr>" for f mf
    using push Suc.prems by (auto simp: s1_def)
  obtain f mf where f: "populate_loop (pos - 1) s1 = s1\<lparr>free_list := f, meta_free_list := mf\<rparr>"
    "grown (free_list s1) {i \<in> {1..pos - 1}. i \<le> total_objs_count s - 1} f"
    "grown (meta_free_list s1) {i \<in> {1..pos - 1}. \<not> i \<le> total_objs_count s - 1} mf"
    using Suc.hyps(1) [OF p(1) [symmetric] s1(2,3) p(2)] unfolding s1(1) by blast
  show ?case
    unfolding step f(1) s1(6) using f(2,3) unfolding grown_def s1(4,5) ran
    by (intro exI [of _ f] exI [of _ mf]) blast
qed

lemma open_empty_lists:
  assumes hp: "oh_list_ok hp 0" "oh_list_ok hp 1" and T: "0 < total_objs_count s" "0 < meta_objs_count s"
    and w: "unat (total_objs_count s) + unat (meta_objs_count s) < 2 ^ 64"
  shows "\<exists>f mf. open_empty hp s = s\<lparr>free_list := f, meta_free_list := mf, objs_list := None, meta_objs_list := None\<rparr> \<and>
    list_wf f \<and> list_ids f = {1..total_objs_count s} \<and> list_wf mf \<and>
    list_ids mf = {1..meta_objs_count s} \<union> {total_objs_count s..total_objs_count s + meta_objs_count s - 1}"
proof -
  let ?T = "total_objs_count s" and ?M = "meta_objs_count s"
  let ?s = "s\<lparr>free_list := caslist_new True 1 ?T, meta_free_list := caslist_new True 1 ?M,
    objs_list := None, meta_objs_list := None\<rparr>"
  have u: "0 < unat ?T" "0 < unat ?M" "unat (?T + ?M) = unat ?T + unat ?M"
    using T w by (simp_all add: word_nat unat_add_no_wrap)
  then have n: "?T \<noteq> 0" "?T \<noteq> - 1" "?M \<noteq> 0" "?M \<noteq> - 1" "?T + ?M \<noteq> 0"
    using w by (auto simp: word_eq_unat unat_u64_max simp del: unat_eq_0)
  then have p: "unat (?T + ?M - 1) = unat ?T + unat ?M - 1" "unat (?T - 1) = unat ?T - 1"
    using u(3) unat_pred by simp_all
  then have "?T + ?M - 1 \<noteq> - 1"
    using w u by (auto simp: word_eq_unat unat_u64_max)
  then obtain f mf where f: "populate_loop (?T + ?M - 1) ?s = ?s\<lparr>free_list := f, meta_free_list := mf\<rparr>"
      "grown (caslist_new True 1 ?T) {i \<in> {1..?T + ?M - 1}. i \<le> ?T - 1} f"
      "grown (caslist_new True 1 ?M) {i \<in> {1..?T + ?M - 1}. \<not> i \<le> ?T - 1} mf"
    using populate_loop_lists [of ?s "?T + ?M - 1"] new_range(1) n by auto
  have "{1..?T} \<union> {i \<in> {1..?T + ?M - 1}. i \<le> ?T - 1} = {1..?T}"
      "{i \<in> {1..?T + ?M - 1}. \<not> i \<le> ?T - 1} = {?T..?T + ?M - 1}"
    using p u by (auto simp: word_nat)
  then show ?thesis
    using f(2,3) new_range(2) n hp unfolding open_empty_def populate_free_list_def grown_def
    by (intro exI [of _ f] exI [of _ mf]) (simp add: f(1))
qed

section \<open>Opening a new store\<close>

text \<open>Every allocation succeeds. The entries of the pending lists may hold any bytes.\<close>

definition heap_ok :: "open_heap \<Rightarrow> bool" where
  "heap_ok hp \<longleftrightarrow> oh_handle_ok hp \<and> (\<forall>j. oh_list_ok hp j) \<and> lh_array_ok (oh_log hp) \<and> lh_list_ok (oh_log hp) \<and>
     (\<forall>j. length (lh_metas (oh_log hp) j) = 128)"

lemma fresh_ml_rest: "heap_ok hp \<Longrightarrow> ml_rest (fresh_ml (oh_log hp) j)"
  by (simp add: heap_ok_def fresh_ml_def ml_rest_def)

lemma open_new:
  assumes hp: "heap_ok hp" and created: "open_or_create nv opts w = Inr (True, Some b, w')"
    and b: "layout_ok b" "b_tx_slots_count b = o_write_log_entries opts" "0 < b_data_nlba b" "0 < b_meta_nlba b"
    and n: "o_write_log_entries opts \<noteq> - 1" and zero: "\<forall>i. block_ok b i \<longrightarrow> ld_u64 (mem w') (backend_direct (Some b) i) = 0"
  shows "\<exists>s. pmb_open nv uc hp sched (Some opts) w = Some (Inr (0, Inr s)) \<and> pool_inv s \<and> store s = Map.empty \<and>
    bck s = b \<and> list_ids (tx_slots_list (op_log s)) = {1..ucast (o_write_log_entries opts)} \<and>
    list_ids (free_list s) = {1..b_data_nlba b} \<and>
    list_ids (meta_free_list s) = {1..b_meta_nlba b} \<union> {b_data_nlba b..b_data_nlba b + b_meta_nlba b - 1} \<and>
    total_objs_count s = b_data_nlba b \<and> objs_list s = None \<and> mem s = mem w' \<and>
    max_key_len s = o_max_key_len opts \<and> max_val_len s = o_max_val_len opts \<and>
    meta_max_key_len s = o_meta_max_key_len opts \<and> meta_max_val_len s = o_meta_max_val_len opts"
proof -
  let ?n = "o_write_log_entries opts" and ?h = "new_handle opts b w'"
  have n0: "?n \<noteq> 0"
    using created by (auto simp: open_or_create_def)
  have h: "lh_array_ok (oh_log hp)" "lh_list_ok (oh_log hp)" "oh_list_ok hp 0" "oh_list_ok hp 1" "oh_handle_ok hp"
    using hp by (simp_all add: heap_ok_def)
  obtain lg where lg: "tx_log_init (oh_log hp) ?n ?h = Inr (?h\<lparr>op_log := lg\<rparr>)" "tx_slots_count lg = ?n"
      "list_wf (tx_slots_list lg)" "list_ids (tx_slots_list lg) = {1..ucast ?n}"
      "upd_id_list lg = map (fresh_ml (oh_log hp)) [0..<unat ?n]"
    using init_outcome [OF h(1,2) n0 n] by blast
  have sum: "unat (b_data_nlba b) + unat (b_meta_nlba b) < 2 ^ 64"
    using nlba_sum_no_wrap [OF b(1)] unat_lt_64 [of "b_data_nlba b + b_meta_nlba b"] by simp
  let ?s = "?h\<lparr>op_log := lg, total_objs_count := b_data_nlba b, meta_objs_count := b_meta_nlba b\<rparr>"
  obtain f mf where f: "open_empty hp ?s = ?s\<lparr>free_list := f, meta_free_list := mf, objs_list := None, meta_objs_list := None\<rparr>"
      "list_wf f" "list_ids f = {1..b_data_nlba b}" "list_wf mf"
      "list_ids mf = {1..b_meta_nlba b} \<union> {b_data_nlba b..b_data_nlba b + b_meta_nlba b - 1}"
    using open_empty_lists [OF h(3,4), of ?s] b sum by auto
  define s where "s = ?s\<lparr>free_list := f, meta_free_list := mf, objs_list := None, meta_objs_list := None\<rparr>"
  have fld: "bck s = b" "mem s = mem w'" "op_log s = lg" "free_list s = f" "meta_free_list s = mf" "total_objs_count s = b_data_nlba b"
      "objs_list s = None" "max_key_len s = o_max_key_len opts" "max_val_len s = o_max_val_len opts"
      "meta_max_key_len s = o_meta_max_key_len opts" "meta_max_val_len s = o_meta_max_val_len opts"
    by (simp_all add: s_def new_handle_def)
  have none: "\<not> present s i" if "block_ok b i" for i
    using zero that by (simp add: present_def fld hdr_at_def)
  then have st: "store s = Map.empty" "store_ok s"
    by (auto simp: store_def store_ok_def fld)
  have "pool_inv s"
    unfolding pool_inv_def slots_ok_def fld st(1) using b lg f(2,4) st(2) fresh_ml_rest [OF hp] by auto
  moreover have "pmb_open nv uc hp sched (Some opts) w = Some (Inr (0, Inr s))"
    using h(5) created lg(1) f(1) by (simp add: pmb_open_def s_def backend_nblock_def new_handle_def)
  ultimately show ?thesis
    using st(1) lg(4) f(3,5) fld by blast
qed

section \<open>Iteration\<close>

text \<open>A client's loop over an iterator: at most \<open>n\<close> rounds, the positions it sees.\<close>

primrec iter_all :: "nat \<Rightarrow> pmb_iter \<Rightarrow> pmb_handle \<Rightarrow> u64 list" where
  "iter_all 0 it s = []"
| "iter_all (Suc n) it s =
     (if pmb_iter_valid (Some it) = 0 then []
      else pmb_iter_pos (Some it) # (case pmb_iter_next (Some it) s of
          (_, Some it', s') \<Rightarrow> iter_all n it' s' | _ \<Rightarrow> []))"

lemma iter_list_set [simp]: "iter_list (set_iter_list r l s) r = l"
  by (simp add: iter_list_def set_iter_list_def)

lemma iter_next_take:
  assumes "iter_list s (it_region it) = Some l"
  shows "pmb_iter_next (Some it) s =
    (case caslist_take l of
       None \<Rightarrow> (PMB_ERR, Some (it\<lparr>it_pos := 0\<rparr>), set_iter_list (it_region it) (Some l) s)
     | Some (v, l') \<Rightarrow> (PMB_OK, Some (it\<lparr>it_pos := v\<rparr>), set_iter_list (it_region it) (Some l') s))"
  using assms by (simp add: pmb_iter_next_def caslist_pop_def caslist_take_eq caslist_pop_locked_def Let_def)

lemma iter_all_drain:
  assumes "iter_list s (it_region it) = Some l" and "caslist_wf l" and "it_pos it \<noteq> 0"
  shows "iter_all (Suc n) it s = it_pos it # drain caslist_take n l"
  using assms
proof (induction n arbitrary: it s l)
  case 0
  then show ?case
    by (simp add: pmb_iter_valid_def pmb_iter_pos_def iter_next_take [OF 0(1)] split: option.split prod.split)
next
  case (Suc n)
  show ?case
  proof (cases "caslist_take l")
    case None
    then show ?thesis
      using Suc.prems(3)
      by (subst iter_all.simps) (simp add: iter_next_take [OF Suc.prems(1)] pmb_iter_valid_def pmb_iter_pos_def)
  next
    case (Some r)
    obtain v l' where t: "caslist_take l = Some (v, l')"
      using Some by (cases r) auto
    have v: "caslist_wf l'" "v \<noteq> 0"
      using cas.pop_invar [OF Suc.prems(2) t] cas.ids_ok [OF Suc.prems(2)] cas.pop_least [OF Suc.prems(2) t]
      by (auto simp: valid_id_def)
    have "iter_all (Suc n) (it\<lparr>it_pos := v\<rparr>) (set_iter_list (it_region it) (Some l') s) = v # drain caslist_take n l'"
      using Suc.IH [of "set_iter_list (it_region it) (Some l') s" "it\<lparr>it_pos := v\<rparr>" l'] v by simp
    then show ?thesis
      using Suc.prems(3) t
      by (subst iter_all.simps) (simp add: iter_next_take [OF Suc.prems(1)] pmb_iter_valid_def pmb_iter_pos_def)
  qed
qed

section \<open>Reopening with a transaction in the first slot\<close>

lemma tx_log_check_idle:
  assumes "\<And>t. t \<noteq> 0 \<Longrightarrow> tx_check_slot uc t s = Inr s" and n: "tx_slots_count (op_log s) \<noteq> - 1"
  shows "tx_log_check uc s = Some (Inr s)"
proof -
  have "t \<noteq> 0 \<Longrightarrow> tx_log_check_loop uc t s = Some (Inr s)" for t
  proof (induction "256 - unat t" arbitrary: t rule: less_induct)
    case less
    show ?case
    proof (cases "t \<le> tx_slots_count (op_log s)")
      case True
      then have "t \<noteq> - 1"
        using n word_order.extremum_unique by blast
      then have u: "unat (t + 1) = Suc (unat t)"
        by (rule unat_Suc_8)
      then have "256 - unat (t + 1) < 256 - unat t" "t + 1 \<noteq> 0"
        using unat_lt_8 [of t] by (auto simp flip: unat_eq_0)
      then have "tx_log_check_loop uc (t + 1) s = Some (Inr s)"
        by (rule less.hyps)
      then show ?thesis
        using True assms(1) [OF less.prems] by (subst tx_log_check_loop.simps) simp
    next
      case False
      then show ?thesis
        by (subst tx_log_check_loop.simps) simp
    qed
  qed
  then show ?thesis
    by (simp add: tx_log_check_def)
qed

text \<open>The lists that the scan gives once the log is settled.\<close>

lemma open_existing_checked:
  assumes ck: "checksum_spec uc ck" and hp: "heap_ok hp" and chk: "tx_log_check uc s = Some (Inr s2)"
    and T: "0 < total_objs_count s2" and sum: "unat (total_objs_count s2) + unat (meta_objs_count s2) < 2 ^ 64"
  shows "\<exists>f mf ob mo. open_existing uc hp sched s = Some (Inr (s2\<lparr>free_list := f, meta_free_list := mf, objs_list := ob, meta_objs_list := mo\<rparr>)) \<and>
    list_wf f \<and> list_ids f = {i \<in> store_ids s2. i < total_objs_count s2 \<and> \<not> obj_valid ck s2 i} \<and>
    list_wf mf \<and> list_ids mf = {i \<in> store_ids s2. total_objs_count s2 \<le> i \<and> \<not> obj_valid ck s2 i} \<and>
    list_wf ob \<and> list_ids ob = {i \<in> store_ids s2. i < total_objs_count s2 \<and> obj_valid ck s2 i}"
proof -
  let ?s = "blank_lists s2"
  have c: "total_objs_count ?s = total_objs_count s2" "meta_objs_count ?s = meta_objs_count s2"
      "list_ids (free_list ?s) = {}" "list_ids (meta_free_list ?s) = {}" "list_ids (objs_list ?s) = {}"
      "store_ids ?s = store_ids s2" "obj_valid ck ?s = obj_valid ck s2"
    by (simp_all add: blank_lists_def blank_list store_ids_def fun_eq_iff)
  obtain f mf ob mo where r: "recovery uc sched ?s =
      (PMB_OK, ?s\<lparr>free_list := f, meta_free_list := mf, objs_list := ob, meta_objs_list := mo\<rparr>)"
      "grown (free_list ?s) {i \<in> store_ids s2. i < total_objs_count s2 \<and> \<not> obj_valid ck s2 i} f"
      "grown (meta_free_list ?s) {i \<in> store_ids s2. total_objs_count s2 \<le> i \<and> \<not> obj_valid ck s2 i} mf"
      "grown (objs_list ?s) {i \<in> store_ids s2. i < total_objs_count s2 \<and> obj_valid ck s2 i} ob"
    using recovery_outcome [OF ck blank_lists_start, of s2 sched] T sum unfolding c by blast
  have "open_existing uc hp sched s = Some (Inr (s2\<lparr>free_list := f, meta_free_list := mf, objs_list := ob, meta_objs_list := mo\<rparr>))"
    using hp r(1) by (simp add: open_existing_def chk heap_ok_def blank_lists_def)
  then show ?thesis
    using r(2,3,4) unfolding grown_def c by (intro exI [of _ f] exI [of _ mf] exI [of _ ob] exI [of _ mo]) simp
qed

text \<open>Opening an existing pool whose slots 2 and above are empty.\<close>

lemma open_existing_idle:
  assumes ck: "checksum_spec uc ck" and hp: "heap_ok hp" and ok: "layout_ok (bck s)" "tx_slots_count (op_log s) = b_tx_slots_count (bck s)"
    and empty: "\<forall>t. t \<noteq> 0 \<and> slot_ok (bck s) t \<longrightarrow> slot_empty s t" and n: "b_tx_slots_count (bck s) \<noteq> - 1"
    and T: "0 < total_objs_count s" and sum: "unat (total_objs_count s) + unat (meta_objs_count s) < 2 ^ 64"
  shows "\<exists>f mf ob mo. open_existing uc hp sched s = Some (Inr (s\<lparr>free_list := f, meta_free_list := mf, objs_list := ob, meta_objs_list := mo\<rparr>)) \<and>
    list_wf f \<and> list_ids f = {i \<in> store_ids s. i < total_objs_count s \<and> \<not> obj_valid ck s i} \<and>
    list_wf ob \<and> list_ids ob = {i \<in> store_ids s. i < total_objs_count s \<and> obj_valid ck s i}"
proof -
  have "tx_check_slot uc t s = Inr s" if "t \<noteq> 0" for t
  proof (cases "slot_ok (bck s) t")
    case True
    then show ?thesis
      using empty that unfolding tx_check_slot_def Let_def by simp
  next
    case False
    then show ?thesis
      using ok(1) by (simp add: tx_check_slot_def backend_tx_direct_def slot_ok_def Let_def)
  qed
  then have "tx_log_check uc s = Some (Inr s)"
    using n ok(2) by (intro tx_log_check_idle) auto
  from open_existing_checked [OF ck hp this T sum] show ?thesis
    by blast
qed

lemma sealed_valid:
  assumes ck: "checksum_spec uc ck" and i: "block_ok (bck s) i" "i < total_objs_count s" "present s i" "sealed uc s i"
  shows "obj_valid ck s i"
proof -
  let ?h = "blk_hdr s i"
  have "total_objs_count s \<noteq> 0"
    using i(2) by auto
  then have border: "\<not> pmb_ntotal (Some s) 0 < i"
    using i(2) by (simp add: pmb_ntotal_def word_nat unat_pred)
  have "unat (32 + ucast (max_key_len s) + ucast (h_val_len ?h) :: u64) =
      32 + unat (max_key_len s) + unat (h_val_len ?h)"
    using unat_lt_32 [of "max_key_len s"] unat_lt_32 [of "h_val_len ?h"] by (simp add: unat_add_no_wrap)
  then have len: "scan_len s i = 32 + unat (max_key_len s) + unat (h_val_len ?h)"
    using border by (simp add: scan_len_def Let_def sizeof_pmb_data_hdr_def)
  show ?thesis
    unfolding obj_valid_def Let_def len
    using i(3,4) bs.direct_not_null [OF i(1)] by (simp add: present_def hdr_at_def sealed_def checksum_verify [OF ck])
qed

section \<open>Properties\<close>

lemma list_size: "list_wf l \<Longrightarrow> unat (caslist_size l) = card (list_ids l)"
  by (auto simp: list_wf_def list_ids_def caslist_size_def card_caslist_ids)

lemma card_word_range: "card {1..n :: u64} = unat n"
proof -
  have u: "unat (of_nat k :: u64) = k" if "k \<le> unat n" for k
    using that unat_lt_64 [of n] unat_of_nat [where 'a = 64, of k] by simp
  have "{1..n} = of_nat ` {1..unat n}"
  proof (intro set_eqI iffI)
    fix i
    assume "i \<in> {1..n}"
    then have "unat i \<in> {1..unat n}" "i = of_nat (unat i)"
      by (simp_all add: word_le_nat_alt)
    then show "i \<in> of_nat ` {1..unat n}"
      by blast
  next
    fix i :: u64
    assume "i \<in> of_nat ` {1..unat n}"
    then obtain k where k: "i = of_nat k" "1 \<le> k" "k \<le> unat n"
      by auto
    then have "unat i = k"
      using u by simp
    then show "i \<in> {1..n}"
      using k by (simp add: word_le_nat_alt)
  qed
  moreover have "inj_on (of_nat :: nat \<Rightarrow> u64) {1..unat n}"
  proof (rule inj_onI)
    fix x y
    assume x: "x \<in> {1..unat n}" "y \<in> {1..unat n}" and e: "of_nat x = (of_nat y :: u64)"
    show "x = y"
      using arg_cong [OF e, of unat] x by (simp only: u atLeastAtMost_iff)
  qed
  ultimately show ?thesis
    by (simp add: card_image)
qed

text \<open>
  C12: a new store. When \<open>pmb_open\<close> has created the pool (blank blocks, a layout as
  \<open>backend_create\<close> makes it, 1 to 254 slots) and every allocation succeeds, it
  gives an empty store that satisfies the invariant of transactions, with
  every slot free; nothing is assumed of the entries of the pending lists. The free lists are not those of the regions: the data list has the
  first meta identifier too, and the meta list has the identifiers from 1 up to the number of
  meta blocks besides those of its region, so the same data blocks are free in both. So \<open>pmb_nfree\<close>
  counts one data block more than \<open>pmb_ntotal\<close>.
\<close>

theorem pmb_open_new_store:
  assumes "heap_ok hp" and "open_or_create nv opts w = Inr (True, Some b, w')"
    and "layout_ok b" "b_tx_slots_count b = o_write_log_entries opts" "0 < b_data_nlba b" "0 < b_meta_nlba b"
    and "o_write_log_entries opts \<noteq> - 1" and "\<forall>i. block_ok b i \<longrightarrow> ld_u64 (mem w') (backend_direct (Some b) i) = 0"
  shows "\<exists>s. pmb_open nv uc hp sched (Some opts) w = Some (Inr (0, Inr s)) \<and> pool_inv s \<and> store s = Map.empty \<and>
    bck s = b \<and> list_ids (tx_slots_list (op_log s)) = {1..ucast (o_write_log_entries opts)} \<and>
    list_ids (free_list s) = {1..b_data_nlba b} \<and>
    list_ids (meta_free_list s) = {1..b_meta_nlba b} \<union> {b_data_nlba b..b_data_nlba b + b_meta_nlba b - 1} \<and>
    pmb_ntotal (Some s) 0 = b_data_nlba b - 1 \<and> pmb_nfree (Some s) 0 = sint (b_data_nlba b)"
proof -
  obtain s where s: "pmb_open nv uc hp sched (Some opts) w = Some (Inr (0, Inr s))" "pool_inv s" "store s = Map.empty"
      "bck s = b" "list_ids (tx_slots_list (op_log s)) = {1..ucast (o_write_log_entries opts)}" "list_ids (free_list s) = {1..b_data_nlba b}"
      "list_ids (meta_free_list s) = {1..b_meta_nlba b} \<union> {b_data_nlba b..b_data_nlba b + b_meta_nlba b - 1}"
      "total_objs_count s = b_data_nlba b"
    using open_new [OF assms, of uc sched] by blast
  have "list_wf (free_list s)"
    using s(2) by (simp add: pool_inv_def)
  then have "unat (caslist_size (free_list s)) = unat (b_data_nlba b)"
    by (simp add: list_size s(6) card_word_range)
  then have "caslist_size (free_list s) = b_data_nlba b"
    by (rule unat_eqI)
  then have "pmb_ntotal (Some s) 0 = b_data_nlba b - 1" "pmb_nfree (Some s) 0 = sint (b_data_nlba b)"
    by (simp_all add: pmb_ntotal_def pmb_nfree_def s(8))
  then show ?thesis
    using s(1-7) by blast
qed

definition sample_opts :: pmb_opts where
  "sample_opts = \<lparr>o_path = Some ''pool'', o_data_size = 0x10000000, o_meta_size = 0x1000000, o_write_log_entries = 16,
     o_max_key_len = 64, o_max_val_len = 1024, o_meta_max_key_len = 64, o_meta_max_val_len = 1024, o_sync_type = 0\<rparr>"

lemma sample_heap_ok: "heap_ok sample_heap"
  by (simp add: heap_ok_def sample_heap_def)

lemma sample_open: "\<exists>w'. open_or_create sample_nvml sample_opts sample_world = Inr (True, Some sample_backend, w') \<and> mem w' = (\<lambda>_. 0)"
  by (simp add: open_or_create_def sample_opts_def backend_open_def backend_create_def sample_nvml_def backend_map_common_def
      map_bytes_def sample_mapping_def sample_world_def backend_check_header_def TX_LOG_SIZE_def Let_def roundup_def
      PMB_FORMAT_DATA_ALIGN_def sizeof_pmb_data_hdr_def sample_backend_def blank_backend_def)
    (simp add: fun_eq_iff)

theorem pmb_open_new_store_witness:
  "\<exists>s. pmb_open sample_nvml sample_uc sample_heap [] (Some sample_opts) sample_world = Some (Inr (0, Inr s)) \<and> pool_inv s \<and>
    store s = Map.empty \<and> 1 \<in> list_ids (free_list s) \<inter> list_ids (meta_free_list s)"
proof -
  obtain w' where w': "open_or_create sample_nvml sample_opts sample_world = Inr (True, Some sample_backend, w')"
      "mem w' = (\<lambda>_. 0)"
    using sample_open by blast
  have "(1 :: u64) \<in> {1..32766}" "(1 :: u64) \<in> {1..4096} \<union> {32766..32766 + 4096 - 1}"
    by simp_all
  moreover have "\<exists>s. pmb_open sample_nvml sample_uc sample_heap [] (Some sample_opts) sample_world = Some (Inr (0, Inr s)) \<and> pool_inv s \<and>
      store s = Map.empty \<and> bck s = sample_backend \<and> list_ids (tx_slots_list (op_log s)) = {1..ucast (o_write_log_entries sample_opts)} \<and>
      list_ids (free_list s) = {1..b_data_nlba sample_backend} \<and>
      list_ids (meta_free_list s) = {1..b_meta_nlba sample_backend} \<union>
        {b_data_nlba sample_backend..b_data_nlba sample_backend + b_meta_nlba sample_backend - 1} \<and>
      pmb_ntotal (Some s) 0 = b_data_nlba sample_backend - 1 \<and> pmb_nfree (Some s) 0 = sint (b_data_nlba sample_backend)"
    by (rule pmb_open_new_store [OF sample_heap_ok w'(1) sample_layout])
      (simp_all add: sample_backend_fields sample_opts_def w'(2))
  ultimately show ?thesis
    unfolding sample_backend_fields by (elim exE conjE, intro exI conjI) auto
qed

text \<open>
  C40: \<open>tx_log_init\<close> makes every slot free and its list of pending updates empty, for 1 to 254
  slots. With 255 slots its \<open>uint8_t\<close> counter wraps to 0 and the array is written at index -1.
\<close>

theorem tx_log_init_outcome:
  assumes "lh_array_ok hp" and "lh_list_ok hp" and "n \<noteq> 0"
  shows "if n = 255 then tx_log_init hp n s = Inl OutOfBounds
    else \<exists>lg. tx_log_init hp n s = Inr (s\<lparr>op_log := lg\<rparr>) \<and> tx_slots_count lg = n \<and> list_wf (tx_slots_list lg) \<and>
      list_ids (tx_slots_list lg) = {1..ucast n} \<and> upd_id_list lg = map (fresh_ml hp) [0..<unat n]"
proof (cases "n = 255")
  case True
  then have "n = - 1"
    by simp
  then have "tx_log_init hp n s = Inl OutOfBounds"
    using tx_log_init_loop_full [OF assms(1)] by (simp add: tx_log_init_def)
  then show ?thesis
    using True by simp
next
  case False
  moreover have "(- 1 :: u8) = 255"
    by simp
  ultimately have "n \<noteq> - 1"
    by metis
  then show ?thesis
    using init_outcome [OF assms(1,2,3)] False by simp
qed

theorem tx_log_init_outcome_witness:
  "tx_log_init (oh_log sample_heap) 255 sample_store = Inl OutOfBounds \<and>
   (\<exists>lg. tx_log_init (oh_log sample_heap) 16 sample_store = Inr (sample_store\<lparr>op_log := lg\<rparr>) \<and>
     list_ids (tx_slots_list lg) = {1..16})"
proof -
  have hp: "lh_array_ok (oh_log sample_heap)" "lh_list_ok (oh_log sample_heap)"
    by (simp_all add: sample_heap_def)
  show ?thesis
    using tx_log_init_outcome [OF hp, of 255 sample_store] tx_log_init_outcome [OF hp, of 16 sample_store] by auto
qed

text \<open>
  C36: an iterator visits the objects of its region that recovery found, each once and in
  ascending order of identifier: when the list is not empty \<open>pmb_iter_open\<close> succeeds and a loop
  of \<open>pmb_iter_next\<close> until \<open>pmb_iter_valid\<close> fails sees exactly the sorted identifiers; when
  it is empty \<open>pmb_iter_open\<close> returns NULL.
\<close>

theorem pmb_iter_visits_sorted:
  assumes "list_wf (iter_list s region)" and "card (list_ids (iter_list s region)) \<le> n"
  shows "if list_ids (iter_list s region) = {} then \<exists>s'. pmb_iter_open True (Some s) region = (None, Some s')
    else \<exists>it s'. pmb_iter_open True (Some s) region = (Some it, Some s') \<and>
      iter_all n it s' = sorted_list_of_set (list_ids (iter_list s region))"
proof -
  obtain l where l: "iter_list s region = Some l" "caslist_wf l"
    using assms(1) by (auto simp: list_wf_def)
  have opened: "pmb_iter_open True (Some s) region =
      (case caslist_take l of
         None \<Rightarrow> (None, Some (set_iter_list region (Some l) s))
       | Some (v, l') \<Rightarrow> (Some \<lparr>it_region = region, it_pos = v\<rparr>, Some (set_iter_list region (Some l') s)))"
    using l(1) by (simp add: pmb_iter_open_def caslist_pop_def caslist_take_eq caslist_pop_locked_def Let_def)
  have ids: "list_ids (iter_list s region) = caslist_ids l"
    by (simp add: list_ids_def l)
  show ?thesis
  proof (cases "caslist_take l")
    case None
    then show ?thesis
      using cas.pop_None [OF l(2)] opened ids by simp
  next
    case (Some r)
    obtain v l' where t: "caslist_take l = Some (v, l')"
      using Some by (cases r) auto
    have v: "caslist_wf l'" "v \<noteq> 0" "v \<in> caslist_ids l"
      using cas.pop_invar [OF l(2) t] cas.ids_ok [OF l(2)] cas.pop_least [OF l(2) t] by (auto simp: valid_id_def)
    then obtain k where k: "n = Suc k"
      using assms(2) cas.finite_ids [OF l(2)] ids by (cases n) auto
    have "iter_all n \<lparr>it_region = region, it_pos = v\<rparr> (set_iter_list region (Some l') s) = v # drain caslist_take k l'"
      unfolding k using v by (subst iter_all_drain [where l = l']) simp_all
    also have "\<dots> = drain caslist_take n l"
      by (simp add: k t)
    also have "\<dots> = sorted_list_of_set (caslist_ids l)"
      using cas.drain_sorted [OF l(2)] assms(2) ids by simp
    finally show ?thesis
      using opened t v(3) ids by auto
  qed
qed

theorem pmb_iter_visits_sorted_witness:
  "\<exists>it s'. pmb_iter_open True (Some (sample_store\<lparr>objs_list := caslist_new True 4 6\<rparr>)) 0 = (Some it, Some s') \<and>
    iter_all 3 it s' = sorted_list_of_set {4..6}"
proof -
  let ?s = "sample_store\<lparr>objs_list := caslist_new True 4 6\<rparr>"
  have l: "iter_list ?s 0 = Some \<lparr>cl_size = 3, cl_begin = 4, cl_end = 6, cl_next = []\<rparr>"
    by (simp add: iter_list_def caslist_new_def)
  have wf: "list_wf (iter_list ?s 0)" and ids: "list_ids (iter_list ?s 0) = {4..6}"
    unfolding l by (simp_all add: list_wf_def list_ids_def caslist_eval caslist_ids_def)
  have "card {4..6 :: u64} \<le> 3" "{4..6 :: u64} \<noteq> {}"
    by (simp_all add: card_word_interval)
  then show ?thesis
    using pmb_iter_visits_sorted [OF wf, of 3] unfolding ids by simp
qed

text \<open>
  C39: a transaction in the first slot is never rolled back. When a crash leaves an unfinished
  transaction in slot 1 of the API and the other slots are empty, reopening the store does not
  clear what the transaction wrote: an object that \<open>pmb_tput\<close> stored and sealed without
  any commit is listed as a valid object afterwards and is not free, for any schedule.
\<close>

theorem first_slot_survives_reopen:
  assumes ck: "checksum_spec uc ck" and h: "tx_holds s 1 PROCESSING rs" and w: "LWrite i \<in> set rs"
    and i: "block_ok (bck s) i" "i < total_objs_count s" "present s i" "sealed uc s i"
    and empty: "\<forall>t. t \<noteq> 0 \<and> slot_ok (bck s) t \<longrightarrow> slot_empty s t" and n: "b_tx_slots_count (bck s) \<noteq> - 1"
    and sum: "unat (total_objs_count s) + unat (meta_objs_count s) < 2 ^ 64" and hp: "heap_ok hp"
  shows "\<exists>s'. open_existing uc hp sched s = Some (Inr s') \<and> i \<in> list_ids (objs_list s') \<and>
    i \<notin> list_ids (free_list s') \<and> store s' = store s \<and> store s' i \<noteq> None"
proof -
  have ok: "layout_ok (bck s)" "tx_slots_count (op_log s) = b_tx_slots_count (bck s)"
    using h by (simp_all add: tx_holds_def tx_ok_def)
  have T: "0 < total_objs_count s"
    using i(2) by (simp add: word_nat)
  obtain f mf ob mo where r: "open_existing uc hp sched s = Some (Inr (s\<lparr>free_list := f, meta_free_list := mf, objs_list := ob, meta_objs_list := mo\<rparr>))"
      "list_ids f = {i \<in> store_ids s. i < total_objs_count s \<and> \<not> obj_valid ck s i}"
      "list_ids ob = {i \<in> store_ids s. i < total_objs_count s \<and> obj_valid ck s i}"
    using open_existing_idle [OF ck hp ok empty n T sum] by blast
  have "i \<in> store_ids s"
    using i(2,3) sum by (simp add: store_ids_def word_nat unat_add_no_wrap present_def unat_gt_0 Suc_le_eq)
  then have "i \<in> list_ids ob" "i \<notin> list_ids f"
    using r(2,3) i(2) sealed_valid [OF ck i] by simp_all
  moreover have "store (s\<lparr>free_list := f, meta_free_list := mf, objs_list := ob, meta_objs_list := mo\<rparr>) = store s"
    by (rule ext) (simp add: store_def present_def obj_at_def val_start_def)
  moreover have "store s i \<noteq> None"
    using i by (simp add: store_def)
  ultimately show ?thesis
    using r(1) by (intro exI [of _ "s\<lparr>free_list := f, meta_free_list := mf, objs_list := ob, meta_objs_list := mo\<rparr>"]) simp
qed

text \<open>The sample store after a crash: slot 1 holds a write of block 5, which is sealed.\<close>

definition sample_crash_mem :: memory where
  "sample_crash_mem = snd (sample_uc sample_abort_mem 0x18007000 104 0x18007000 True)"

abbreviation sample_crash :: pmb_handle where
  "sample_crash \<equiv> sample_store\<lparr>mem := sample_crash_mem\<rparr>"

lemma sample_crash_facts:
  "rec_at sample_crash_mem 0x10002018 = LWrite 5"
  "slot_at sample_crash_mem 0x10002000 = \<lparr>s_flch64 = 0, s_status = 1, s_size = 48\<rparr>"
  "h_val_len (hdr_at sample_crash_mem 0x18007000) = 8" "h_flch64 (hdr_at sample_crash_mem 0x18007000) \<noteq> 0"
  "fst (sample_uc sample_crash_mem 0x18007000 104 0x18007000 False)"
  using sample_ck_nonzero
  by (simp_all add: sample_crash_mem_def checksum_insert [OF sample_checksum] checksum_verify [OF sample_checksum])
    (simp_all add: rec_at_def sample_abort_mem_def entry_defs hdr_defs slot_defs op_of_code_def Let_def)

lemma sample_crash_slots:
  assumes "t \<noteq> 0" and t: "slot_ok sample_backend t"
  shows "slot_empty sample_crash t"
proof -
  let ?p = "backend_tx_direct (Some sample_backend) t"
  define m0 :: memory where "m0 = (\<lambda>_. 0)"
  define m1 where "m1 = set_val_len (set_key_len (set_flch64 m0 0x18007000 77) 0x18007000 3) 0x18007000 8"
  have zero: "slot_ok sample_backend 0" "backend_tx_direct (Some sample_backend) 0 = 0x10002000"
    using sample_layout sample_slot_ptr [of 0] by (simp_all add: slot_ok_def sample_backend_fields)
  have ap: "apart 0x10002000 0x800000 ?p 0x800000" "apart 0x18007000 4096 ?p 0x800000"
    using bs.slots_apart [OF zero(1) t] assms(1) zero(2) apart_sym [OF bs.slot_block_apart [OF t, of 5]] sample_busy_block
    by (simp_all add: sample_backend_fields)
  have o: "only 0x18007000 4096 m0 m1" "only 0x10002000 0x800000 m1 sample_abort_mem"
      "only 0x18007000 4096 sample_abort_mem sample_crash_mem"
    unfolding sample_abort_mem_def Let_def m0_def [symmetric] m1_def [symmetric] sample_crash_mem_def
    by (simp_all add: m1_def hdr_defs slot_defs entry_defs only_after checksum_insert [OF sample_checksum])
  have "same_on ?p 0x800000 sample_crash_mem m0"
    using only_apart [OF o(1) ap(2)] only_apart [OF o(2) ap(1)] only_apart [OF o(3) ap(2)] by (blast intro: same_on_trans)
  then have "same_on ?p 24 sample_crash_mem m0"
    by (rule same_on_sub) simp_all
  then have "slot_at sample_crash_mem ?p = slot_at m0 ?p"
    by (rule slot_at_cong)
  moreover have "bck sample_crash = sample_backend" "mem sample_crash = sample_crash_mem"
    by (simp_all add: sample_store_def)
  ultimately show ?thesis
    by (simp add: slot_at_def m0_def)
qed

theorem first_slot_survives_reopen_witness:
  "\<exists>s'. open_existing sample_uc sample_heap [1, 0, 0] sample_crash = Some (Inr s') \<and> 5 \<in> list_ids (objs_list s') \<and>
    store s' 5 \<noteq> None"
proof -
  have b: "bck sample_crash = sample_backend" "mem sample_crash = sample_crash_mem" "max_key_len sample_crash = 64"
      "total_objs_count sample_crash = 32766" "meta_objs_count sample_crash = 4096"
    by (simp_all add: sample_store_def)
  have h: "tx_holds sample_crash 1 PROCESSING [LWrite 5]"
    using sample_tx_ok sample_crash_facts by (simp add: tx_holds_def slot_holds_def sample_ptr)
  have five: "block_ok sample_backend 5" "backend_direct (Some sample_backend) 5 = 0x18007000"
    using sample_busy_block by simp_all
  have p: "present sample_crash 5" "sealed sample_uc sample_crash 5"
    using sample_crash_facts unfolding present_def sealed_def b five by simp_all
  have "\<exists>s'. open_existing sample_uc sample_heap [1, 0, 0] sample_crash = Some (Inr s') \<and> 5 \<in> list_ids (objs_list s') \<and>
      5 \<notin> list_ids (free_list s') \<and> store s' = store sample_crash \<and> store s' 5 \<noteq> None"
  proof (rule first_slot_survives_reopen [OF sample_checksum h _ _ _ p _ _ _ sample_heap_ok])
    show "\<forall>t. t \<noteq> 0 \<and> slot_ok (bck sample_crash) t \<longrightarrow> slot_empty sample_crash t"
      using sample_crash_slots unfolding b by blast
  qed (simp_all only: b five, simp_all add: sample_backend_fields)
  then show ?thesis
    by blast
qed

end
