(* ===== verification/Clash.thy ===== *)
theory Clash
  imports Sim Reopen
begin

text \<open>
  Opening a store and transactions together: what the free lists of a new store mean for a
  client that writes to both regions, and transactions on a new store.
\<close>

text \<open>A transaction that begins leaves lists and configuration alone and takes the lowest free slot.\<close>

lemma begin_facts:
  assumes inv: "pool_inv s" and free: "slot_ids s \<noteq> {}"
  obtains k s0 where "pmb_tx_begin (Some s) (Some c) = (PMB_OK, Some k, Some s0)" "tx_holds s0 k PROCESSING []" "slot_size s0 k = 24"
    "k \<in> slot_ids s" "\<forall>j\<in>slot_ids s. k \<le> j" "\<exists>l m p. s0 = s\<lparr>op_log := (op_log s)\<lparr>tx_slots_list := l\<rparr>, mem := m, plog := p\<rparr>"
    "only (tx_slot_ptr s k) (slot_cap s) (mem s) (mem s0)"
proof -
  have "slots_ok s"
    using inv by (simp add: pool_inv_def)
  then show ?thesis
  proof (cases rule: begin_cases [where c = c])
    case busy
    then show ?thesis
      using free by simp
  next
    case (taken k l s')
    then show ?thesis
      by (intro that [of k s']) (auto simp: mem_only_def)
  qed
qed

text \<open>The size of a slot after a record without payload.\<close>

lemma log_ok_size: "log_ok m p e rs \<Longrightarrow> p + sum_list (map rec_size rs) = e"
proof (induction rs arbitrary: p)
  case (Cons r rs)
  then have "log_ok m (p + rec_size r) e rs"
    by simp
  from Cons.IH [OF this] show ?case
    by (simp add: add.assoc)
qed simp

lemma slot_size_log:
  assumes "tx_holds s k st rs"
  shows "slot_size s k = 24 + sum_list (map rec_size rs)"
  using assms log_ok_size [of "mem s" "tx_slot_ptr s k + 24" "tx_slot_ptr s k + slot_size s k" rs]
  by (simp add: tx_holds_def slot_holds_def)

text \<open>What a put to either region needs, when both get block \<open>i\<close>.\<close>

definition clash_args :: "pmb_handle \<Rightarrow> u64 \<Rightarrow> u64 \<Rightarrow> pmb_pair \<Rightarrow> pmb_pair \<Rightarrow> bool" where
  "clash_args s k i kv mkv \<longleftrightarrow> put_args s i kv \<and> client_bufs s k kv \<and> \<not> tput_bad_args s k kv \<and> p_blk_id kv = 0 \<and>
     meta_args s i mkv \<and> client_bufs s k mkv \<and> p_blk_id mkv = 0 \<and>
     unat (meta_max_key_len s) + unat (meta_max_val_len s) < 2 ^ 32 \<and> slot_size s k + 48 \<le> slot_cap s"

lemma both_lists_clash:
  assumes ck: "checksum_spec uc ck" and h: "tx_holds s k PROCESSING rs" and args: "clash_args s k i kv mkv"
    and i: "i < total_objs_count s" "list_wf (free_list s)" "i \<in> list_ids (free_list s)" "\<forall>j\<in>list_ids (free_list s). i \<le> j"
      "list_wf (meta_free_list s)" "i \<in> list_ids (meta_free_list s)" "\<forall>j\<in>list_ids (meta_free_list s). i \<le> j"
  shows "\<exists>s1 s2. pmb_tput uc (Some s) k (Some kv) = (PMB_OK, Some (kv\<lparr>p_blk_id := i\<rparr>), Some s1) \<and>
    pmb_tput_meta uc (Some s1) k (Some mkv) = (PMB_OK, Some (mkv\<lparr>p_blk_id := i\<rparr>), Some s2) \<and>
    ob_key (obj_at s2 i) = key_bytes s mkv \<and> ob_id (obj_at s2 i) = p_id kv"
proof -
  have a: "put_args s i kv" "client_bufs s k kv" "\<not> tput_bad_args s k kv" "p_blk_id kv = 0" "meta_args s i mkv" "client_bufs s k mkv"
      "p_blk_id mkv = 0" "unat (meta_max_key_len s) + unat (meta_max_val_len s) < 2 ^ 32" "slot_size s k + 48 \<le> slot_cap s"
    using args unfolding clash_args_def by blast+
  have ready: "put_ready s k rs i"
    using h i a(9) by (simp add: put_ready_def)
  obtain s1 where s1: "pmb_tput uc (Some s) k (Some kv) = (PMB_OK, Some (kv\<lparr>p_blk_id := i\<rparr>), Some s1)"
      "mem_only (s\<lparr>free_list := free_list s1\<rparr>) s1" "tx_holds s1 k PROCESSING (rs @ [LWrite i])"
      "within s k i s1" and ob: "obj_at s1 i = \<lparr>ob_id = p_id kv, ob_version = 1, ob_key = key_bytes s kv,
        ob_val = ld_bytes (mem s) (blk_ptr s i + 32 + unat (max_key_len s)) (unat (p_offset kv)) @ val_bytes s kv\<rparr>"
    using tput_new_effect [OF ck ready a(1,2,4,3) i(1)] by blast
  have id: "h_id (blk_hdr s1 i) = p_id kv"
    using arg_cong [OF ob, of ob_id] by (simp add: obj_at_def)
  note c = mem_only_simps [OF s1(2), simplified]
  have sz: "slot_size s1 k = slot_size s k + 24"
    using slot_size_log [OF s1(3)] slot_size_log [OF h] by simp
  have p: "tx_slot_ptr s1 k = tx_slot_ptr s k"
    by (simp add: tx_slot_ptr_def c)
  have m: "meta_ready s1 k (rs @ [LWrite i]) i" "meta_args s1 i mkv" "client_bufs s1 k mkv"
      "unat (meta_max_key_len s1) + unat (meta_max_val_len s1) < 2 ^ 32"
    using s1(3) sz a(5,6,8,9) i(5-7) c by (simp_all add: meta_ready_def meta_args_def client_bufs_def p)
  obtain s2 where s2: "pmb_tput_meta uc (Some s1) k (Some mkv) = (PMB_OK, Some (mkv\<lparr>p_blk_id := i\<rparr>), Some s2)"
      "mem_only (s1\<lparr>meta_free_list := meta_free_list s2\<rparr>) s2" "h_id (blk_hdr s2 i) = h_id (blk_hdr s1 i)"
      "h_key_len (blk_hdr s2 i) = p_key_len mkv"
      "ld_bytes (mem s2) (blk_ptr s1 i + 32) (unat (p_key_len mkv)) = key_bytes s1 mkv"
    using tput_meta_stored [OF ck m(1-3) meta_new(1) [OF a(7)] m(4)] by blast
  have "same_on (p_key mkv) (unat (p_key_len mkv)) (mem s1) (mem s)"
    using s1(4) a(5,6) unfolding within_def meta_args_def client_bufs_def by blast
  then have "key_bytes s1 mkv = key_bytes s mkv"
    by (rule ld_bytes_cong)
  then show ?thesis
    using s1(1) id s2 mem_only_simps(1) [OF s2(2), simplified] c(1) by (intro exI conjI) (assumption, assumption, simp_all add: obj_at_def)
qed

section \<open>Properties\<close>

text \<open>
  C19: data and meta puts on a new store collide. The two free lists of a new store share the
  lowest identifiers, so a transaction that puts a data object and then a meta object is
  told twice that the put went well and gets block 1 both times: the block then holds the
  meta object's key under the data object's identifier, and the data object is lost.
\<close>

theorem new_store_meta_put_overwrites:
  assumes ck: "checksum_spec uc ck" and "heap_ok hp" and "open_or_create nv opts w = Inr (True, Some b, w')"
    and "layout_ok b" "b_tx_slots_count b = o_write_log_entries opts" "1 < b_data_nlba b" "0 < b_meta_nlba b"
    and "o_write_log_entries opts \<noteq> - 1" and "\<forall>i. block_ok b i \<longrightarrow> ld_u64 (mem w') (backend_direct (Some b) i) = 0"
  shows "\<exists>s. pmb_open nv uc hp sched (Some opts) w = Some (Inr (0, Inr s)) \<and>
    (\<forall>k s0 kv mkv. pmb_tx_begin (Some s) (Some c) = (PMB_OK, Some k, Some s0) \<and> clash_args s0 k 1 kv mkv \<longrightarrow>
      (\<exists>s1 s2. pmb_tput uc (Some s0) k (Some kv) = (PMB_OK, Some (kv\<lparr>p_blk_id := 1\<rparr>), Some s1) \<and>
        pmb_tput_meta uc (Some s1) k (Some mkv) = (PMB_OK, Some (mkv\<lparr>p_blk_id := 1\<rparr>), Some s2) \<and>
        ob_key (obj_at s2 1) = key_bytes s0 mkv \<and> ob_id (obj_at s2 1) = p_id kv))"
proof -
  have d: "0 < b_data_nlba b"
    using assms(6) by (simp add: word_less_nat_alt)
  obtain s where s: "pmb_open nv uc hp sched (Some opts) w = Some (Inr (0, Inr s))" "pool_inv s"
      "list_ids (free_list s) = {1..b_data_nlba b}" "total_objs_count s = b_data_nlba b"
      "list_ids (meta_free_list s) = {1..b_meta_nlba b} \<union> {b_data_nlba b..b_data_nlba b + b_meta_nlba b - 1}"
    using open_new [OF assms(2-5) d assms(7-9), of uc sched] by blast
  have "\<exists>s1 s2. pmb_tput uc (Some s0) k (Some kv) = (PMB_OK, Some (kv\<lparr>p_blk_id := 1\<rparr>), Some s1) \<and>
        pmb_tput_meta uc (Some s1) k (Some mkv) = (PMB_OK, Some (mkv\<lparr>p_blk_id := 1\<rparr>), Some s2) \<and>
        ob_key (obj_at s2 1) = key_bytes s0 mkv \<and> ob_id (obj_at s2 1) = p_id kv"
    if call: "pmb_tx_begin (Some s) (Some c) = (PMB_OK, Some k, Some s0)" and args: "clash_args s0 k 1 kv mkv" for k s0 kv mkv
  proof -
    have "slot_ids s \<noteq> {}"
      using call s(2) pmb_tx_begin_begun [OF s(2) call] by (auto simp: begun_def)
    from s(2) this obtain k' s' where b: "pmb_tx_begin (Some s) (Some c) = (PMB_OK, Some k', Some s')" "tx_holds s' k' PROCESSING []"
        "\<exists>l m p. s' = s\<lparr>op_log := (op_log s)\<lparr>tx_slots_list := l\<rparr>, mem := m, plog := p\<rparr>"
      by (rule begin_facts [where c = c])
    have e: "k' = k" "s' = s0"
      using call b(1) by simp_all
    have f: "tx_holds s0 k PROCESSING []" "free_list s0 = free_list s" "meta_free_list s0 = meta_free_list s"
        "total_objs_count s0 = total_objs_count s"
      using b(2,3) unfolding e by auto
    have "list_wf (free_list s0)" "list_wf (meta_free_list s0)"
      using s(2) f(2,3) by (simp_all add: pool_inv_def)
    moreover have "1 \<le> b_data_nlba b" "1 \<le> b_meta_nlba b"
      using assms(6,7) by (simp_all add: word_le_nat_alt word_less_nat_alt Suc_leI)
    then have "1 \<in> list_ids (free_list s0)" "\<forall>j\<in>list_ids (free_list s0). 1 \<le> j"
        "1 \<in> list_ids (meta_free_list s0)" "\<forall>j\<in>list_ids (meta_free_list s0). 1 \<le> j"
      unfolding f(2,3) s(3,5) by auto
    ultimately show ?thesis
      using assms(6) f(4) s(4) by (intro both_lists_clash [OF ck f(1) args]) simp_all
  qed
  then show ?thesis
    using s(1) by blast
qed

theorem new_store_meta_put_overwrites_witness:
  "\<exists>s s0 s1 s2. pmb_open sample_nvml sample_uc sample_heap [] (Some sample_opts) sample_world = Some (Inr (0, Inr s)) \<and>
    pmb_tx_begin (Some s) (Some 0) = (PMB_OK, Some 1, Some s0) \<and>
    pmb_tput sample_uc (Some s0) 1 (Some (sample_pair 0 0 5)) = (PMB_OK, Some (sample_pair 1 0 5), Some s1) \<and>
    pmb_tput_meta sample_uc (Some s1) 1 (Some (sample_pair 0 0 5)) = (PMB_OK, Some (sample_pair 1 0 5), Some s2)"
proof -
  let ?kv = "sample_pair 0 0 5"
  obtain w' where w': "open_or_create sample_nvml sample_opts sample_world = Inr (True, Some sample_backend, w')"
      "mem w' = (\<lambda>_. 0)"
    using sample_open by blast
  have h: "b_tx_slots_count sample_backend = o_write_log_entries sample_opts" "1 < b_data_nlba sample_backend"
      "0 < b_data_nlba sample_backend" "0 < b_meta_nlba sample_backend"
      "o_write_log_entries sample_opts \<noteq> - 1"
      "\<forall>i. block_ok sample_backend i \<longrightarrow> ld_u64 (mem w') (backend_direct (Some sample_backend) i) = 0"
    by (simp_all add: sample_backend_fields sample_opts_def w'(2))
  obtain s where s: "pmb_open sample_nvml sample_uc sample_heap [] (Some sample_opts) sample_world = Some (Inr (0, Inr s))"
      "pool_inv s" "bck s = sample_backend" "slot_ids s = {1..ucast (o_write_log_entries sample_opts)}" "max_key_len s = o_max_key_len sample_opts"
      "max_val_len s = o_max_val_len sample_opts" "meta_max_key_len s = o_meta_max_key_len sample_opts"
      "meta_max_val_len s = o_meta_max_val_len sample_opts"
    using open_new [OF sample_heap_ok w'(1) sample_layout h(1,3-6), of sample_uc "[]"] by blast
  have ids: "slot_ids s = {1..16}"
    using s(4) by (simp add: sample_opts_def)
  then have "slot_ids s \<noteq> {}"
    by simp
  with s(2) obtain k s0 where b: "pmb_tx_begin (Some s) (Some 0) = (PMB_OK, Some k, Some s0)" "tx_holds s0 k PROCESSING []"
      "slot_size s0 k = 24" "k \<in> slot_ids s" "\<forall>j\<in>slot_ids s. k \<le> j"
      "\<exists>l m p. s0 = s\<lparr>op_log := (op_log s)\<lparr>tx_slots_list := l\<rparr>, mem := m, plog := p\<rparr>"
    by (rule begin_facts [where c = 0])
  have k: "k = 1"
    using b(4,5) unfolding ids by (auto intro!: antisym)
  have f: "bck s0 = sample_backend" "max_key_len s0 = 64" "max_val_len s0 = 1024" "meta_max_key_len s0 = 64" "meta_max_val_len s0 = 1024"
    using b(6) s(3,5-8) by (auto simp: sample_opts_def)
  have slot: "tx_slot_ptr s0 1 = 0x10002000" "slot_cap s0 = 0x800000"
    by (simp_all add: tx_slot_ptr_def backend_tx_direct_def f(1) sample_backend_fields ptr_add_def)
  have blk: "block_ok sample_backend 1" "block_len sample_backend 1 = 4096" "backend_direct (Some sample_backend) 1 = 0x18003000"
    by (simp_all add: backend_direct_def sample_backend_fields ptr_add_def block_ok_def sample_layout data_id_def block_len_def)
  have "tx_ok s0 1"
    using b(2) k by (simp add: tx_holds_def)
  then have "clash_args s0 1 1 ?kv ?kv"
    using b(3) slot by (simp add: clash_args_def put_args_def client_bufs_def meta_args_def tput_bad_args_def sample_pair_def apart_def
        tx_ok_def f blk NULL_def k not_less) (simp add: sample_backend_fields)
  moreover have "?kv\<lparr>p_blk_id := 1\<rparr> = sample_pair 1 0 5"
    by (simp add: sample_pair_def)
  ultimately show ?thesis
    using new_store_meta_put_overwrites [OF sample_checksum sample_heap_ok w'(1) sample_layout h(1,2,4-6), of "[]" 0] s(1) b(1) k by fastforce
qed

end
