(* ===== verification/Examples.thy ===== *)
theory Examples
  imports Clash
begin

text \<open>
  The example programs of \<open>src/example\<close>: \<open>kvtest\<close>, \<open>kvtest_updinpl\<close>, \<open>pool_list\<close> and
  \<open>pool_inspect\<close>. A program is a function of its arguments, of what the stack and \<open>malloc\<close> give
  it (variables that are read before they are set, the two buffers) and of the parameters of
  the library; its result is the exit status, the lines printed and the process at the end.
\<close>

section \<open>The C library\<close>

text \<open>\<open>%0<w>d\<close> of a number that is not negative, and \<open>snprintf\<close> of a text.\<close>

fun dec :: "nat \<Rightarrow> u8 list" where
  "dec n = (if n < 10 then [of_nat (48 + n)] else dec (n div 10) @ [of_nat (48 + n mod 10)])"

declare dec.simps [simp del]

definition fmt_0d :: "nat \<Rightarrow> nat \<Rightarrow> u8 list" where
  "fmt_0d w i = replicate (w - length (dec i)) 48 @ dec i"

definition snprintf :: "memory \<Rightarrow> ptr \<Rightarrow> nat \<Rightarrow> u8 list \<Rightarrow> memory" where
  "snprintf m p n txt = (if n = 0 then m else st_bytes m p (take (n - 1) txt @ [0]))"

text \<open>What \<open>%s\<close> prints: the bytes up to the first 0, \<open>None\<close> when there is none.\<close>

partial_function (option) c_string :: "memory \<Rightarrow> ptr \<Rightarrow> u8 list option" where
  "c_string m p = (if m p = 0 then Some [] else Option.bind (c_string m (p + 1)) (\<lambda>bs. Some (m p # bs)))"

text \<open>\<open>strtol\<close> with base 10, and \<open>atoi\<close>, which is its value as an \<open>int\<close>.\<close>

definition c_isspace :: "char \<Rightarrow> bool" where
  "c_isspace c \<longleftrightarrow> c = CHR 0x20 \<or> (9 \<le> (of_char c :: nat) \<and> (of_char c :: nat) \<le> 13)"

definition c_digit :: "char \<Rightarrow> bool" where
  "c_digit c \<longleftrightarrow> 48 \<le> (of_char c :: nat) \<and> (of_char c :: nat) \<le> 57"

definition strtol :: "string \<Rightarrow> int" where
  "strtol str =
     (let t = dropWhile c_isspace str;
          neg = (t \<noteq> [] \<and> hd t = CHR ''-'');
          t = (if t \<noteq> [] \<and> (hd t = CHR ''-'' \<or> hd t = CHR ''+'') then tl t else t);
          v = fold (\<lambda>c a. 10 * a + (of_char c - 48)) (takeWhile c_digit t) 0
      in max (- (2 ^ 63)) (min (2 ^ 63 - 1) (if neg then - v else v)))"

definition atoi :: "string \<Rightarrow> u32" where
  "atoi str = word_of_int (strtol str)"

section \<open>Output\<close>

datatype out_line =
    Usage
  | Open_failed u8
  | Open_failed_text string
  | Saved_object u64 u64 "u8 list option"
  | Saved_listed u64 "u8 list option" u32
  | Saved_key u64 "u8 list option"
  | Put_failed nat string
  | Object_read u64 u64 "u8 list option" u64
  | No_object nat
  | Saved_data u64 u32
  | Data_failed nat
  | Saved_meta u64 u32
  | Meta_failed nat
  | Value_read u64 "u8 list option" u32 "u8 list option"
  | Inspected inspect_line

text \<open>The loop over an iterator that all but \<open>pool_inspect\<close> have; \<open>pr\<close> is the line they print.\<close>

partial_function (option) show_saved ::
  "(pmb_handle \<Rightarrow> pmb_pair \<Rightarrow> out_line) \<Rightarrow> pmb_iter option \<Rightarrow> pmb_handle \<Rightarrow> pmb_pair \<Rightarrow> out_line list \<Rightarrow>
   (pmb_iter option \<times> pmb_handle \<times> pmb_pair \<times> out_line list) option" where
  "show_saved pr it s p out =
     (if pmb_iter_valid it = 0 then Some (it, s, p, out)
      else let p = (case snd (pmb_iter_get it s (Some p)) of None \<Rightarrow> p | Some q \<Rightarrow> q);
               out = (if p_blk_id p \<noteq> 0 then out @ [pr s p] else out);
               (_, it, s) = pmb_iter_next it s
           in show_saved pr it s (p\<lparr>p_blk_id := 0\<rparr>) out)"

text \<open>Opening the store: the program ends with status 1 and a message when that fails.\<close>

definition with_store ::
  "nvml \<Rightarrow> checksum_fn \<Rightarrow> open_heap \<Rightarrow> nat list \<Rightarrow> pmb_opts \<Rightarrow> world \<Rightarrow> (u8 \<Rightarrow> out_line) \<Rightarrow>
   (pmb_handle \<Rightarrow> (crash + (int \<times> out_line list \<times> world)) option) \<Rightarrow> (crash + (int \<times> out_line list \<times> world)) option" where
  "with_store nv uc hp sched opts w failed body =
     (case pmb_open nv uc hp sched (Some opts) w of
        None \<Rightarrow> None
      | Some (Inl c) \<Rightarrow> Some (Inl c)
      | Some (Inr (err, Inl w)) \<Rightarrow> Some (Inr (1, [failed err], w))
      | Some (Inr (err, Inr s)) \<Rightarrow>
          if err \<noteq> PMB_OK then Some (Inr (1, [failed err], world.truncate s)) else body s)"

definition close_store :: "pmb_handle \<Rightarrow> world" where
  "close_store s = (case snd (pmb_close (Some s)) of None \<Rightarrow> world.truncate s | Some s \<Rightarrow> world.truncate s)"

text \<open>The iteration over the saved objects at the start of \<open>kvtest\<close> and \<open>kvtest_updinpl\<close>.\<close>

definition iterate :: "(pmb_handle \<Rightarrow> pmb_pair \<Rightarrow> out_line) \<Rightarrow> bool \<Rightarrow> pmb_handle \<Rightarrow> pmb_pair \<Rightarrow>
    (pmb_handle \<times> pmb_pair \<times> out_line list) option" where
  "iterate pr malloc_ok s p =
     (let (it, h) = pmb_iter_open malloc_ok (Some s) 0;
          s = (case h of None \<Rightarrow> s | Some s \<Rightarrow> s)
      in if it \<noteq> None
         then Option.bind (show_saved pr it s p []) (\<lambda>(it, s, p, out). Some (snd (pmb_iter_close it s), p, out))
         else Some (s, p, []))"

text \<open>The calls that begin, commit and execute the one transaction; their status is not looked at.\<close>

definition begin_tx :: "u64 \<Rightarrow> pmb_handle \<Rightarrow> u64 \<times> pmb_handle" where
  "begin_tx tx0 s = (case pmb_tx_begin (Some s) (Some tx0) of (_, tx, h) \<Rightarrow>
     (case tx of None \<Rightarrow> tx0 | Some t \<Rightarrow> t, case h of None \<Rightarrow> s | Some s \<Rightarrow> s))"

definition end_tx :: "checksum_fn \<Rightarrow> u64 \<Rightarrow> pmb_handle \<Rightarrow> crash + pmb_handle" where
  "end_tx uc tx_id s =
     (let (_, h) = pmb_tx_commit uc (Some s) tx_id;
          s = (case h of None \<Rightarrow> s | Some s \<Rightarrow> s)
      in bindR (pmb_tx_execute uc (Some s) tx_id) (\<lambda>(_, h). Inr (case h of None \<Rightarrow> s | Some s \<Rightarrow> s)))"

definition get_pair :: "pmb_handle \<Rightarrow> u64 \<Rightarrow> pmb_pair \<Rightarrow> pmb_pair" where
  "get_pair s blk_id p = (case snd (pmb_get (Some s) blk_id (Some p)) of None \<Rightarrow> p | Some q \<Rightarrow> q)"

section \<open>kvtest\<close>

definition kvtest_opts :: "string \<Rightarrow> pmb_opts" where
  "kvtest_opts path = \<lparr>o_path = Some path, o_data_size = 2 * 1024 * 1024 * 1024, o_meta_size = 2 * 1024 * 1024 * 1024 div 10,
     o_write_log_entries = 32, o_max_key_len = 128, o_max_val_len = 64 * 1024,
     o_meta_max_key_len = 128, o_meta_max_val_len = 64 * 1024, o_sync_type = PMB_NOSYNC\<rparr>"

definition kvtest_put :: "checksum_fn \<Rightarrow> ptr \<Rightarrow> ptr \<Rightarrow> u64 \<Rightarrow> nat \<Rightarrow>
    pmb_handle \<times> pmb_pair \<times> u64 list \<times> out_line list \<Rightarrow> pmb_handle \<times> pmb_pair \<times> u64 list \<times> out_line list" where
  "kvtest_put uc key val tx_id i = (\<lambda>(s, p, ids, out).
     let m = snprintf (mem s) key 128 (fmt_0d 126 i);
         m = snprintf m val (64 * 1024) (fmt_0d 131 i);
         p = p\<lparr>p_id := of_nat i\<rparr>
     in case pmb_tput uc (Some (s\<lparr>mem := m\<rparr>)) tx_id (Some p) of
          (status, Some p, Some s) \<Rightarrow>
            (if status = PMB_OK then (s, p\<lparr>p_blk_id := 0\<rparr>, ids @ [p_blk_id p], out)
             else (s, p, ids @ [0], out @ [Put_failed i (pmb_strerror (uint status))]))
        | _ \<Rightarrow> (s, p, ids, out))"

definition kvtest_get :: "pmb_handle \<Rightarrow> u64 list \<Rightarrow> nat \<Rightarrow> pmb_pair \<times> out_line list \<Rightarrow> pmb_pair \<times> out_line list" where
  "kvtest_get s ids i = (\<lambda>(p, out).
     if ids ! i \<noteq> 0 then
       (let p = get_pair s (ids ! i) p
        in (p, out @ [Object_read (ids ! i) (p_id p) (c_string (mem s) (p_key p)) (p_blk_id p)]))
     else (p, out @ [No_object i]))"

text \<open>\<open>main\<close> between the iteration and \<open>pmb_close\<close>: one transaction with 128 puts, then 128 gets.\<close>

definition kvtest_body :: "checksum_fn \<Rightarrow> ptr \<Rightarrow> ptr \<Rightarrow> u64 \<Rightarrow> pmb_handle \<Rightarrow> pmb_pair \<Rightarrow> out_line list \<Rightarrow>
    crash + (pmb_handle \<times> out_line list)" where
  "kvtest_body uc key val tx0 s p out =
     (let p = p\<lparr>p_offset := 0, p_key := key, p_val := val, p_key_len := 128, p_val_len := 64 * 1024 div 4\<rparr>;
          (tx_id, s) = begin_tx tx0 s;
          (s, p, ids, out) = fold (kvtest_put uc key val tx_id) [0..<128] (s, p, [], out)
      in bindR (end_tx uc tx_id s) (\<lambda>s. Inr (s, snd (fold (kvtest_get s ids) [0..<128] (p, out)))))"

definition kvtest_main ::
  "nvml \<Rightarrow> checksum_fn \<Rightarrow> open_heap \<Rightarrow> nat list \<Rightarrow> bool \<Rightarrow> ptr \<Rightarrow> ptr \<Rightarrow> u64 \<Rightarrow> pmb_pair \<Rightarrow> string list \<Rightarrow> world \<Rightarrow>
   (crash + (int \<times> out_line list \<times> world)) option" where
  "kvtest_main nv uc hp sched malloc_ok key val tx0 p0 argv w =
     (if length argv \<noteq> 2 then Some (Inr (1, [Usage], w))
      else with_store nv uc hp sched (kvtest_opts (argv ! 1)) w (\<lambda>err. Open_failed_text (pmb_strerror (uint err))) (\<lambda>s.
        Option.bind
          (iterate (\<lambda>s p. Saved_object (p_blk_id p) (p_id p) (c_string (mem s) (p_key p))) malloc_ok s (p0\<lparr>p_blk_id := 0\<rparr>))
          (\<lambda>(s, p, out). Some (bindR (kvtest_body uc key val tx0 s p out) (\<lambda>(s, out). Inr (0, out, close_store s))))))"

section \<open>kvtest-updinpl\<close>

text \<open>The program does not set \<open>sync_type\<close>: it is what the stack held.\<close>

definition updinpl_opts :: "u8 \<Rightarrow> string \<Rightarrow> pmb_opts" where
  "updinpl_opts sync0 path = \<lparr>o_path = Some path, o_data_size = 1024 * 1024 * 1024, o_meta_size = 1024 * 1024 * 1024,
     o_write_log_entries = 32, o_max_key_len = 128, o_max_val_len = 128 * 1024,
     o_meta_max_key_len = 128, o_meta_max_val_len = 4 * 1024, o_sync_type = sync0\<rparr>"

text \<open>
  One round: the pairs of data and meta object, the block identifiers of the two, the output. The
  line for the meta object prints the block and the offset of the data object.
\<close>

definition updinpl_round :: "checksum_fn \<Rightarrow> ptr \<Rightarrow> ptr \<Rightarrow> u64 \<Rightarrow> nat \<Rightarrow>
    pmb_handle \<times> pmb_pair \<times> pmb_pair \<times> u64 \<times> u64 \<times> out_line list \<Rightarrow>
    pmb_handle \<times> pmb_pair \<times> pmb_pair \<times> u64 \<times> u64 \<times> out_line list" where
  "updinpl_round uc key val tx_id i = (\<lambda>(s, p, m, blk_id, m_blk_id, out).
     let mm = snprintf (mem s) key 128 (fmt_0d 126 i);
         s = s\<lparr>mem := snprintf mm val (4 * 1024) (fmt_0d 131 i)\<rparr>;
         (s, p, blk_id, out) =
           (case pmb_tput uc (Some s) tx_id (Some p) of
              (status, Some p, Some s) \<Rightarrow>
                (if status = PMB_OK
                 then (s, p\<lparr>p_offset := p_offset p + 4 * 1024\<rparr>, p_blk_id p, out @ [Saved_data (p_blk_id p) (p_offset p)])
                 else (s, p, 0, out @ [Data_failed i]))
            | _ \<Rightarrow> (s, p, blk_id, out))
     in case pmb_tput_meta uc (Some s) tx_id (Some m) of
          (status, Some m, Some s) \<Rightarrow>
            (if status = PMB_OK
             then (s, p, m\<lparr>p_offset := p_offset m + 4 * 1024\<rparr>, blk_id, p_blk_id m, out @ [Saved_meta (p_blk_id p) (p_offset p)])
             else (s, p, m, blk_id, m_blk_id, out @ [Meta_failed i]))
        | _ \<Rightarrow> (s, p, m, blk_id, m_blk_id, out))"

definition value_line :: "pmb_handle \<Rightarrow> u64 \<Rightarrow> pmb_pair \<Rightarrow> out_line" where
  "value_line s blk_id p = Value_read blk_id (c_string (mem s) (p_key p)) (p_val_len p) (c_string (mem s) (p_val p))"

definition updinpl_body :: "checksum_fn \<Rightarrow> ptr \<Rightarrow> ptr \<Rightarrow> u64 \<Rightarrow> u64 \<Rightarrow> u64 \<Rightarrow> pmb_pair \<Rightarrow> pmb_handle \<Rightarrow> pmb_pair \<Rightarrow> out_line list \<Rightarrow>
    crash + (pmb_handle \<times> out_line list)" where
  "updinpl_body uc key val tx0 blk0 mblk0 m0 s p out =
     (let p = p\<lparr>p_offset := 0, p_key := key, p_val := val, p_key_len := 128, p_val_len := 4 * 1024\<rparr>;
          m = m0\<lparr>p_blk_id := 0, p_offset := 0, p_key := key, p_val := val, p_key_len := 128, p_val_len := 4 * 1024\<rparr>;
          (tx_id, s) = begin_tx tx0 s;
          (s, p, m, blk_id, m_blk_id, out) = fold (updinpl_round uc key val tx_id) [0..<128 * 1024 div (4 * 1024)] (s, p, m, blk0, mblk0, out)
      in bindR (end_tx uc tx_id s) (\<lambda>s.
           Inr (s, out @ [value_line s blk_id (get_pair s blk_id p), value_line s m_blk_id (get_pair s m_blk_id m)])))"

definition updinpl_main ::
  "nvml \<Rightarrow> checksum_fn \<Rightarrow> open_heap \<Rightarrow> nat list \<Rightarrow> bool \<Rightarrow> ptr \<Rightarrow> ptr \<Rightarrow> u8 \<Rightarrow> u64 \<Rightarrow> u64 \<Rightarrow> u64 \<Rightarrow> pmb_pair \<Rightarrow> pmb_pair \<Rightarrow>
   string list \<Rightarrow> world \<Rightarrow> (crash + (int \<times> out_line list \<times> world)) option" where
  "updinpl_main nv uc hp sched malloc_ok key val sync0 tx0 blk0 mblk0 p0 m0 argv w =
     (if length argv \<noteq> 2 then Some (Inr (1, [Usage], w))
      else with_store nv uc hp sched (updinpl_opts sync0 (argv ! 1)) w Open_failed (\<lambda>s.
        let s = s\<lparr>mem := memset (mem s) val 0 (128 * 1024)\<rparr>
        in Option.bind (iterate (\<lambda>s p. Saved_key (p_blk_id p) (c_string (mem s) (p_key p))) malloc_ok s (p0\<lparr>p_blk_id := 0\<rparr>))
          (\<lambda>(s, p, out). Some (bindR (updinpl_body uc key val tx0 blk0 mblk0 m0 s p out) (\<lambda>(s, out). Inr (0, out, close_store s))))))"

section \<open>pool-list and pool-inspect\<close>

text \<open>Both leave the fields of the meta region and \<open>sync_type\<close> as the stack held them, here \<open>o0\<close>.\<close>

definition pool_opts :: "pmb_opts \<Rightarrow> string list \<Rightarrow> pmb_opts" where
  "pool_opts o0 argv = o0\<lparr>o_max_key_len := atoi (argv ! 1), o_max_val_len := atoi (argv ! 2), o_write_log_entries := 32,
     o_path := Some (argv ! 4), o_data_size := word_of_int (strtol (argv ! 3))\<rparr>"

definition pool_list_main ::
  "nvml \<Rightarrow> checksum_fn \<Rightarrow> open_heap \<Rightarrow> nat list \<Rightarrow> bool \<Rightarrow> pmb_opts \<Rightarrow> pmb_pair \<Rightarrow> string list \<Rightarrow> world \<Rightarrow>
   (crash + (int \<times> out_line list \<times> world)) option" where
  "pool_list_main nv uc hp sched malloc_ok o0 p0 argv w =
     (if length argv \<noteq> 5 then Some (Inr (1, [Usage], w))
      else with_store nv uc hp sched (pool_opts o0 argv) w Open_failed (\<lambda>s.
        let (it, h) = pmb_iter_open malloc_ok (Some s) 0;
            s = (case h of None \<Rightarrow> s | Some s \<Rightarrow> s)
        in Option.bind (show_saved (\<lambda>s p. Saved_listed (p_blk_id p) (c_string (mem s) (p_key p)) (p_key_len p)) it s p0 [])
             (\<lambda>(it, s, p, out). Some (Inr (0, out, close_store (snd (pmb_iter_close it s)))))))"

definition pool_inspect_main ::
  "nvml \<Rightarrow> checksum_fn \<Rightarrow> open_heap \<Rightarrow> nat list \<Rightarrow> pmb_opts \<Rightarrow> string list \<Rightarrow> world \<Rightarrow>
   (crash + (int \<times> out_line list \<times> world)) option" where
  "pool_inspect_main nv uc hp sched o0 argv w =
     (if length argv \<noteq> 6 then Some (Inr (1, [Usage], w))
      else let blk_id = word_of_int (strtol (argv ! 5))
           in with_store nv uc hp sched (pool_opts o0 argv) w Open_failed (\<lambda>s.
                Some (bindR (pmb_inspect (Some s) blk_id) (\<lambda>ls. Inr (0, map Inspected ls, close_store s)))))"

end
