(* ===== verification/Programs.thy ===== *)
theory Programs
  imports Examples
begin

text \<open>
  What the example programs print: \<open>pool_list\<close> the objects of the store, \<open>kvtest\<close> on a new store
  the 128 objects it has put.
\<close>

section \<open>The listing loop\<close>

definition pair_of :: "pmb_handle \<Rightarrow> u64 \<Rightarrow> pmb_pair" where
  "pair_of s i = \<lparr>p_blk_id = i, p_id = h_id (blk_hdr s i), p_offset = 0, p_key = blk_ptr s i + 32, p_key_len = h_key_len (blk_hdr s i),
     p_val = (if h_val_len (blk_hdr s i) = 0 then NULL else if i < total_objs_count s then blk_ptr s i + 32 + unat (max_key_len s)
       else blk_ptr s i + 32 + unat (h_key_len (blk_hdr s i))), p_val_len = h_val_len (blk_hdr s i)\<rparr>"

lemma get_pair_of:
  assumes "block_ok (bck s) i" and "present s i"
  shows "pmb_get (Some s) i (Some p) = (PMB_OK, Some (pair_of s i))"
  using pmb_get_present [OF assms, of p] by (simp add: pair_of_def)

lemma set_iter_list_simps [simp]:
  "mem (set_iter_list r l s) = mem s" "bck (set_iter_list r l s) = bck s" "total_objs_count (set_iter_list r l s) = total_objs_count s"
  "max_key_len (set_iter_list r l s) = max_key_len s" "present (set_iter_list r l s) = present s" "pair_of (set_iter_list r l s) = pair_of s"
  by (simp_all add: set_iter_list_def present_def pair_of_def fun_eq_iff)

lemma show_saved_done: "pmb_iter_valid it = 0 \<Longrightarrow> show_saved pr it s p out = Some (it, s, p, out)"
  by (subst show_saved.simps) simp

lemma show_saved_round:
  assumes "it_pos it \<noteq> 0" and "block_ok (bck s) (it_pos it)" and "present s (it_pos it)"
    and "pmb_iter_next (Some it) s = (st, it', s')"
  shows "show_saved pr (Some it) s p out =
    show_saved pr it' s' ((pair_of s (it_pos it))\<lparr>p_blk_id := 0\<rparr>) (out @ [pr s (pair_of s (it_pos it))])"
proof -
  have v: "pmb_iter_valid (Some it) \<noteq> 0"
    using assms(1) by (simp add: pmb_iter_valid_def)
  then have "pmb_iter_get (Some it) s (Some p) = (PMB_OK, Some (pair_of s (it_pos it)))"
    using get_pair_of [OF assms(2,3), of p] by (simp add: pmb_iter_get_def)
  moreover have "p_blk_id (pair_of s (it_pos it)) \<noteq> 0"
    using assms(1) by (simp add: pair_of_def)
  ultimately show ?thesis
    using v assms(4) by (subst show_saved.simps) (simp add: Let_def)
qed

lemma show_saved_all:
  assumes "iter_list s (it_region it) = Some l" and "caslist_wf l" and "it_pos it \<noteq> 0" and "card (caslist_ids l) \<le> n"
    and "\<forall>i\<in>insert (it_pos it) (caslist_ids l). block_ok (bck s) i \<and> present s i"
    and "\<And>s l r p. pr (set_iter_list r l s) p = pr s p"
  shows "\<exists>it' s' p'. show_saved pr (Some it) s p out = Some (it', s', p', out @ map (\<lambda>i. pr s (pair_of s i)) (it_pos it # drain caslist_take n l))"
  using assms
proof (induction n arbitrary: it s l p out)
  case 0
  then have "caslist_take l = None"
    using cas.finite_ids [OF 0(2)] cas.pop_least [OF 0(2)] by (cases "caslist_take l") fastforce+
  then show ?case
    using 0 show_saved_round [OF 0(3), of s] iter_next_take [OF 0(1)] by (simp add: show_saved_done pmb_iter_valid_def)
next
  case (Suc n)
  show ?case
  proof (cases "caslist_take l")
    case None
    then show ?thesis
      using Suc.prems show_saved_round [OF Suc.prems(3), of s] iter_next_take [OF Suc.prems(1)] by (simp add: show_saved_done pmb_iter_valid_def)
  next
    case (Some r)
    obtain v l' where t: "caslist_take l = Some (v, l')"
      using Some by (cases r) auto
    let ?it = "it\<lparr>it_pos := v\<rparr>" and ?s = "set_iter_list (it_region it) (Some l') s"
    have v: "caslist_wf l'" "v \<noteq> 0" "v \<in> caslist_ids l"
      using cas.pop_invar [OF Suc.prems(2) t] cas.ids_ok [OF Suc.prems(2)] cas.pop_least [OF Suc.prems(2) t]
      by (auto simp: valid_id_def)
    have nxt: "pmb_iter_next (Some it) s = (PMB_OK, Some ?it, ?s)"
      using iter_next_take [OF Suc.prems(1)] t by simp
    have ids: "caslist_ids l' = caslist_ids l - {v}"
      by (rule cas.pop_ids [OF Suc.prems(2) t])
    have here: "block_ok (bck s) (it_pos it)" "present s (it_pos it)"
      using Suc.prems(5) by simp_all
    have l': "iter_list ?s (it_region ?it) = Some l'" "it_pos ?it \<noteq> 0" "card (caslist_ids l') \<le> n"
        "\<forall>i\<in>insert (it_pos ?it) (caslist_ids l'). block_ok (bck ?s) i \<and> present ?s i"
      using v Suc.prems(4,5) cas.finite_ids [OF Suc.prems(2)] ids by simp_all
    obtain it' s' p' where "show_saved pr (Some ?it) ?s ((pair_of s (it_pos it))\<lparr>p_blk_id := 0\<rparr>) (out @ [pr s (pair_of s (it_pos it))]) =
        Some (it', s', p', (out @ [pr s (pair_of s (it_pos it))]) @ map (\<lambda>i. pr ?s (pair_of ?s i)) (it_pos ?it # drain caslist_take n l'))"
      using Suc.IH [OF l'(1) v(1) l'(2-4) Suc.prems(6)] by blast
    then show ?thesis
      using show_saved_round [OF Suc.prems(3) here nxt] t Suc.prems(6) by simp
  qed
qed

section \<open>Text\<close>

lemma ld_bytes_Suc: "ld_bytes m p (Suc n) = m p # ld_bytes m (p + 1) n"
  by (rule nth_equalityI) (auto simp: ld_bytes_def nth_Cons' simp del: upt_Suc)

lemma c_string_ld:
  assumes "ld_bytes m p (Suc (length bs)) = bs @ [0]" and "0 \<notin> set bs"
  shows "c_string m p = Some bs"
  using assms
proof (induction bs arbitrary: p)
  case Nil
  then show ?case
    by (subst c_string.simps) (simp add: ld_bytes_def)
next
  case (Cons b bs)
  have "m p = b" "ld_bytes m (p + 1) (Suc (length bs)) = bs @ [0]"
    using Cons.prems(1) by (simp_all add: ld_bytes_Suc)
  then show ?case
    using Cons.IH [of "p + 1"] Cons.prems(2) by (subst c_string.simps) simp
qed

lemma dec_set: "0 \<notin> set (dec n)"
proof (induction n rule: dec.induct)
  case (1 n)
  have "of_nat (48 + k) \<noteq> (0 :: u8)" if "k < 10" for k
  proof -
    have "unat (of_nat (48 + k) :: u8) = 48 + k"
      using that unat_of_nat [where 'a = 8, of "48 + k"] by (simp del: of_nat_add)
    then show ?thesis
      by (metis add_is_0 unat_0 zero_neq_numeral)
  qed
  from this [of n] this [of "n mod 10"] show ?case
    using 1 by (subst dec.simps) auto
qed

lemma dec_length: "n < 1000 \<Longrightarrow> length (dec n) \<le> 3"
  using dec.simps [of n] dec.simps [of "n div 10"] dec.simps [of "n div 10 div 10"] by simp

lemma fmt_length: "n < 1000 \<Longrightarrow> 3 \<le> w \<Longrightarrow> length (fmt_0d w n) = w"
  using dec_length [of n] by (simp add: fmt_0d_def)

lemma fmt_nonzero: "0 \<notin> set (fmt_0d w n)"
  using dec_set by (auto simp: fmt_0d_def)

section \<open>Writes outside the pool\<close>

definition outside :: "pmb_handle \<Rightarrow> ptr \<Rightarrow> nat \<Rightarrow> bool" where
  "outside s q n \<longleftrightarrow> (\<forall>i. block_ok (bck s) i \<longrightarrow> apart (blk_ptr s i) (block_len (bck s) i) q n) \<and>
     (\<forall>t. slot_ok (bck s) t \<longrightarrow> apart (backend_tx_direct (Some (bck s)) t) (slot_cap s) q n)"

text \<open>The client may write to its own memory at any time.\<close>

lemma rel_client:
  assumes rel: "rel U K s a" and out: "outside s q n" and m: "only q n (mem s) m"
  shows "rel U K (s\<lparr>mem := m\<rparr>) a"
proof -
  let ?s = "s\<lparr>mem := m\<rparr>"
  have cs: "conf_same s ?s"
    by (simp add: conf_same_def)
  have blk: "same_on (blk_ptr s i) (block_len (bck s) i) (mem ?s) (mem s)" if "block_ok (bck s) i" for i
    using out that only_apart [OF m] apart_sym unfolding outside_def by simp
  have slot: "same_on (backend_tx_direct (Some (bck s)) t) (slot_cap s) (mem s) m" if "slot_ok (bck s) t" for t
    using out that only_apart [OF m] apart_sym unfolding outside_def by (blast intro: same_on_sym)
  have st: "store ?s = store s"
    using store_same [OF cs relD(3) [OF rel] blk] by blast
  have ok: "store_ok ?s"
    unfolding store_ok_def
  proof (intro allI impI)
    fix i
    assume "block_ok (bck ?s) i \<and> present ?s i"
    then show "in_block ?s i"
      using block_same_obj(2,3) [OF cs _ blk, of i] relD(3) [OF rel] by (simp add: store_ok_def)
  qed
  have "tx_conc ?s k t" if k: "running a k = Some t" for k t
  proof -
    note tc = relD(9) [OF rel k]
    have "same_on (tx_slot_ptr s k) (slot_cap s) (mem s) (mem ?s)"
      using slot [OF tx_index(2) [OF tx_conc_ok [OF tc]]] by (simp add: tx_slot_ptr_def)
    moreover have "tx_holds s k (if t_done t then COMMITED else PROCESSING) (t_ops t)"
      using tc unfolding tx_conc_def by blast
    ultimately have "tx_holds ?s k (if t_done t then COMMITED else PROCESSING) (t_ops t)"
      using tx_holds_mem_only(1) mem_only_upd(2) by metis
    moreover have "rec_ok ?s r = rec_ok s r" if "inplaced r \<noteq> {}" for r
      using that by (cases r) simp_all
    ultimately show ?thesis
      using tc by (simp add: tx_conc_def)
  qed
  moreover have "slots_ok ?s" "pend_ok ?s" "free_ids ?s = free_ids s" "stray_ids ?s = stray_ids s"
    using slots_ok_cong [OF relD(2) [OF rel], of ?s] relD(6) [OF rel] by (simp_all add: pend_ok_def free_ids_def stray_ids_def)
  ultimately show ?thesis
    using relD(1,4,5,7,8,10-12) [OF rel] st ok unfolding rel_def by simp
qed

section \<open>The puts of kvtest\<close>

definition kv_key :: "nat \<Rightarrow> u8 list" where
  "kv_key i = fmt_0d 126 i @ [0]"

lemma kv_key_length: "i < 1000 \<Longrightarrow> length (kv_key i) = 127"
  by (simp add: kv_key_def fmt_length)

text \<open>
  The buffers are outside the pool and apart from each other; the store has the limits that
  the program asks for, more than 128 data blocks, and slots for 128 records.
\<close>

definition kv_env :: "pmb_handle \<Rightarrow> ptr \<Rightarrow> ptr \<Rightarrow> bool" where
  "kv_env s key val \<longleftrightarrow> key \<noteq> NULL \<and> val \<noteq> NULL \<and> outside s key 128 \<and> outside s val 16384 \<and> apart key 128 val 16384 \<and>
     max_key_len s = 128 \<and> max_val_len s = 65536 \<and> 24 + 128 * 24 \<le> slot_cap s \<and> 128 < unat (total_objs_count s) \<and>
     (\<forall>i. 0 < i \<longrightarrow> i < total_objs_count s \<longrightarrow> block_ok (bck s) i \<and> 32 + 128 + 65536 \<le> block_len (bck s) i)"

lemma kv_env_cong:
  assumes "bck s' = bck s" "max_key_len s' = max_key_len s" "max_val_len s' = max_val_len s" "total_objs_count s' = total_objs_count s"
  shows "kv_env s' key val = kv_env s key val"
  unfolding kv_env_def outside_def assms ..

text \<open>The state after \<open>n\<close> puts: object \<open>j\<close> is in block \<open>j + 1\<close>.\<close>

abbreviation nth_blk :: "nat \<Rightarrow> u64" where
  "nth_blk j \<equiv> of_nat (Suc j)"

definition kv_obj :: "nat \<Rightarrow> pmb_obj \<Rightarrow> bool" where
  "kv_obj j ob \<longleftrightarrow> ob_id ob = of_nat j \<and> length (ob_key ob) = 128 \<and> take 127 (ob_key ob) = kv_key j"

definition kv_tx :: "nat \<Rightarrow> open_tx \<Rightarrow> bool" where
  "kv_tx n t \<longleftrightarrow> \<not> t_done t \<and> t_ops t = map (\<lambda>j. LWrite (nth_blk j)) [0..<n] \<and> (\<forall>j<n. \<exists>ob. t_new t (nth_blk j) = Some ob \<and> kv_obj j ob)"

definition kv_pair :: "ptr \<Rightarrow> ptr \<Rightarrow> u64 \<Rightarrow> pmb_pair" where
  "kv_pair key val cid = \<lparr>p_blk_id = 0, p_id = cid, p_offset = 0, p_key = key, p_key_len = 128, p_val = val, p_val_len = 16384\<rparr>"

text \<open>
  The bytes of object \<open>j\<close> as its checksum sees them: the checksum field as zeros, identifier,
  version, the two lengths, padding, key and value. The padding of the block, the last byte of the key and the end of
  the value are what the memory \<open>m\<close> had there from the start.
\<close>

definition kv_image :: "memory \<Rightarrow> backend \<Rightarrow> ptr \<Rightarrow> ptr \<Rightarrow> nat \<Rightarrow> u8 list" where
  "kv_image m b key val j = replicate 8 0 @ le_enc 8 (of_nat j :: u64) @ le_enc 4 (1 :: u32) @ le_enc 4 (128 :: u32) @
     le_enc 4 (16384 :: u32) @ ld_bytes m (backend_direct (Some b) (nth_blk j) + 28) 4 @
     kv_key j @ ld_bytes m (key + 127) 1 @ fmt_0d 131 j @ [0] @ ld_bytes m (val + 132) 16252"

definition kv_rest :: "memory \<Rightarrow> ptr \<Rightarrow> ptr \<Rightarrow> nat \<Rightarrow> pmb_handle \<Rightarrow> bool" where
  "kv_rest m0 key val n s \<longleftrightarrow> same_on (key + 127) 1 (mem s) m0 \<and> same_on (val + 132) 16252 (mem s) m0 \<and>
     (\<forall>j<128. n \<le> j \<longrightarrow> same_on (blk_ptr s (nth_blk j) + 28) 4 (mem s) m0)"

definition kv_inv :: "u64 set \<times> u64 set \<times> u64 set \<Rightarrow> u64 set \<Rightarrow> memory \<Rightarrow> backend \<Rightarrow> u64 \<Rightarrow> ptr \<Rightarrow> ptr \<Rightarrow> out_line list \<Rightarrow> nat \<Rightarrow>
    pmb_handle \<times> pmb_pair \<times> u64 list \<times> out_line list \<Rightarrow> bool" where
  "kv_inv U K m0 b k key val out0 n = (\<lambda>(s, p, ids, out). kv_env s key val \<and> bck s = b \<and> kv_rest m0 key val n s \<and> (\<exists>cid. p = kv_pair key val cid) \<and>
     ids = map nth_blk [0..<n] \<and> out = out0 \<and> list_ids (free_list s) = {nth_blk n..total_objs_count s} \<and>
     (\<exists>a t. rel U K s a \<and> running a = [k \<mapsto> t] \<and> kv_tx n t))"

lemma nth_blk_unat: "n < 1000 \<Longrightarrow> unat (nth_blk n) = Suc n"
  using unat_of_nat [where 'a = 64, of "Suc n"] by (simp del: of_nat_Suc)

lemma snprintf_short: "length txt < n \<Longrightarrow> snprintf m p n txt = st_bytes m p (txt @ [0])"
  by (simp add: snprintf_def)

text \<open>The buffers after the two \<open>snprintf\<close>.\<close>

lemma kv_buffers:
  fixes m :: memory and key val :: ptr and n :: nat
  assumes "n < 128" and "apart key 128 val 16384"
  defines "m1 \<equiv> snprintf m key 128 (fmt_0d 126 n)"
  defines "m' \<equiv> snprintf m1 val (64 * 1024) (fmt_0d 131 n)"
  shows "only key 127 m m1" and "only val 132 m1 m'"
    and "ld_bytes m' key 128 = kv_key n @ ld_bytes m (key + 127) 1"
    and "ld_bytes m' val 16384 = fmt_0d 131 n @ [0] @ ld_bytes m (val + 132) 16252"
proof -
  have l: "length (fmt_0d 126 n) = 126" "length (fmt_0d 131 n) = 131" "length (kv_key n) = 127"
    using assms(1) by (simp_all add: fmt_length kv_key_length)
  have e: "m1 = st_bytes m key (kv_key n)" "m' = st_bytes m1 val (fmt_0d 131 n @ [0])"
    by (simp_all add: m1_def m'_def snprintf_short l kv_key_def)
  show o: "only key 127 m m1" "only val 132 m1 m'"
    unfolding e by (rule only_st_bytes; simp add: l)+
  have "ld_bytes m' key 128 = ld_bytes m1 key 128"
    by (rule ld_bytes_cong [OF only_apart [OF only_mono [OF o(2), of val 16384] apart_sym [OF assms(2)]]]) simp_all
  also have "\<dots> = ld_bytes m1 key 127 @ ld_bytes m1 (key + 127) 1"
    using ld_bytes_append [of m1 key 127 1] by simp
  also have "\<dots> = kv_key n @ ld_bytes m (key + 127) 1"
    unfolding e(1) using l(3) by (simp add: ld_st_bytes_apart)
  finally show "ld_bytes m' key 128 = kv_key n @ ld_bytes m (key + 127) 1" .
  have "ld_bytes m' val (132 + 16252) = ld_bytes m' val 132 @ ld_bytes m' (val + 132) 16252"
    by (rule ld_bytes_append)
  also have "ld_bytes m' val 132 = fmt_0d 131 n @ [0]"
    unfolding e(2) using l(2) by simp
  also have "ld_bytes m' (val + 132) 16252 = ld_bytes m1 (val + 132) 16252"
    unfolding e(2) using l(2) by (simp add: ld_st_bytes_apart)
  also have "\<dots> = ld_bytes m (val + 132) 16252"
    by (rule ld_bytes_cong [OF only_apart [OF only_mono [OF o(1), of key 128]]])
      (use assms(2) in \<open>auto simp: apart_def\<close>)
  finally show "ld_bytes m' val 16384 = fmt_0d 131 n @ [0] @ ld_bytes m (val + 132) 16252"
    by simp
qed

text \<open>They leave alone what the images take from the first memory.\<close>

lemma kv_rest_client:
  assumes rest: "kv_rest m0 key val n s" and env: "kv_env s key val" and n: "n < 128" and s1: "s1 = s\<lparr>mem := m2\<rparr>"
    and wide: "only key 128 (mem s) m1" "only val 16384 m1 m2" and thin: "only key 127 (mem s) m1" "only val 132 m1 m2"
  shows "kv_rest m0 key val n s1"
proof -
  have E: "outside s key 128" "outside s val 16384" "apart key 128 val 16384" "128 < unat (total_objs_count s)"
      "\<And>i. 0 < i \<Longrightarrow> i < total_objs_count s \<Longrightarrow> block_ok (bck s) i \<and> 32 + 128 + 65536 \<le> block_len (bck s) i"
    using env unfolding kv_env_def by blast+
  have pad: "same_on (blk_ptr s (nth_blk j) + 28) 4 m2 (mem s)" if j: "j < 128" for j
  proof -
    have "unat (nth_blk j) = Suc j"
      using j by (intro nth_blk_unat) simp
    then have "0 < nth_blk j" "nth_blk j < total_objs_count s"
      using j E(4) by (auto simp: word_less_nat_alt simp del: of_nat_Suc)
    note b = E(5) [OF this]
    have "same_on (blk_ptr s (nth_blk j)) (block_len (bck s) (nth_blk j)) m2 (mem s)"
      using b E(1,2) only_apart [OF wide(1) apart_sym] only_apart [OF wide(2) apart_sym] unfolding outside_def by (blast intro: same_on_trans)
    then show ?thesis
      by (rule same_on_sub) (use b in auto)
  qed
  have "same_on (key + 127) 1 m1 (mem s)" "same_on (key + 127) 1 m2 m1" "same_on (val + 132) 16252 m1 (mem s)" "same_on (val + 132) 16252 m2 m1"
    using thin E(3) by (auto simp: only_def same_on_def apart_def)
  then show ?thesis
    using rest pad unfolding kv_rest_def s1 by (auto intro: same_on_trans)
qed

lemma kv_put_ready:
  assumes env: "kv_env s key val" and n: "n < 128" and h: "tx_holds s k PROCESSING (map (\<lambda>j. LWrite (nth_blk j)) [0..<n])"
    and l: "list_wf (free_list s)" "list_ids (free_list s) = {nth_blk n..total_objs_count s}"
  shows "can_put s k (map (\<lambda>j. LWrite (nth_blk j)) [0..<n]) (nth_blk n) (kv_pair key val cid)"
    and "block_ok (bck s) (nth_blk n)" and "nth_blk n < total_objs_count s"
proof -
  have e: "key \<noteq> NULL" "val \<noteq> NULL" "outside s key 128" "outside s val 16384" "max_key_len s = 128" "max_val_len s = 65536"
      "24 + 128 * 24 \<le> slot_cap s" "128 < unat (total_objs_count s)"
      "\<And>i. 0 < i \<Longrightarrow> i < total_objs_count s \<Longrightarrow> block_ok (bck s) i \<and> 32 + 128 + 65536 \<le> block_len (bck s) i"
    using env unfolding kv_env_def by blast+
  have u: "unat (nth_blk n) = Suc n"
    using n by (intro nth_blk_unat) simp
  then have i: "0 < nth_blk n" "nth_blk n < total_objs_count s"
    using n e(8) by (simp_all add: word_less_nat_alt del: of_nat_Suc)
  note b = e(9) [OF i]
  show "block_ok (bck s) (nth_blk n)" "nth_blk n < total_objs_count s"
    using b i(2) by simp_all
  have ok: "tx_ok s k"
    using h by (simp add: tx_holds_def)
  have "slot_size s k = 24 + n * 24"
    using slot_size_log [OF h] by (simp add: comp_def sum_list_triv)
  then have "slot_size s k + 24 \<le> slot_cap s"
    using n e(7) by simp
  then have "put_ready s k (map (\<lambda>j. LWrite (nth_blk j)) [0..<n]) (nth_blk n)"
    using h l i(2) by (simp add: put_ready_def)
  moreover have "put_args s (nth_blk n) (kv_pair key val cid)" "client_bufs s k (kv_pair key val cid)"
    using b e(3-6) tx_index(2) [OF ok] by (simp_all add: put_args_def client_bufs_def kv_pair_def outside_def tx_slot_ptr_def del: of_nat_Suc)
  moreover have "\<not> tput_bad_args s k (kv_pair key val cid)"
    using ok e(1,2,5) by (auto simp: tput_bad_args_def kv_pair_def tx_ok_def)
  ultimately show "can_put s k (map (\<lambda>j. LWrite (nth_blk j)) [0..<n]) (nth_blk n) (kv_pair key val cid)"
    using i(2) by (simp add: can_put_def del: of_nat_Suc)
qed

text \<open>The checksum of the object, and that it is found.\<close>

lemma range_without_head: "range_without m p (8 + n) p = replicate 8 0 @ ld_bytes m (p + 8) n"
proof -
  have "le_enc 8 (0 :: u64) = replicate 8 0"
    by (simp add: numeral_eq_Suc)
  then show ?thesis
    by (simp add: range_without_def ld_bytes_append st_u64_def ld_st_bytes_apart)
qed

lemma kv_sealed_present:
  assumes ck: "checksum_spec uc ck" and nz: "ck (kv_image m0 (bck s) key val n) \<noteq> 0" and s: "sealed uc s i" "max_key_len s = 128" and i: "i = nth_blk n" "i \<noteq> 0"
    and hd: "ld_bytes (mem s) (blk_ptr s i + 8) 24 = le_enc 8 (of_nat n :: u64) @ le_enc 4 (1 :: u32) @ le_enc 4 (128 :: u32) @
      le_enc 4 (16384 :: u32) @ ld_bytes m0 (blk_ptr s i + 28) 4"
    and ob: "obj_at s i = \<lparr>ob_id = of_nat n, ob_version = 1, ob_key = kv_key n @ ld_bytes m0 (key + 127) 1,
      ob_val = fmt_0d 131 n @ [0] @ ld_bytes m0 (val + 132) 16252\<rparr>"
    and n: "n < 128" and T: "i < total_objs_count s"
  shows "present s i"
proof -
  let ?p = "blk_ptr s i"
  have key: "ld_bytes (mem s) (?p + 32) (unat (h_key_len (blk_hdr s i))) = kv_key n @ ld_bytes m0 (key + 127) 1"
    and val: "ld_bytes (mem s) (?p + 160) (unat (h_val_len (blk_hdr s i))) = fmt_0d 131 n @ [0] @ ld_bytes m0 (val + 132) 16252"
    using ob T s(2) by (simp_all add: obj_at_def val_start_def)
  have len: "unat (h_key_len (blk_hdr s i)) = 128" "unat (h_val_len (blk_hdr s i)) = 16384"
    using arg_cong [OF key, of length] arg_cong [OF val, of length] n by (simp_all add: kv_key_length fmt_length)
  have "ld_bytes (mem s) (?p + 8) (24 + (128 + 16384)) =
      ld_bytes (mem s) (?p + 8) 24 @ ld_bytes (mem s) (?p + 32) 128 @ ld_bytes (mem s) (?p + 160) 16384"
    by (simp only: ld_bytes_append add.assoc) simp
  then have "range_without (mem s) ?p (8 + (24 + (128 + 16384))) ?p = kv_image m0 (bck s) key val n"
    using key val len hd i(1) unfolding range_without_head by (simp add: kv_image_def del: of_nat_Suc)
  then have "ld_u64 (mem s) ?p = ck (kv_image m0 (bck s) key val n)"
    using s len by (simp add: sealed_def checksum_verify [OF ck])
  then show ?thesis
    using nz i(2) by (simp add: present_def hdr_at_def)
qed

lemma kv_put_call:
  fixes a :: spec_state
  assumes ck: "checksum_spec uc ck" and nz: "ck (kv_image m0 (bck s) key val n) \<noteq> 0" and n: "n < 128" and env: "kv_env s key val" and rel: "rel U K s a"
    and opn: "opn a k t" and ops: "t_ops t = map (\<lambda>j. LWrite (nth_blk j)) [0..<n]"
    and fl: "list_ids (free_list s) = {nth_blk n..total_objs_count s}" and rest: "kv_rest m0 key val n s"
    and bytes: "ld_bytes (mem s) key 128 = kv_key n @ ld_bytes m0 (key + 127) 1"
      "ld_bytes (mem s) val 16384 = fmt_0d 131 n @ [0] @ ld_bytes m0 (val + 132) 16252"
  defines "kv \<equiv> kv_pair key val (of_nat n)"
  defines "ob \<equiv> \<lparr>ob_id = of_nat n, ob_version = 1, ob_key = kv_key n @ ld_bytes m0 (key + 127) 1,
    ob_val = fmt_0d 131 n @ [0] @ ld_bytes m0 (val + 132) 16252\<rparr>"
  obtains s' where "pmb_tput uc (Some s) k (Some kv) = (PMB_OK, Some (kv\<lparr>p_blk_id := nth_blk n\<rparr>), Some s')"
    "rel U K s' (append_op k (LWrite (nth_blk n)) [nth_blk n \<mapsto> ob] a)" "kv_env s' key val" "bck s' = bck s" "kv_rest m0 key val (Suc n) s'"
    "list_ids (free_list s') = {nth_blk (Suc n)..total_objs_count s'}"
proof -
  let ?i = "nth_blk n"
  note h = opn_holds(2) [OF rel opn]
  note r = kv_put_ready [OF env n h [unfolded ops] relD(4) [OF rel] fl]
  note ready = r(1) [of "of_nat n", folded kv_def] r(2,3)
  have c: "put_ready s k (map (\<lambda>j. LWrite (nth_blk j)) [0..<n]) ?i" "put_args s ?i kv" "client_bufs s k kv" "\<not> tput_bad_args s k kv"
    using ready(1) unfolding can_put_def by blast+
  have kv: "p_blk_id kv = 0" "p_offset kv = 0" "p_id kv = of_nat n" "p_key kv = key" "p_val kv = val" "unat (p_key_len kv) = 128"
      "unat (p_val_len kv) = 16384" "p_key_len kv = 128" "p_val_len kv + p_offset kv = 16384"
    by (simp_all add: kv_def kv_pair_def)
  obtain s' where s': "pmb_tput uc (Some s) k (Some kv) = (PMB_OK, Some (kv\<lparr>p_blk_id := ?i\<rparr>), Some s')"
      "mem_only (s\<lparr>free_list := free_list s'\<rparr>) s'" "list_ids (free_list s') = list_ids (free_list s) - {?i}" "sealed uc s' ?i"
      and same: "\<And>j. block_ok (bck s) j \<Longrightarrow> j \<noteq> ?i \<Longrightarrow> same_on (blk_ptr s j) (block_len (bck s) j) (mem s') (mem s)" and win: "within s k ?i s'"
      and hd: "ld_bytes (mem s') (blk_ptr s ?i + 8) 24 = le_enc 8 (of_nat n :: u64) @ le_enc 4 (1 :: u32) @ le_enc 4 (128 :: u32) @
        le_enc 4 (16384 :: u32) @ ld_bytes (mem s) (blk_ptr s ?i + 28) 4"
      and ob: "obj_at s' ?i = \<lparr>ob_id = of_nat n, ob_version = 1, ob_key = ld_bytes (mem s) key 128, ob_val = ld_bytes (mem s) val 16384\<rparr>"
    using tput_new_effect [OF ck c(1-3) kv(1) c(4) ready(3), unfolded kv(3-9)] kv(2) by (elim exE conjE) simp
  have e: "bck s' = bck s" "max_key_len s' = max_key_len s" "max_val_len s' = max_val_len s" "total_objs_count s' = total_objs_count s"
    using mem_only_simps [OF s'(2)] by simp_all
  have u: "unat (nth_blk n) = Suc n" "unat (nth_blk (Suc n)) = Suc (Suc n)"
    using n by (simp_all add: nth_blk_unat del: of_nat_Suc)
  then have i0: "?i \<noteq> 0"
    by auto
  have E: "outside s key 128" "outside s val 16384" "max_key_len s = 128"
      "\<And>i. 0 < i \<Longrightarrow> i < total_objs_count s \<Longrightarrow> block_ok (bck s) i \<and> 32 + 128 + 65536 \<le> block_len (bck s) i" "128 < unat (total_objs_count s)"
    using env unfolding kv_env_def by blast+
  have pad: "ld_bytes (mem s) (blk_ptr s ?i + 28) 4 = ld_bytes m0 (blk_ptr s ?i + 28) 4"
    using rest n by (intro ld_bytes_cong) (simp add: kv_rest_def del: of_nat_Suc)
  have "present s' ?i"
    using nz hd pad ob bytes ready(3) E(3) e by (intro kv_sealed_present [OF ck _ s'(4) _ refl i0 _ _ n, of m0 key val]) (simp_all del: of_nat_Suc)
  moreover have "ld_bytes (mem s) key 128 = key_bytes s kv" "ld_bytes (mem s) val 16384 = val_bytes s kv"
    by (simp_all add: kv)
  ultimately have "rel U K s' (append_op k (LWrite ?i) [?i \<mapsto> ob] a)"
    using rel_put [OF ck rel opn ready(1) kv(1) s'(1)] bytes by (simp add: ob_def kv)
  moreover have "list_ids (free_list s') = {nth_blk (Suc n)..total_objs_count s'}"
    using u unfolding s'(3) fl e(4) by (auto simp: word_le_nat_alt word_unat_eq_iff simp del: of_nat_Suc)
  moreover have "kv_rest m0 key val (Suc n) s'"
  proof -
    have buf: "same_on q l (mem s') (mem s)" if "outside s q' l'" "q' \<le> q" "q + l \<le> q' + l'" for q l q' l'
    proof -
      have "apart (tx_slot_ptr s k) (slot_cap s) q' l'" "apart (blk_ptr s ?i) (block_len (bck s) ?i) q' l'"
        using that(1) tx_index(2) [of s k] h ready(2) by (simp_all add: outside_def tx_holds_def tx_slot_ptr_def)
      then have "same_on q' l' (mem s') (mem s)"
        using win unfolding within_def by blast
      then show ?thesis
        by (rule same_on_sub) (use that in simp_all)
    qed
    have "same_on (blk_ptr s' (nth_blk j) + 28) 4 (mem s') m0" if j: "j < 128" "Suc n \<le> j" for j
    proof -
      have uj: "unat (nth_blk j) = Suc j"
        using j by (intro nth_blk_unat) simp
      then have ij: "0 < nth_blk j" "nth_blk j < total_objs_count s"
        using j E(5) by (auto simp: word_less_nat_alt simp del: of_nat_Suc)
      have ne: "nth_blk j \<noteq> ?i"
        using uj u(1) j(2) by (metis Suc_le_lessD less_irrefl nat.inject)
      note b = E(4) [OF ij(1,2)]
      have "same_on (blk_ptr s (nth_blk j) + 28) 4 (mem s') (mem s)"
        using same [OF conjunct1 [OF b] ne] by (rule same_on_sub) (use b in auto)
      moreover have "same_on (blk_ptr s (nth_blk j) + 28) 4 (mem s) m0"
        using rest j by (simp add: kv_rest_def del: of_nat_Suc)
      ultimately show ?thesis
        unfolding e(1) by (rule same_on_trans)
    qed
    moreover have "same_on (key + 127) 1 (mem s') (mem s)" "same_on (val + 132) 16252 (mem s') (mem s)"
      by (rule buf [OF E(1)] buf [OF E(2)]; simp)+
    ultimately show ?thesis
      using rest unfolding kv_rest_def by (auto intro: same_on_trans)
  qed
  ultimately show ?thesis
    using that s'(1) env kv_env_cong [OF e] e(1) by blast
qed

lemma kv_put_step:
  assumes ck: "checksum_spec uc ck" and nz: "ck (kv_image m0 b key val n) \<noteq> 0" and n: "n < 128" and inv: "kv_inv U K m0 b k key val out0 n (s, p, ids, out)"
  shows "kv_inv U K m0 b k key val out0 (Suc n) (kvtest_put uc key val k n (s, p, ids, out))"
proof -
  obtain cid a t where env: "kv_env s key val" and b: "bck s = b" and rest: "kv_rest m0 key val n s" and p: "p = kv_pair key val cid"
      and ids: "ids = map nth_blk [0..<n]" and o: "out = out0"
      and fl: "list_ids (free_list s) = {nth_blk n..total_objs_count s}" and rel: "rel U K s a" and run: "running a = [k \<mapsto> t]" and tx: "kv_tx n t"
    using inv unfolding kv_inv_def by auto
  let ?m = "snprintf (mem s) key 128 (fmt_0d 126 n)"
  define m where "m = snprintf ?m val (64 * 1024) (fmt_0d 131 n)"
  define s1 where "s1 = s\<lparr>mem := m\<rparr>"
  have out: "outside s key 128" "outside s val 16384" "apart key 128 val 16384"
    using env unfolding kv_env_def by blast+
  note buf = kv_buffers [OF n out(3), of "mem s", folded m_def]
  have only: "only key 128 (mem s) ?m" "only val 16384 ?m m"
    using only_mono [OF buf(1), of key 128] only_mono [OF buf(2), of val 16384] by simp_all
  have "outside (s\<lparr>mem := ?m\<rparr>) val 16384" "only val 16384 (mem (s\<lparr>mem := ?m\<rparr>)) m"
    using out(2) only(2) by (simp_all add: outside_def)
  then have rel1: "rel U K s1 a"
    using rel_client [OF rel_client [OF rel out(1) only(1)]] by (simp add: s1_def)
  have s1: "kv_env s1 key val" "list_ids (free_list s1) = {nth_blk n..total_objs_count s1}" "bck s1 = b"
    using env fl b kv_env_cong [of s1 s] by (simp_all add: s1_def)
  have rest1: "kv_rest m0 key val n s1"
    by (rule kv_rest_client [OF rest env n s1_def only buf(1,2)])
  have m0: "ld_bytes (mem s) (key + 127) 1 = ld_bytes m0 (key + 127) 1" "ld_bytes (mem s) (val + 132) 16252 = ld_bytes m0 (val + 132) 16252"
    using rest by (auto simp: kv_rest_def intro: ld_bytes_cong)
  have opn: "opn a k t" and ops: "t_ops t = map (\<lambda>j. LWrite (nth_blk j)) [0..<n]"
    using run tx by (simp_all add: opn_def kv_tx_def)
  let ?kv = "kv_pair key val (of_nat n)" and ?i = "nth_blk n"
  let ?ob = "\<lparr>ob_id = of_nat n, ob_version = 1, ob_key = kv_key n @ ld_bytes m0 (key + 127) 1,
    ob_val = fmt_0d 131 n @ [0] @ ld_bytes m0 (val + 132) 16252\<rparr>"
  let ?t = "t\<lparr>t_ops := t_ops t @ [LWrite ?i], t_new := t_new t ++ [?i \<mapsto> ?ob]\<rparr>"
  have bytes: "ld_bytes (mem s1) key 128 = kv_key n @ ld_bytes m0 (key + 127) 1"
      "ld_bytes (mem s1) val 16384 = fmt_0d 131 n @ [0] @ ld_bytes m0 (val + 132) 16252"
    using buf(3,4) m0 by (simp_all add: s1_def)
  obtain s' where s': "pmb_tput uc (Some s1) k (Some ?kv) = (PMB_OK, Some (?kv\<lparr>p_blk_id := ?i\<rparr>), Some s')"
      "rel U K s' (append_op k (LWrite ?i) [?i \<mapsto> ?ob] a)" "kv_env s' key val" "bck s' = bck s1" "kv_rest m0 key val (Suc n) s'"
      "list_ids (free_list s') = {nth_blk (Suc n)..total_objs_count s'}"
    by (rule kv_put_call [OF ck nz [folded s1(3)] n s1(1) rel1 opn ops s1(2) rest1 bytes])
  have "kv_obj n ?ob"
    using n by (simp add: kv_obj_def kv_key_length)
  moreover have "nth_blk j \<noteq> ?i" if "j < n" for j
  proof -
    have "unat (nth_blk j) \<noteq> unat ?i"
      using that n by (simp add: nth_blk_unat del: of_nat_Suc)
    then show ?thesis
      by metis
  qed
  ultimately have "kv_tx (Suc n) ?t"
    using tx by (auto simp: kv_tx_def less_Suc_eq simp del: of_nat_Suc)
  moreover have "running (append_op k (LWrite ?i) [?i \<mapsto> ?ob] a) = [k \<mapsto> ?t]"
    using run by (simp add: append_op_def)
  moreover have "p\<lparr>p_id := of_nat n\<rparr> = ?kv" "?kv\<lparr>p_blk_id := ?i, p_blk_id := 0\<rparr> = ?kv"
    by (simp_all add: p kv_pair_def)
  then have "kvtest_put uc key val k n (s, p, ids, out) = (s', ?kv, map nth_blk [0..<Suc n], out0)"
    using s'(1) by (simp add: kvtest_put_def ids o Let_def m_def s1_def del: of_nat_Suc)
  ultimately show ?thesis
    using s'(2-6) s1(3) unfolding kv_inv_def by auto
qed

lemma kv_puts:
  assumes ck: "checksum_spec uc ck" and nz: "\<And>j. j < 128 \<Longrightarrow> ck (kv_image m0 b key val j) \<noteq> 0" and "n \<le> 128" and "kv_inv U K m0 b k key val out0 0 x"
  shows "kv_inv U K m0 b k key val out0 n (fold (kvtest_put uc key val k) [0..<n] x)"
  using assms(3)
proof (induction n)
  case 0
  then show ?case
    using assms(4) by simp
next
  case (Suc n)
  then show ?case
    using kv_put_step [OF ck nz, of n U K k out0] by (cases "fold (kvtest_put uc key val k) [0..<n] x") simp
qed

section \<open>The whole of kvtest\<close>

lemma kv_rest_begun:
  assumes s: "start_ok s" and env: "kv_env s key val" and b: "only (tx_slot_ptr s k) (slot_cap s) (mem s) (mem s0)" "k \<in> slot_ids s" "bck s0 = bck s"
  shows "kv_rest (mem s) key val 0 s0"
proof -
  have ok: "tx_ok s k"
    using s b(2) by (auto simp: start_ok_def pool_inv_def slots_ok_def tx_ok_def word_le_nat_alt word_less_nat_alt)
  have E: "outside s key 128" "outside s val 16384" "128 < unat (total_objs_count s)"
      "\<And>i. 0 < i \<Longrightarrow> i < total_objs_count s \<Longrightarrow> block_ok (bck s) i \<and> 32 + 128 + 65536 \<le> block_len (bck s) i"
    using env unfolding kv_env_def by blast+
  have "same_on (blk_ptr s (nth_blk j) + 28) 4 (mem s0) (mem s)" if j: "j < 128" for j
  proof -
    have "unat (nth_blk j) = Suc j"
      using j by (intro nth_blk_unat) simp
    then have "0 < nth_blk j" "nth_blk j < total_objs_count s"
      using j E(3) by (auto simp: word_less_nat_alt simp del: of_nat_Suc)
    note bl = E(4) [OF this]
    show ?thesis
      using slot_change_blocks(1) [OF ok b(1) conjunct1 [OF bl]] by (rule same_on_sub) (use bl in auto)
  qed
  moreover have "same_on key 128 (mem s0) (mem s)" "same_on val 16384 (mem s0) (mem s)"
    using E(1,2) tx_index(2) [OF ok] only_apart [OF b(1)] by (simp_all add: outside_def tx_slot_ptr_def)
  then have "same_on (key + 127) 1 (mem s0) (mem s)" "same_on (val + 132) 16252 (mem s0) (mem s)"
    using same_on_sub [of key 128 "mem s0" "mem s" "key + 127" 1] same_on_sub [of val 16384 "mem s0" "mem s" "val + 132" 16252] by simp_all
  ultimately show ?thesis
    by (simp add: kv_rest_def b(3))
qed

lemma kv_begin:
  assumes s: "start_ok s" "slot_ids s \<noteq> {}" and env: "kv_env s key val" and fl: "list_ids (free_list s) = {1..total_objs_count s}"
  obtains k s0 where "begin_tx tx0 s = (k, s0)" "kv_inv (space s) (slot_ids s) (mem s) (bck s) k key val out 0 (s0, kv_pair key val cid, [], out)"
proof -
  have "pool_inv s"
    using s(1) by (simp add: start_ok_def)
  then obtain k s0 where b: "pmb_tx_begin (Some s) (Some tx0) = (PMB_OK, Some k, Some s0)"
      "\<exists>l m p. s0 = s\<lparr>op_log := (op_log s)\<lparr>tx_slots_list := l\<rparr>, mem := m, plog := p\<rparr>"
      "only (tx_slot_ptr s k) (slot_cap s) (mem s) (mem s0)" "k \<in> slot_ids s"
    using s(2) by (rule begin_facts [where c = tx0])
  have f: "bck s0 = bck s" "max_key_len s0 = max_key_len s" "max_val_len s0 = max_val_len s" "total_objs_count s0 = total_objs_count s"
      "free_list s0 = free_list s"
    using b(2) by auto
  have "rel (space s) (slot_ids s) s0 (spec_do (EBegin k) \<lparr>c_map = store s, running = Map.empty\<rparr>)"
    using rel_begin [OF rel_start [OF s(1)] b(1)] by blast
  moreover have "kv_tx 0 \<lparr>t_done = False, t_ops = [], t_new = Map.empty\<rparr>"
    by (simp add: kv_tx_def)
  moreover have "begin_tx tx0 s = (k, s0)"
    using b(1) by (simp add: begin_tx_def)
  moreover have "kv_rest (mem s) key val 0 s0"
    by (rule kv_rest_begun [OF s(1) env b(3,4) f(1)])
  ultimately show ?thesis
    using env fl f(1,4,5) kv_env_cong [OF f(1-4), of key val] by (intro that [of k s0]) (fastforce simp: kv_inv_def)+
qed

text \<open>After commit and execution the objects are in the store.\<close>

lemma kv_end:
  assumes ck: "checksum_spec uc ck" and inv: "kv_inv U K m0 b k key val out0 n (s, p, ids, out)"
  shows "\<exists>s'. end_tx uc k s = Inr s' \<and> (\<forall>j<n. \<exists>ob. store s' (nth_blk j) = Some ob \<and> kv_obj j ob)"
proof -
  obtain a t where rel: "rel U K s a" and run: "running a = [k \<mapsto> t]" and tx: "kv_tx n t"
    using inv unfolding kv_inv_def by auto
  have o: "opn a k t"
    using run tx by (simp add: opn_def kv_tx_def)
  obtain s1 where s1: "pmb_tx_commit uc (Some s) k = (PMB_OK, Some s1)" "rel U K s1 (spec_do (ECommit k) a)"
    using rel_commit [OF ck rel o] by blast
  let ?t = "t\<lparr>t_done := True\<rparr>"
  have run1: "running (spec_do (ECommit k) a) = [k \<mapsto> ?t]"
    by (simp add: run)
  have ops: "inplace_ids (t_ops t) = {}" "released_ids (t_ops t) = {}"
    using tx by (auto simp: kv_tx_def)
  have k1: "running (spec_do (ECommit k) a) k = Some ?t" and k2: "t_done ?t"
    using run1 by simp_all
  have "inplace_ids (t_ops ?t) = {}"
    using ops(1) by simp
  then obtain s2 where s2: "pmb_tx_execute uc (Some s1) k = Inr (PMB_OK, Some s2)" "rel U K s2 (spec_do (EExecute k) (spec_do (ECommit k) a))"
    using rel_execute [OF ck s1(2) k1 k2] by blast
  have "running (spec_do (EExecute k) (spec_do (ECommit k) a)) = Map.empty"
      "c_map (spec_do (EExecute k) (spec_do (ECommit k) a)) = c_map a ++ t_new t"
    using ops spec_recs_no_inplace [of "t_ops t"] by (simp_all add: run restrict_map_def)
  then have "store s2 = c_map a ++ t_new t"
    using shown_idle [OF relD(10) [OF s2(2)]] by simp
  moreover have "end_tx uc k s = Inr s2"
    using s1(1) s2(1) by (simp add: end_tx_def)
  ultimately show ?thesis
    using tx by (auto simp: kv_tx_def)
qed

lemma kv_get:
  assumes ob: "store s (nth_blk j) = Some ob" "kv_obj j ob" and j: "j < 128" and ids: "ids = map nth_blk [0..<128]"
  shows "\<exists>p'. kvtest_get s ids j (p, out) = (p', out @ [Object_read (nth_blk j) (of_nat j) (Some (fmt_0d 126 j)) (nth_blk j)])"
proof -
  let ?i = "nth_blk j"
  have b: "block_ok (bck s) ?i" "present s ?i" "?i \<noteq> 0" "ob = obj_at s ?i"
    using store_block [of s ?i] ob(1) by auto
  have "ids ! j = ?i"
    using j ids by simp
  moreover have "get_pair s ?i p = pair_of s ?i"
    using get_pair_of [OF b(1,2), of p] by (simp add: get_pair_def)
  moreover have "c_string (mem s) (p_key (pair_of s ?i)) = Some (fmt_0d 126 j)"
  proof (rule c_string_ld)
    have k: "ld_bytes (mem s) (blk_ptr s ?i + 32) (unat (h_key_len (blk_hdr s ?i))) = ob_key ob" "unat (h_key_len (blk_hdr s ?i)) = 128"
      using b(4) ob(2) by (simp_all add: obj_at_def kv_obj_def)
    have "ld_bytes (mem s) (blk_ptr s ?i + 32) 127 = take 127 (ob_key ob)"
      using ld_bytes_take [of 127 128 "mem s" "blk_ptr s ?i + 32"] k by (simp del: of_nat_Suc)
    then show "ld_bytes (mem s) (p_key (pair_of s ?i)) (Suc (length (fmt_0d 126 j))) = fmt_0d 126 j @ [0]"
      using ob(2) j by (simp add: pair_of_def fmt_length kv_obj_def kv_key_def)
  qed (rule fmt_nonzero)
  moreover have "p_id (pair_of s ?i) = of_nat j" "p_blk_id (pair_of s ?i) = ?i"
    using b(4) ob(2) by (simp_all add: pair_of_def obj_at_def kv_obj_def)
  ultimately show ?thesis
    using b(3) by (simp add: kvtest_get_def)
qed

lemma kv_gets:
  assumes obs: "\<And>j. j < 128 \<Longrightarrow> \<exists>ob. store s (nth_blk j) = Some ob \<and> kv_obj j ob" and ids: "ids = map nth_blk [0..<128]" and "n \<le> 128"
  shows "snd (fold (kvtest_get s ids) [0..<n] (p, out)) =
    out @ map (\<lambda>j. Object_read (nth_blk j) (of_nat j) (Some (fmt_0d 126 j)) (nth_blk j)) [0..<n]"
  using assms(3)
proof (induction n)
  case (Suc n)
  let ?o = "out @ map (\<lambda>j. Object_read (nth_blk j) (of_nat j) (Some (fmt_0d 126 j)) (nth_blk j)) [0..<n]"
  obtain p' where p': "fold (kvtest_get s ids) [0..<n] (p, out) =
      (p', out @ map (\<lambda>j. Object_read (nth_blk j) (of_nat j) (Some (fmt_0d 126 j)) (nth_blk j)) [0..<n])"
    using Suc by (cases "fold (kvtest_get s ids) [0..<n] (p, out)") simp
  moreover have n: "n < 128"
    using Suc.prems by simp
  moreover obtain ob where "store s (nth_blk n) = Some ob" "kv_obj n ob"
    using obs [OF n] by blast
  then obtain p'' where "kvtest_get s ids n (p', ?o) = (p'', ?o @ [Object_read (nth_blk n) (of_nat n) (Some (fmt_0d 126 n)) (nth_blk n)])"
    using kv_get [OF _ _ n ids, of s] by blast
  ultimately show ?case
    by (simp del: of_nat_Suc)
qed simp

lemma kvtest_body_prints:
  assumes ck: "checksum_spec uc ck" and nz: "\<And>j. j < 128 \<Longrightarrow> ck (kv_image (mem s) (bck s) key val j) \<noteq> 0"
    and s: "start_ok s" "slot_ids s \<noteq> {}" and env: "kv_env s key val"
    and fl: "list_ids (free_list s) = {1..total_objs_count s}" and p: "p_blk_id p = 0"
  shows "\<exists>s'. kvtest_body uc key val tx0 s p out =
    Inr (s', out @ map (\<lambda>j. Object_read (nth_blk j) (of_nat j) (Some (fmt_0d 126 j)) (nth_blk j)) [0..<128])"
proof -
  have pair: "p\<lparr>p_offset := 0, p_key := key, p_val := val, p_key_len := 128, p_val_len := 64 * 1024 div 4\<rparr> = kv_pair key val (p_id p)"
    using p by (simp add: kv_pair_def)
  obtain k s0 where b: "begin_tx tx0 s = (k, s0)" "kv_inv (space s) (slot_ids s) (mem s) (bck s) k key val out 0 (s0, kv_pair key val (p_id p), [], out)"
    by (rule kv_begin [OF s env fl])
  obtain s1 p1 ids out1 where f: "fold (kvtest_put uc key val k) [0..<128] (s0, kv_pair key val (p_id p), [], out) = (s1, p1, ids, out1)"
    by (cases "fold (kvtest_put uc key val k) [0..<128] (s0, kv_pair key val (p_id p), [], out)")
  have inv: "kv_inv (space s) (slot_ids s) (mem s) (bck s) k key val out 128 (s1, p1, ids, out1)"
    using kv_puts [OF ck nz order.refl b(2)] f by simp
  then have i: "ids = map nth_blk [0..<128]" "out1 = out"
    by (simp_all add: kv_inv_def)
  obtain s2 where e: "end_tx uc k s1 = Inr s2" "\<And>j. j < 128 \<Longrightarrow> \<exists>ob. store s2 (nth_blk j) = Some ob \<and> kv_obj j ob"
    using kv_end [OF ck inv] by blast
  show ?thesis
    unfolding kvtest_body_def pair Let_def b(1) prod.case f e(1) using kv_gets [OF e(2) i(1) order.refl] i(2) by simp
qed

text \<open>What \<open>kvtest\<close> finds in the pool it creates.\<close>

lemma kvtest_created:
  assumes "open_or_create nv (kvtest_opts path) w = Inr (True, Some b, w')"
  shows "b_bsize b = 69632" and "b_tx_slot_size b = 0x400000" and "b_tx_slots_count b = 32"
proof -
  have "b_bsize b = 69632 \<and> b_tx_slot_size b = 0x400000 \<and> b_tx_slots_count b = 32"
    using assms by (auto simp: open_or_create_def kvtest_opts_def TX_LOG_SIZE_def backend_create_def backend_map_common_def Let_def
        backend_check_header_def backend_runtime_info_def roundup_def PMB_FORMAT_DATA_ALIGN_def sizeof_pmb_data_hdr_def bindR_def
        split: option.splits if_splits sum.splits prod.splits)
  then show "b_bsize b = 69632" "b_tx_slot_size b = 0x400000" "b_tx_slots_count b = 32"
    by simp_all
qed

text \<open>A buffer that is apart from the whole pool.\<close>

definition off_pool :: "backend \<Rightarrow> ptr \<Rightarrow> nat \<Rightarrow> bool" where
  "off_pool b q n \<longleftrightarrow> apart (b_tx_log b) (pool_end b - b_tx_log b) q n"

lemma off_pool_outside:
  assumes ok: "layout_ok (bck s)" and q: "off_pool (bck s) q n"
  shows "outside s q n"
proof -
  let ?b = "bck s"
  have e: "b_tx_log ?b \<le> b_data ?b" "b_data ?b \<le> b_meta ?b" "b_meta ?b \<le> pool_end ?b"
    using ok by (simp_all add: layout_ok_def pool_end_def)
  have "apart (blk_ptr s i) (block_len ?b i) q n" if "block_ok ?b i" for i
    using that
  proof (cases rule: block_ok_cases)
    case data
    show ?thesis
      unfolding data(2,3) using data(4) e by (intro apart_sub [OF q [unfolded off_pool_def]]) linarith+
  next
    case meta
    show ?thesis
      unfolding meta(3,4) using meta(5) e by (intro apart_sub [OF q [unfolded off_pool_def]]) linarith+
  qed
  moreover have "apart (backend_tx_direct (Some ?b) t) (slot_cap s) q n" if "slot_ok ?b t" for t
  proof -
    have "t < b_tx_slots_count ?b"
      using that by (simp add: slot_ok_def)
    note d = backend_tx_direct_slot [OF ok this]
    show ?thesis
      unfolding d(1) using d(2) e by (intro apart_sub [OF q [unfolded off_pool_def]]) linarith+
  qed
  ultimately show ?thesis
    by (simp add: outside_def)
qed

lemma iterate_none: "objs_list s = None \<Longrightarrow> iterate pr m s p = Some (s, p, [])"
  by (simp add: iterate_def pmb_iter_open_def iter_list_def)

text \<open>\<open>pool_list\<close> once the store is open.\<close>

lemma pool_list_lines:
  assumes "length argv = 5"
    and "pmb_open nv uc hp sched (Some (pool_opts o0 argv)) w = Some (Inr (0, Inr s))"
    and wf: "list_wf (objs_list s)" and objs: "\<forall>i\<in>list_ids (objs_list s). block_ok (bck s) i \<and> present s i"
  shows "\<exists>w'. pool_list_main nv uc hp sched True o0 p0 argv w = Some (Inr (0,
    map (\<lambda>i. Saved_listed i (c_string (mem s) (blk_ptr s i + 32)) (h_key_len (blk_hdr s i))) (sorted_list_of_set (list_ids (objs_list s))), w'))"
proof -
  let ?pr = "\<lambda>s p. Saved_listed (p_blk_id p) (c_string (mem s) (p_key p)) (p_key_len p)"
  obtain l where l: "objs_list s = Some l" "caslist_wf l"
    using wf by (auto simp: list_wf_def)
  have ids: "list_ids (objs_list s) = caslist_ids l"
    by (simp add: list_ids_def l)
  let ?n = "card (caslist_ids l)"
  have opened: "pmb_iter_open True (Some s) 0 =
      (case caslist_take l of
         None \<Rightarrow> (None, Some (set_iter_list 0 (Some l) s))
       | Some (v, l') \<Rightarrow> (Some \<lparr>it_region = 0, it_pos = v\<rparr>, Some (set_iter_list 0 (Some l') s)))"
    using l(1) by (simp add: pmb_iter_open_def iter_list_def caslist_pop_def caslist_take_eq caslist_pop_locked_def Let_def)
  have shown: "\<exists>it' s' p'. show_saved ?pr (fst (pmb_iter_open True (Some s) 0)) (the (snd (pmb_iter_open True (Some s) 0))) p0 [] =
      Some (it', s', p', map (\<lambda>i. ?pr s (pair_of s i)) (drain caslist_take ?n l)) \<and> snd (pmb_iter_open True (Some s) 0) \<noteq> None"
  proof (cases "caslist_take l")
    case None
    moreover have "drain caslist_take ?n l = []"
      using None by (cases ?n) simp_all
    ultimately show ?thesis
      using opened by (simp add: show_saved_done pmb_iter_valid_def)
  next
    case (Some r)
    obtain v l' where t: "caslist_take l = Some (v, l')"
      using Some by (cases r) auto
    have v: "caslist_wf l'" "v \<noteq> 0" "v \<in> caslist_ids l" "caslist_ids l' = caslist_ids l - {v}"
      using cas.pop_invar [OF l(2) t] cas.ids_ok [OF l(2)] cas.pop_least [OF l(2) t] cas.pop_ids [OF l(2) t] by (auto simp: valid_id_def)
    have n: "?n = Suc (card (caslist_ids l'))"
      unfolding v(4) using card_Suc_Diff1 [OF cas.finite_ids [OF l(2)] v(3)] by simp
    let ?s = "set_iter_list 0 (Some l') s"
    have "\<exists>it' s' p'. show_saved ?pr (Some \<lparr>it_region = 0, it_pos = v\<rparr>) ?s p0 [] =
        Some (it', s', p', [] @ map (\<lambda>i. ?pr ?s (pair_of ?s i)) (v # drain caslist_take (card (caslist_ids l')) l'))"
      using v objs ids show_saved_all [of ?s "\<lparr>it_region = 0, it_pos = v\<rparr>" l' "card (caslist_ids l')" ?pr p0 "[]"] by auto
    then show ?thesis
      using opened t n by simp
  qed
  have "drain caslist_take ?n l = sorted_list_of_set (list_ids (objs_list s))"
    using cas.drain_sorted [OF l(2)] ids by simp
  with shown show ?thesis
    using assms(1,2) by (auto simp: pool_list_main_def with_store_def PMB_OK_def Let_def pair_of_def split: prod.splits)
qed

text \<open>The handle before recovery.\<close>

definition found :: "pmb_opts \<Rightarrow> backend \<Rightarrow> world \<Rightarrow> pmb_handle" where
  "found opts b w = (new_handle opts b w)\<lparr>total_objs_count := b_data_nlba b, meta_objs_count := b_meta_nlba b\<rparr>"

lemma found_simps [simp]:
  "bck (found opts b w) = b" "mem (found opts b w) = mem w" "total_objs_count (found opts b w) = b_data_nlba b"
  "meta_objs_count (found opts b w) = b_meta_nlba b"
  by (simp_all add: found_def new_handle_def)

lemma obj_valid_log [simp]: "obj_valid ck (s\<lparr>op_log := l\<rparr>) i = obj_valid ck s i"
  by (simp add: obj_valid_def scan_len_def pmb_ntotal_def Let_def)

lemma data_store_ids:
  assumes "layout_ok b"
  shows "{i \<in> store_ids (found opts b w). i < b_data_nlba b \<and> P i} = {i. 0 < i \<and> i < b_data_nlba b \<and> P i}"
proof -
  have "unat (b_data_nlba b + b_meta_nlba b) = unat (b_data_nlba b) + unat (b_meta_nlba b)"
    by (rule nlba_sum_no_wrap [OF assms])
  then show ?thesis
    by (auto simp: store_ids_def word_nat Suc_le_eq)
qed

lemma pmb_open_found:
  assumes "open_or_create nv opts w = Inr (False, Some b, w')" and "heap_ok hp"
    and "tx_log_init (oh_log hp) (o_write_log_entries opts) (new_handle opts b w') = Inr ((new_handle opts b w')\<lparr>op_log := lg\<rparr>)"
    and "open_existing uc hp sched ((found opts b w')\<lparr>op_log := lg\<rparr>) = Some (Inr s)"
  shows "pmb_open nv uc hp sched (Some opts) w = Some (Inr (0, Inr s))"
  using assms by (simp add: pmb_open_def heap_ok_def found_def backend_nblock_def new_handle_def)

text \<open>The log as \<open>tx_log_init\<close> makes it: every slot free, no pending update.\<close>

definition fresh_log :: "open_heap \<Rightarrow> u8 \<Rightarrow> tx_log \<Rightarrow> bool" where
  "fresh_log hp n lg \<longleftrightarrow> tx_slots_count lg = n \<and> list_wf (tx_slots_list lg) \<and> list_ids (tx_slots_list lg) = {1..ucast n} \<and>
     upd_id_list lg = map (fresh_ml (oh_log hp)) [0..<unat n]"

lemma fresh_log_init:
  assumes "heap_ok hp" and "n \<noteq> 0" and "n \<noteq> - 1"
  shows "\<exists>lg. tx_log_init (oh_log hp) n s = Inr (s\<lparr>op_log := lg\<rparr>) \<and> fresh_log hp n lg"
  using init_outcome [of "oh_log hp" n s] assms by (simp add: heap_ok_def fresh_log_def)

text \<open>Opening an existing pool whose slots 2 and above are empty.\<close>

lemma reopen_idle:
  assumes ck: "checksum_spec uc ck" and hp: "heap_ok hp" and pool: "open_or_create nv opts w = Inr (False, Some b, w')" "layout_ok b"
      "b_tx_slots_count b = o_write_log_entries opts" "0 < b_data_nlba b" "o_write_log_entries opts \<noteq> - 1"
    and empty: "\<forall>t. t \<noteq> 0 \<and> slot_ok b t \<longrightarrow> slot_empty (found opts b w') t"
  shows "\<exists>s. pmb_open nv uc hp sched (Some opts) w = Some (Inr (0, Inr s)) \<and> bck s = b \<and> mem s = mem w' \<and>
    list_wf (objs_list s) \<and> list_ids (objs_list s) = {i. 0 < i \<and> i < b_data_nlba b \<and> obj_valid ck (found opts b w') i}"
proof -
  have n0: "o_write_log_entries opts \<noteq> 0"
    using pool(1) by (auto simp: open_or_create_def)
  obtain lg where lg: "tx_log_init (oh_log hp) (o_write_log_entries opts) (new_handle opts b w') = Inr ((new_handle opts b w')\<lparr>op_log := lg\<rparr>)"
      "tx_slots_count lg = o_write_log_entries opts"
    using fresh_log_init [OF hp n0 pool(5)] by (auto simp: fresh_log_def)
  let ?s = "(found opts b w')\<lparr>op_log := lg\<rparr>"
  have ids: "store_ids ?s = store_ids (found opts b w')"
    by (simp add: store_ids_def)
  have sum: "unat (b_data_nlba b) + unat (b_meta_nlba b) < 2 ^ 64"
    using nlba_sum_no_wrap [OF pool(2)] unat_lt_64 [of "b_data_nlba b + b_meta_nlba b"] by simp
  obtain f mf ob mo where o: "open_existing uc hp sched ?s = Some (Inr (?s\<lparr>free_list := f, meta_free_list := mf, objs_list := ob, meta_objs_list := mo\<rparr>))"
      "list_wf ob" "list_ids ob = {i \<in> store_ids ?s. i < b_data_nlba b \<and> obj_valid ck (found opts b w') i}"
    using open_existing_idle [OF ck hp, of ?s sched] empty pool(2-5) lg(2) sum by auto
  have "list_ids ob = {i. 0 < i \<and> i < b_data_nlba b \<and> obj_valid ck (found opts b w') i}"
    unfolding o(3) ids by (rule data_store_ids [OF pool(2)])
  then show ?thesis
    using pmb_open_found [OF pool(1) hp lg(1) o(1)] o(2) by (intro exI conjI) (assumption, simp_all)
qed

section \<open>Properties\<close>

text \<open>
  C13: \<open>kvtest\<close> on a new pool. The program's two buffers lie outside the pool, which has room for
  more than 128 data objects and is blank, and none of the checksums of the 128 objects, over the bytes that
  each block has when it is sealed, is 0 (the value that marks a block without an object). Then the program ends with status 0 after
  reading back, in the order it put them, the 128 objects: number \<open>j\<close> is in block \<open>j + 1\<close>, under
  the identifier \<open>j\<close>, and its key is \<open>j\<close> in 126 decimal digits. No put fails.
\<close>

theorem kvtest_new_pool:
  assumes ck: "checksum_spec uc ck" and hp: "heap_ok hp" and argc: "length argv = 2"
    and pool: "open_or_create nv (kvtest_opts (argv ! 1)) w = Inr (True, Some b, w')" "layout_ok b" "128 < b_data_nlba b" "0 < b_meta_nlba b"
    and zero: "\<forall>i. block_ok b i \<longrightarrow> ld_u64 (mem w') (backend_direct (Some b) i) = 0"
    and bufs: "key \<noteq> NULL" "val \<noteq> NULL" "off_pool b key 128" "off_pool b val 16384" "apart key 128 val 16384"
    and nz: "\<forall>j<128. ck (kv_image (mem w') b key val j) \<noteq> 0"
  shows "\<exists>w''. kvtest_main nv uc hp sched malloc_ok key val tx0 p0 argv w =
    Some (Inr (0, map (\<lambda>j. Object_read (of_nat (Suc j)) (of_nat j) (Some (fmt_0d 126 j)) (of_nat (Suc j))) [0..<128], w''))"
proof -
  let ?o = "kvtest_opts (argv ! 1)"
  note b = kvtest_created [OF pool(1)]
  have o: "b_tx_slots_count b = o_write_log_entries ?o" "o_write_log_entries ?o \<noteq> - 1" "0 < b_data_nlba b"
    using b(3) pool(3) by (simp_all add: kvtest_opts_def word_less_nat_alt)
  obtain s where s: "pmb_open nv uc hp sched (Some ?o) w = Some (Inr (0, Inr s))" "pool_inv s" "store s = Map.empty" "bck s = b"
      "slot_ids s = {1..ucast (o_write_log_entries ?o)}" "list_ids (free_list s) = {1..b_data_nlba b}"
      "total_objs_count s = b_data_nlba b" "objs_list s = None" "mem s = mem w'" "max_key_len s = o_max_key_len ?o" "max_val_len s = o_max_val_len ?o"
    using open_new [OF hp pool(1,2) o(1,3) pool(4) o(2) zero, of uc sched] by blast
  have start: "start_ok s"
    using s(2,3) by (simp add: start_ok_def)
  have slots: "slot_ids s \<noteq> {}"
    using s(5) by (simp add: kvtest_opts_def)
  have "outside s key 128" "outside s val 16384"
    using off_pool_outside bufs(3,4) pool(2) by (simp_all add: s(4))
  then have env: "kv_env s key val"
    using bufs pool(2,3) b unfolding kv_env_def s(4,7,10,11)
    by (simp add: kvtest_opts_def word_less_nat_alt block_ok_def block_len_def data_id_def)
  have fl: "list_ids (free_list s) = {1..total_objs_count s}"
    by (simp only: s(6,7))
  obtain s' where "kvtest_body uc key val tx0 s (p0\<lparr>p_blk_id := 0\<rparr>) [] =
      Inr (s', [] @ map (\<lambda>j. Object_read (nth_blk j) (of_nat j) (Some (fmt_0d 126 j)) (nth_blk j)) [0..<128])"
    using kvtest_body_prints [OF ck _ start slots env fl, of "p0\<lparr>p_blk_id := 0\<rparr>" tx0 "[]"] nz s(4,9) by auto
  then show ?thesis
    using argc s(1) iterate_none [OF s(8)] by (simp add: kvtest_main_def with_store_def PMB_OK_def)
qed

text \<open>The pool that \<open>kvtest\<close> makes at address \<open>0x10000000\<close>.\<close>

definition sample_kv_nvml :: nvml where
  "sample_kv_nvml = sample_nvml\<lparr>util_pool_create := \<lambda>_ n. Some (sample_mapping\<lparr>mp_len := unat n\<rparr>)\<rparr>"

definition sample_kv_backend :: backend where
  "sample_kv_backend = backend_runtime_info 4352 0x10000000 False 0x80000000 0xCCCCCCC 32 0x400000 PMB_NOSYNC
     (blank_backend\<lparr>b_bsize := 69632, b_meta_bsize := 69632, b_max_key_len := 128, b_max_val_len := 65536,
        b_meta_max_key_len := 128, b_meta_max_val_len := 65536, b_tx_slot_size := 0x400000, b_tx_slots_count := 32\<rparr>)"

lemma sample_kv_fields:
  "b_tx_log sample_kv_backend = 0x10002000" "b_data sample_kv_backend = 0x18002000" "b_data_nlba sample_kv_backend = 28912"
  "b_meta sample_kv_backend = 0x8FFF2000" "b_meta_nlba sample_kv_backend = 3084"
  "b_bsize sample_kv_backend = 69632" "b_meta_bsize sample_kv_backend = 69632"
  "b_tx_slots_count sample_kv_backend = 32" "b_tx_slot_size sample_kv_backend = 0x400000"
  by (simp_all add: sample_kv_backend_def backend_runtime_info_def blank_backend_def Let_def ptr_add_def
      roundup_def PMB_FORMAT_DATA_ALIGN_def)

lemma sample_kv_open:
  "\<exists>w'. open_or_create sample_kv_nvml (kvtest_opts path) sample_world = Inr (True, Some sample_kv_backend, w') \<and> mem w' = (\<lambda>_. 0)"
  by (simp add: open_or_create_def kvtest_opts_def backend_open_def backend_create_def sample_kv_nvml_def sample_nvml_def backend_map_common_def
      map_bytes_def sample_mapping_def sample_world_def backend_check_header_def TX_LOG_SIZE_def Let_def roundup_def
      PMB_FORMAT_DATA_ALIGN_def sizeof_pmb_data_hdr_def sample_kv_backend_def blank_backend_def)
    (simp add: fun_eq_iff)

theorem kvtest_new_pool_witness:
  "\<exists>w'' out. kvtest_main sample_kv_nvml sample_uc sample_heap [] True 0x1000 0x2000 0 (sample_pair 9 9 9) [''kvtest'', ''pool''] sample_world =
    Some (Inr (0, out, w'')) \<and> length out = 128 \<and> out ! 5 = Object_read 6 5 (Some (replicate 125 48 @ [53])) 6"
proof -
  obtain w' where w': "open_or_create sample_kv_nvml (kvtest_opts ([''kvtest'', ''pool''] ! 1)) sample_world = Inr (True, Some sample_kv_backend, w')"
      "mem w' = (\<lambda>_. 0)"
    using sample_kv_open by blast
  have l: "layout_ok sample_kv_backend" "128 < b_data_nlba sample_kv_backend" "0 < b_meta_nlba sample_kv_backend"
      "\<forall>i. block_ok sample_kv_backend i \<longrightarrow> ld_u64 (mem w') (backend_direct (Some sample_kv_backend) i) = 0"
    by (simp_all add: layout_ok_def pool_end_def sample_kv_fields w'(2))
  have bufs: "0x1000 \<noteq> NULL" "0x2000 \<noteq> NULL" "off_pool sample_kv_backend 0x1000 128" "off_pool sample_kv_backend 0x2000 16384"
      "apart 0x1000 128 0x2000 16384"
    by (simp_all add: NULL_def off_pool_def apart_def sample_kv_fields)
  have "fmt_0d 126 5 = replicate 125 48 @ [53 :: u8]"
    by (simp add: fmt_0d_def dec.simps [of 5])
  moreover have "length [''kvtest'', ''pool''] = 2"
    by simp
  moreover have "\<forall>j<128. sample_ck (kv_image (mem w') sample_kv_backend 0x1000 0x2000 j) \<noteq> 0"
    using sample_ck_nonzero by blast
  ultimately show ?thesis
    using kvtest_new_pool [OF sample_checksum sample_heap_ok _ w'(1) l bufs, of "[]" True 0 "sample_pair 9 9 9"] by auto
qed

text \<open>
  C14: \<open>pool_list\<close> prints the objects of an existing pool. When the pool can be opened with the
  options of the command line and holds no unfinished transaction in the slots from 2 on, the program ends
  with status 0 and has printed, in ascending order, one line for each data block whose object has a
  valid checksum, with its identifier, its key and the length of its key, and no other line.
\<close>

theorem pool_list_prints_store:
  assumes ck: "checksum_spec uc ck" and hp: "heap_ok hp" and argc: "length argv = 5"
    and pool: "open_or_create nv (pool_opts o0 argv) w = Inr (False, Some b, w')" "layout_ok b" "b_tx_slots_count b = 32" "0 < b_data_nlba b"
    and empty: "\<forall>t. t \<noteq> 0 \<and> slot_ok b t \<longrightarrow> slot_empty (found (pool_opts o0 argv) b w') t"
  shows "\<exists>w''. pool_list_main nv uc hp sched True o0 p0 argv w = Some (Inr (0,
    map (\<lambda>i. Saved_listed i (c_string (mem w') (backend_direct (Some b) i + 32)) (h_key_len (hdr_at (mem w') (backend_direct (Some b) i))))
      (sorted_list_of_set {i. 0 < i \<and> i < b_data_nlba b \<and> obj_valid ck (found (pool_opts o0 argv) b w') i}), w''))"
proof -
  let ?o = "pool_opts o0 argv"
  have n: "b_tx_slots_count b = o_write_log_entries ?o" "o_write_log_entries ?o \<noteq> - 1"
    using pool(3) by (simp_all add: pool_opts_def)
  obtain s where s: "pmb_open nv uc hp sched (Some ?o) w = Some (Inr (0, Inr s))" "bck s = b" "mem s = mem w'" "list_wf (objs_list s)"
      "list_ids (objs_list s) = {i. 0 < i \<and> i < b_data_nlba b \<and> obj_valid ck (found ?o b w') i}"
    using reopen_idle [OF ck hp pool(1,2) n(1) pool(4) n(2) empty] by blast
  have "\<forall>i\<in>list_ids (objs_list s). block_ok (bck s) i \<and> present s i"
    using pool(2) by (auto simp: s(2,3,5) block_ok_def data_id_def present_def hdr_at_def obj_valid_def Let_def)
  from pool_list_lines [OF argc s(1,4) this, of p0] show ?thesis
    unfolding s(5) by (simp add: s(2,3))
qed

text \<open>A pool with one object, in block 5, at address \<open>0x18007000\<close>.\<close>

definition sample_list_mem :: memory where
  "sample_list_mem = snd (sample_uc (set_val_len (set_key_len (\<lambda>_. 0) 0x18007000 3) 0x18007000 8) 0x18007000 104 0x18007000 True)"

definition sample_list_backend :: backend where
  "sample_list_backend = sample_backend\<lparr>b_tx_slots_count := 32, b_tx_slot_size := 0x400000\<rparr>"

definition sample_list_nvml :: nvml where
  "sample_list_nvml = sample_nvml\<lparr>util_pool_open := \<lambda>_. Some (sample_mapping\<lparr>mp_hdr := sample_list_backend,
     mp_bytes := \<lambda>a. sample_list_mem (0x10000000 + a)\<rparr>)\<rparr>"

definition sample_list_argv :: "string list" where
  "sample_list_argv = [''pool_list'', ''64'', ''1024'', ''268435456'', ''pool'']"

lemma sample_list_opts: "pool_opts sample_opts sample_list_argv = sample_opts\<lparr>o_write_log_entries := 32\<rparr>"
  by (simp add: pool_opts_def sample_list_argv_def sample_opts_def atoi_def strtol_def c_isspace_def c_digit_def)

lemma sample_list_only: "only 0x18007000 32 (\<lambda>_. 0) sample_list_mem"
  by (simp add: sample_list_mem_def hdr_defs only_after checksum_insert [OF sample_checksum])

lemma sample_list_zero: "a < 0x18007000 \<or> 0x18007000 + 32 \<le> a \<Longrightarrow> sample_list_mem a = 0"
  using sample_list_only by (auto simp: only_def)

lemma sample_list_fields:
  "backend_runtime_info 4352 0x10000000 False 0x10000000 0x1000000 32 0x400000 0 sample_list_backend = sample_list_backend"
  "b_bsize sample_list_backend = 4096" "b_meta_bsize sample_list_backend = 4096" "b_tx_slots_count sample_list_backend = 32"
  "b_tx_slot_size sample_list_backend = 0x400000" "b_data_nlba sample_list_backend = 32766" "layout_ok sample_list_backend"
  "backend_direct (Some sample_list_backend) 5 = 0x18007000" "b_data sample_list_backend = 0x18002000"
  by (simp_all add: sample_list_backend_def layout_ok_def pool_end_def backend_direct_def sample_backend_fields ptr_add_def)
    (simp add: sample_backend_def backend_runtime_info_def blank_backend_def Let_def ptr_add_def roundup_def PMB_FORMAT_DATA_ALIGN_def)

lemma sample_list_open:
  "\<exists>w'. open_or_create sample_list_nvml (sample_opts\<lparr>o_write_log_entries := 32\<rparr>) sample_world =
    Inr (False, Some sample_list_backend, w') \<and> mem w' = sample_list_mem"
  by (simp add: open_or_create_def sample_opts_def backend_open_def sample_list_nvml_def sample_nvml_def backend_map_common_def
      map_bytes_def sample_mapping_def sample_world_def backend_check_header_def TX_LOG_SIZE_def Let_def roundup_def
      PMB_FORMAT_DATA_ALIGN_def sizeof_pmb_data_hdr_def sample_list_fields)
    (auto simp: fun_eq_iff intro!: sample_list_zero)

lemma sample_list_slot:
  assumes "slot_ok sample_list_backend t"
  shows "s_status (slot_at sample_list_mem (backend_tx_direct (Some sample_list_backend) t)) = 0"
proof -
  have t: "t < b_tx_slots_count sample_list_backend"
    using assms by (simp add: slot_ok_def)
  have "backend_tx_direct (Some sample_list_backend) t + 24 \<le> 0x18002000"
    using backend_tx_direct_slot [OF sample_list_fields(7) t] by (simp add: sample_list_fields)
  then have "same_on (backend_tx_direct (Some sample_list_backend) t) 24 sample_list_mem (\<lambda>_. 0)"
    by (auto simp: same_on_def sample_list_zero)
  from slot_at_cong [OF this] show ?thesis
    by (simp add: slot_at_def)
qed

lemma sample_list_block:
  assumes i: "i < 32766" "i \<noteq> 5"
  shows "ld_u64 sample_list_mem (backend_direct (Some sample_list_backend) i) = 0"
proof -
  have "data_id sample_list_backend i"
    using i(1) by (simp add: data_id_def sample_list_fields)
  then have d: "backend_direct (Some sample_list_backend) i = 0x18002000 + unat i * 4096"
    using backend_direct_data(1) [OF sample_list_fields(7)] by (simp add: sample_list_fields)
  have "unat i \<noteq> 5"
    using i(2) by (simp add: word_eq_unat)
  then have "sample_list_mem a = 0" if "0x18002000 + unat i * 4096 \<le> a" "a < 0x18002000 + unat i * 4096 + 8" for a
    using that by (intro sample_list_zero) linarith
  then have "same_on (0x18002000 + unat i * 4096) 8 sample_list_mem (\<lambda>_. 0)"
    by (simp add: same_on_def)
  then show ?thesis
    unfolding d by (simp add: f64.get_cong)
qed

theorem pool_list_prints_store_witness:
  "\<exists>w''. pool_list_main sample_list_nvml sample_uc sample_heap [2, 0] True sample_opts (sample_pair 0 0 0) sample_list_argv sample_world =
    Some (Inr (0, [Saved_listed 5 (Some []) 3], w''))"
proof -
  let ?b = sample_list_backend and ?o = "pool_opts sample_opts sample_list_argv"
  obtain w' where w': "open_or_create sample_list_nvml ?o sample_world = Inr (False, Some ?b, w')" "mem w' = sample_list_mem"
    using sample_list_open unfolding sample_list_opts by blast
  have e: "\<forall>t. t \<noteq> 0 \<and> slot_ok ?b t \<longrightarrow> slot_empty (found ?o ?b w') t"
    using sample_list_slot by (simp add: w'(2))
  have h: "h_key_len (hdr_at sample_list_mem 0x18007000) = 3" "h_val_len (hdr_at sample_list_mem 0x18007000) = 8"
      "ld_u64 sample_list_mem 0x18007000 \<noteq> 0" "fst (sample_uc sample_list_mem 0x18007000 104 0x18007000 False)"
    using sample_ck_nonzero
    by (simp_all add: sample_list_mem_def checksum_insert [OF sample_checksum] checksum_verify [OF sample_checksum]) (simp_all add: hdr_defs)
  have "obj_valid sample_ck (found ?o ?b w') i \<longleftrightarrow> i = 5" if "i < 32766" for i
  proof (cases "i = 5")
    case True
    have "scan_len (found ?o ?b w') 5 = 104"
      by (simp add: scan_len_def pmb_ntotal_def w'(2) sample_list_fields h Let_def sizeof_pmb_data_hdr_def)
        (simp add: found_def new_handle_def sample_list_opts, simp add: sample_opts_def)
    then show ?thesis
      using True h(3,4) by (simp add: obj_valid_def sample_list_fields w'(2) NULL_def checksum_verify [OF sample_checksum])
  next
    case False
    then show ?thesis
      using sample_list_block [OF that] by (simp add: obj_valid_def w'(2) Let_def)
  qed
  then have ids: "{i. 0 < i \<and> i < b_data_nlba ?b \<and> obj_valid sample_ck (found ?o ?b w') i} = {5}"
    by (auto simp: sample_list_fields)
  have "c_string sample_list_mem 0x18007020 = Some []"
    by (subst c_string.simps) (simp add: sample_list_zero)
  moreover have "length sample_list_argv = 5"
    by (simp add: sample_list_argv_def)
  ultimately show ?thesis
    using pool_list_prints_store [OF sample_checksum sample_heap_ok _ w'(1) sample_list_fields(7,4) _ e, of "[2, 0]" "sample_pair 0 0 0"]
    unfolding ids by (simp add: sample_list_fields w'(2) h)
qed

end
