(* ===== verification/Media.thy ===== *)
theory Media
  imports Programs
begin

text \<open>
  What the pool has to satisfy for the store to be opened again: \<open>media_ok\<close>, the free slots are
  empty in the pool and the scan of \<open>pmb_open\<close> accepts every object. Every call of a run keeps it.
\<close>

section \<open>What the pool holds\<close>

lemma scan_len_eq:
  assumes "0 < total_objs_count s"
  shows "scan_len s i = val_start s i + unat (h_val_len (blk_hdr s i))"
proof -
  have "unat (total_objs_count s - 1) = unat (total_objs_count s) - 1" "0 < unat (total_objs_count s)"
    using assms by (simp_all add: unat_pred unat_gt_0)
  then have "pmb_ntotal (Some s) 0 < i \<longleftrightarrow> \<not> i < total_objs_count s"
    by (auto simp: pmb_ntotal_def word_nat)
  moreover have "unat (32 + ucast x + ucast y :: u64) = 32 + unat x + unat y" for x y :: u32
    using unat_lt_32 [of x] unat_lt_32 [of y] by (simp add: unat_add_no_wrap)
  ultimately show ?thesis
    by (simp add: scan_len_def Let_def sizeof_pmb_data_hdr_def val_start_def)
qed

text \<open>The scan of \<open>pmb_open\<close> accepts an object when its checksum covers it up to the end of its value.\<close>

lemma obj_valid_iff:
  assumes "0 < total_objs_count s" and "block_ok (bck s) i"
  shows "obj_valid ck s i \<longleftrightarrow> present s i \<and> ld_u64 (mem s) (blk_ptr s i) =
    ck (range_without (mem s) (blk_ptr s i) (val_start s i + unat (h_val_len (blk_hdr s i))) (blk_ptr s i))"
  using bs.direct_not_null [OF assms(2)]
  by (simp add: obj_valid_def Let_def present_def hdr_at_def scan_len_eq [OF assms(1)])

lemma obj_valid_same:
  assumes c: "conf_same s s'" and T: "0 < total_objs_count s" and i: "block_ok (bck s) i" "in_block s i"
    and same: "same_on (blk_ptr s i) (block_len (bck s) i) (mem s') (mem s)"
  shows "obj_valid ck s' i = obj_valid ck s i"
proof -
  let ?p = "blk_ptr s i" and ?n = "val_start s i + unat (h_val_len (blk_hdr s i))"
  have b: "bck s' = bck s" "total_objs_count s' = total_objs_count s" "max_key_len s' = max_key_len s"
    using c by (simp_all add: conf_same_def)
  have h: "blk_hdr s' i = blk_hdr s i" "present s' i = present s i"
    using block_same_obj(1,2) [OF c i(1) same] .
  have n: "val_start s' i = val_start s i"
    using h(1) b by (simp add: val_start_def)
  have "same_on ?p ?n (mem s') (mem s)"
    using same by (rule same_on_sub) (use i(2) in \<open>simp_all add: in_block_def\<close>)
  then have "range_without (mem s') ?p ?n ?p = range_without (mem s) ?p ?n ?p"
    by (intro range_without_cong) simp_all
  moreover have "ld_u64 (mem s') ?p = ld_u64 (mem s) ?p"
    using h(1) b(1) by (simp add: hdr_at_def)
  ultimately show ?thesis
    using h T i(1) by (simp add: obj_valid_iff b n)
qed

lemma sealed_data_valid:
  assumes ck: "checksum_spec uc ck" and i: "block_ok (bck s) i" "i < total_objs_count s" "present s i" "sealed uc s i"
  shows "obj_valid ck s i"
proof -
  have "0 < total_objs_count s"
    using i(2) by (rule order_le_less_trans [OF word_zero_le])
  then show ?thesis
    using i by (simp add: obj_valid_iff val_start_def sealed_def checksum_verify [OF ck])
qed

lemma sealed_meta_valid:
  assumes ck: "checksum_spec uc ck" and T: "0 < total_objs_count s"
    and i: "block_ok (bck s) i" "\<not> i < total_objs_count s" "present s i" "sealed_meta uc s i"
  shows "obj_valid ck s i"
  using i T by (simp add: obj_valid_iff val_start_def sealed_meta_def checksum_verify [OF ck])

text \<open>Every free slot is empty on the medium, and the scan accepts every object of the store.\<close>

definition media_ok :: "(u8 list \<Rightarrow> u64) \<Rightarrow> pmb_handle \<Rightarrow> bool" where
  "media_ok ck s \<longleftrightarrow> 0 < total_objs_count s \<and> total_objs_count s = b_data_nlba (bck s) \<and>
     (\<forall>k\<in>slot_ids s. slot_empty s (ucast (k - 1))) \<and> (\<forall>i. store s i \<noteq> None \<longrightarrow> obj_valid ck s i)"

lemma media_okD:
  assumes "media_ok ck s"
  shows "0 < total_objs_count s" and "total_objs_count s = b_data_nlba (bck s)"
    and "k \<in> slot_ids s \<Longrightarrow> slot_empty s (ucast (k - 1))" and "store s i \<noteq> None \<Longrightarrow> obj_valid ck s i"
  using assms unfolding media_ok_def by blast+

lemma media_okI:
  assumes "0 < total_objs_count s" and "total_objs_count s = b_data_nlba (bck s)"
    and "\<And>k. k \<in> slot_ids s \<Longrightarrow> slot_empty s (ucast (k - 1))" and "\<And>i. store s i \<noteq> None \<Longrightarrow> obj_valid ck s i"
  shows "media_ok ck s"
  using assms unfolding media_ok_def by blast

lemma media_changed:
  assumes med: "media_ok ck s" and ok: "slots_ok s" "store_ok s" "tx_ok s k" and c: "conf_same s s'" "slot_kept s k s'"
    and ids: "slot_ids s' \<subseteq> insert k (slot_ids s)" "k \<in> slot_ids s' \<Longrightarrow> slot_empty s' (ucast (k - 1))"
    and same: "\<And>j. block_ok (bck s) j \<Longrightarrow> j \<notin> D \<Longrightarrow> same_on (blk_ptr s j) (block_len (bck s) j) (mem s') (mem s)"
    and new: "\<And>j. j \<in> D \<Longrightarrow> store s' j \<noteq> None \<Longrightarrow> obj_valid ck s' j"
  shows "media_ok ck s' \<and> conf_same s s'"
proof -
  have m: "0 < total_objs_count s" "total_objs_count s = b_data_nlba (bck s)" "bck s' = bck s" "total_objs_count s' = total_objs_count s"
    using media_okD(1,2) [OF med] c(1) unfolding conf_same_def by blast+
  have "obj_valid ck s' j" if j: "store s' j \<noteq> None" for j
  proof (cases "j \<in> D")
    case False
    have b: "block_ok (bck s) j"
      using store_block [OF j] m(3) by simp
    note sm = same [OF b False]
    have st: "store s j \<noteq> None"
      using store_same [OF c(1) ok(2), of j] sm j by simp
    then have "obj_valid ck s j"
      using med by (simp add: media_ok_def)
    then show ?thesis
      using obj_valid_same [OF c(1) m(1) b _ sm] store_fits [OF ok(2) st] by simp
  qed (use new j in blast)
  moreover have "slot_empty s' (ucast (j - 1))" if j: "j \<in> slot_ids s'" for j
  proof (cases "j = k")
    case False
    then have js: "j \<in> slot_ids s"
      using ids(1) j by blast
    then have jo: "tx_ok s j"
      using ok(1) by (auto simp: slots_ok_def tx_ok_def word_nat Suc_le_eq)
    have "same_on (tx_slot_ptr s j) (slot_cap s) (mem s') (mem s)"
      using c(2) tx_index(2) [OF jo] tx_index(1,3) [OF jo] tx_index(1,3) [OF ok(3)] False
      unfolding slots_kept_def tx_slot_ptr_def by (metis singletonD diff_Suc_1 Suc_pred word_eq_unat)
    then have "same_on (tx_slot_ptr s j) 24 (mem s') (mem s)"
      by (rule same_on_sub) (use bs.slot_extent_header [OF tx_index(2) [OF jo]] in auto)
    from slot_at_cong [OF this] show ?thesis
      using med js m(3) by (simp add: media_ok_def tx_slot_ptr_def)
  qed (use ids(2) j in blast)
  ultimately show ?thesis
    using m c(1) by (simp add: media_ok_def)
qed

text \<open>A call that only writes into the slot of its transaction, or fills one block.\<close>

lemma media_slot_only:
  assumes med: "media_ok ck s" and rel: "rel U K s a" and k: "tx_ok s k" "k \<notin> slot_ids s"
    and ch: "only (tx_slot_ptr s k) (slot_cap s) (mem s) (mem s')" and c: "conf_same s s'" "slot_ids s' = slot_ids s"
  shows "media_ok ck s' \<and> conf_same s s'"
  using slot_change_blocks(1) [OF k(1) ch] k(2) c(2)
  by (intro media_changed [OF med relD(2,3) [OF rel] k(1) c(1) slot_change_kept [OF k(1) ch], of "{}"]) auto

lemma media_filled:
  assumes med: "media_ok ck s" and rel: "rel U K s a" and k: "tx_ok s k" "k \<notin> slot_ids s" and c: "conf_same s s'" "op_log s' = op_log s"
    and kept: "slot_kept s k s'" and i: "obj_valid ck s' i"
    and same: "\<forall>j. block_ok (bck s) j \<longrightarrow> j \<noteq> i \<longrightarrow> same_on (blk_ptr s j) (block_len (bck s) j) (mem s') (mem s)"
  shows "media_ok ck s' \<and> conf_same s s'"
  using same i k(2) c(2) by (intro media_changed [OF med relD(2,3) [OF rel] k(1) c(1) kept, of "{i}"]) auto

lemma running_slot:
  assumes "rel U K s a" and "running a k = Some t"
  shows "tx_ok s k" and "k \<notin> slot_ids s"
  using tx_conc_ok [OF relD(9) [OF assms]] relD(7) [OF assms(1)] assms(2) by auto

lemma media_put:
  assumes ck: "checksum_spec uc ck" and med: "media_ok ck s" and rel: "rel U K s a" and o: "opn a k t" and can: "can_put s k rs i kv"
    and new: "p_blk_id kv = 0"
    and call: "pmb_tput uc (Some s) k (Some kv) = (PMB_OK, Some kv', Some s')" and pr: "present s' i"
  shows "media_ok ck s' \<and> conf_same s s'"
proof -
  have a: "put_ready s k rs i" "put_args s i kv" "client_bufs s k kv" "\<not> tput_bad_args s k kv" "i < total_objs_count s"
    using can by (simp_all add: can_put_def)
  obtain e: "mem_only (s\<lparr>free_list := free_list s'\<rparr>) s'" "sealed uc s' i"
      "\<forall>j. block_ok (bck s) j \<longrightarrow> j \<noteq> i \<longrightarrow> same_on (blk_ptr s j) (block_len (bck s) j) (mem s') (mem s)" "slot_kept s k s'"
    using tput_new_effect [OF ck a(1,2,3) new a(4,5)] call by (elim exE conjE) simp
  note c = mem_only_simps [OF e(1)]
  have "obj_valid ck s' i"
    using a(2,5) e(2) pr c by (intro sealed_data_valid [OF ck]) (simp_all add: put_args_def)
  then show ?thesis
    using running_slot [OF rel] o c e(3,4) by (intro media_filled [OF med rel]) (auto simp: opn_def conf_same_def)
qed

lemma media_put_meta:
  assumes ck: "checksum_spec uc ck" and med: "media_ok ck s" and rel: "rel U K s a" and o: "opn a k t"
    and can: "can_put_meta s k rs i kv" "meta_source s i kv"
    and call: "pmb_tput_meta uc (Some s) k (Some kv) = (PMB_OK, Some kv', Some s')" and pr: "present s' i"
  shows "media_ok ck s' \<and> conf_same s s'"
proof -
  have d: "meta_ready s k rs i" "meta_args s i kv" "client_bufs s k kv"
      "unat (meta_max_key_len s) + unat (meta_max_val_len s) < 2 ^ 32" "total_objs_count s \<le> i"
    using can(1) by (simp_all add: can_put_meta_def)
  obtain e: "mem_only (s\<lparr>meta_free_list := meta_free_list s'\<rparr>) s'" "sealed_meta uc s' i"
      "\<forall>j. block_ok (bck s) j \<longrightarrow> j \<noteq> i \<longrightarrow> same_on (blk_ptr s j) (block_len (bck s) j) (mem s') (mem s)" "slot_kept s k s'"
    using tput_meta_effect [OF ck d(1-3) can(2) d(4,5)] call by (elim exE conjE) simp
  note c = mem_only_simps [OF e(1)]
  have "obj_valid ck s' i"
    using media_okD(1) [OF med] d(2,5) e(2) pr c by (intro sealed_meta_valid [OF ck]) (simp_all add: meta_args_def)
  then show ?thesis
    using running_slot [OF rel] o c e(3,4) by (intro media_filled [OF med rel]) (auto simp: opn_def conf_same_def)
qed

lemma media_update:
  assumes ck: "checksum_spec uc ck" and med: "media_ok ck s" and rel: "rel U K s a" and o: "opn a k t"
    and can: "can_put s k rs i kv" "can_update s i j kv" and j: "usable a k t j"
    and call: "pmb_tput uc (Some s) k (Some kv) = (PMB_OK, Some kv', Some s')" and pr: "present s' i"
  shows "media_ok ck s' \<and> conf_same s s'"
proof -
  have a: "put_ready s k rs i" "put_args s i kv" "client_bufs s k kv" "\<not> tput_bad_args s k kv" "i < total_objs_count s"
    using can by (simp_all add: can_put_def)
  have u: "j = p_blk_id kv" "\<not> p_val_len kv < max_val_len s div 2" "p_val_len kv \<noteq> 0" "p_offset kv \<le> h_val_len (blk_hdr s j)"
      "unat (h_val_len (blk_hdr s j)) \<le> unat (max_val_len s)" "block_len (bck s) j = block_len (bck s) i" "j < total_objs_count s"
    using can unfolding can_update_def by blast+
  note sj = usable_store [OF rel o j]
  have jf: "j \<notin> list_ids (free_list s)"
    using sj(5) u(7) by (simp add: free_ids_def)
  obtain e: "mem_only (s\<lparr>free_list := free_list s'\<rparr>) s'" "sealed uc s' i"
      "\<forall>b. block_ok (bck s) b \<longrightarrow> b \<noteq> i \<longrightarrow> same_on (blk_ptr s b) (block_len (bck s) b) (mem s') (mem s)" "slot_kept s k s'"
    using tput_update_effect [OF ck a(1,2,3,4) u(1) sj(3,4) jf u(2-6) a(5)] call by (elim exE conjE) simp
  note c = mem_only_simps [OF e(1)]
  have "obj_valid ck s' i"
    using a(2,5) e(2) pr c by (intro sealed_data_valid [OF ck]) (simp_all add: put_args_def)
  then show ?thesis
    using running_slot [OF rel] o c e(3,4) by (intro media_filled [OF med rel]) (auto simp: opn_def conf_same_def)
qed

lemma media_logged:
  assumes med: "media_ok ck s" and rel: "rel U K s a" and k: "running a k = Some t" and so: "slot_only s k s'"
  shows "media_ok ck s' \<and> conf_same s s'"
proof -
  have ch: "only (tx_slot_ptr s k) (slot_cap s) (mem s) (mem s')"
    using so by (simp add: slot_only_def)
  show ?thesis
    using mem_only_simps [OF slot_only_mem_only [OF so]]
    by (intro media_slot_only [OF med rel running_slot [OF rel k] ch]) (simp_all add: conf_same_def)
qed

lemma media_begin:
  assumes med: "media_ok ck s" and rel: "rel U K s a" and call: "pmb_tx_begin (Some s) (Some c) = (PMB_OK, Some k, Some s')"
  shows "media_ok ck s' \<and> conf_same s s'"
  using relD(2) [OF rel]
proof (cases rule: begin_cases [where c = c])
  case busy
  then show ?thesis
    using call by (simp add: pmb_codes)
next
  case (taken k' l s1)
  then have e: "k' = k" "s1 = s'"
    using call by simp_all
  note b = taken [unfolded e]
  note c = mem_only_simps [OF b(4)]
  have ids: "slot_ids s' = slot_ids s - {k}"
    using c(2) b(6) by simp
  show ?thesis
    using slot_change_blocks(1) [OF b(10,9)] c ids
    by (intro media_changed [OF med relD(2,3) [OF rel] b(10) _ slot_change_kept [OF b(10,9)], of "{}"]) (auto simp: conf_same_def)
qed

lemma media_commit:
  assumes ck: "checksum_spec uc ck" and med: "media_ok ck s" and rel: "rel U K s a" and o: "opn a k t"
    and call: "pmb_tx_commit uc (Some s) k = (PMB_OK, Some s')"
  shows "media_ok ck s' \<and> conf_same s s'"
proof -
  obtain s2 where s2: "tx_slot_commit uc s k = (PMB_OK, s2)" "slot_only s k s2"
    using tx_slot_commit_ok [OF ck opn_holds(2) [OF rel o]] by blast
  have "s2 = s'"
    using call s2(1) by (auto simp: pmb_tx_commit_def pmb_codes split: if_splits)
  then show ?thesis
    using media_logged [OF med rel _ s2(2)] o by (auto simp: opn_def)
qed

text \<open>A call that ends a transaction.\<close>

lemma media_ended:
  assumes med: "media_ok ck s" and rel: "rel U K s a" and k: "running a k = Some t" and c: "conf_eq s s1" "slot_kept s k s1"
    and mt: "s_status (slot_at (mem s1) (tx_slot_ptr s k)) = status_code EMPTY"
    and same: "\<forall>j. block_ok (bck s) j \<longrightarrow> j \<notin> D \<longrightarrow> same_on (blk_ptr s j) (block_len (bck s) j) (mem s1) (mem s)"
    and new: "\<forall>j\<in>D. store s1 j \<noteq> None \<longrightarrow> obj_valid ck s1 j"
  shows "media_ok ck (tx_log_free_slot s1 k) \<and> conf_same s (tx_log_free_slot s1 k)"
proof -
  note ok = running_slot(1) [OF rel k]
  have c': "bck s1 = bck s" "tx_slots_count (op_log s1) = tx_slots_count (op_log s)" "tx_slots_list (op_log s1) = tx_slots_list (op_log s)"
    using c(1) by (simp_all add: conf_eq_def)
  have wf: "list_wf (tx_slots_list (op_log s1))" "slot_ids s1 \<subseteq> slot_ids s"
    using relD(2) [OF rel] c'(3) by (simp_all add: slots_ok_def)
  note fs = free_slot_ids [OF relD(2) [OF rel] ok c'(1,2) wf]
  have m: "mem (tx_log_free_slot s1 k) = mem s1" "bck (tx_log_free_slot s1 k) = bck s1" "obj_valid ck (tx_log_free_slot s1 k) = obj_valid ck s1"
    by (simp_all add: tx_log_free_slot_def fun_eq_iff)
  show ?thesis
    using c(2) same new conf_same_eq(1) [OF c(1)] mt
    by (intro media_changed [OF med relD(2,3) [OF rel] ok, of _ D]) (simp_all add: fs(2) m c' tx_slot_ptr_def)
qed

lemma media_execute:
  assumes ck: "checksum_spec uc ck" and med: "media_ok ck s" and rel: "rel U K s a" and k: "running a k = Some t" "t_done t"
    and call: "pmb_tx_execute uc (Some s) k = Inr (PMB_OK, Some s')" and pr: "\<forall>j\<in>inplace_ids (t_ops t). present s' j"
  shows "media_ok ck s' \<and> conf_same s s'"
proof -
  let ?rs = "t_ops t"
  note ready = exec_ready_rel(1) [OF rel k]
  obtain s1 where run: "tx_slot_execute uc s k = Inr (PMB_OK, s1)" and s': "s' = tx_log_free_slot s1 k"
    using call by (auto simp: pmb_tx_execute_def bindR_eq_Inr_iff pmb_codes split: if_splits)
  obtain ce: "conf_eq s s1" and kept: "slot_kept s k s1" and mt: "s_status (slot_at (mem s1) (tx_slot_ptr s k)) = status_code EMPTY"
      and gone: "\<forall>i. block_ok (bck s) i \<longrightarrow> i \<in> released_ids ?rs \<longrightarrow> \<not> present s1 i"
      and same: "\<forall>j. block_ok (bck s) j \<longrightarrow> j \<notin> released_ids ?rs \<union> inplace_ids ?rs \<longrightarrow>
        same_on (blk_ptr s j) (block_len (bck s) j) (mem s1) (mem s)"
    using execute_release [OF ck ready] run by (elim exE conjE) simp
  have c: "bck s1 = bck s" "total_objs_count s1 = total_objs_count s"
    using ce by (simp_all add: conf_eq_def)
  have "obj_valid ck s1 j" if j: "j \<in> released_ids ?rs \<union> inplace_ids ?rs" "store s1 j \<noteq> None" for j
  proof -
    have b: "block_ok (bck s1) j" "present s1 j"
      using store_block [OF j(2)] by simp_all
    then have ip: "j \<in> inplace_ids ?rs"
      using gone j(1) c(1) by auto
    then have "sealed uc s1 j" "j < total_objs_count s1"
      using execute_in_place [OF ck ready ip] run relD(9) [OF rel k(1)] c(2) by (auto simp: tx_conc_def)
    then show ?thesis
      using b by (intro sealed_data_valid [OF ck])
  qed
  then have "\<forall>j\<in>released_ids ?rs \<union> inplace_ids ?rs. store s1 j \<noteq> None \<longrightarrow> obj_valid ck s1 j"
    by blast
  then show ?thesis
    unfolding s' by (rule media_ended [OF med rel k(1) ce kept mt same])
qed

lemma media_abort:
  assumes ck: "checksum_spec uc ck" and med: "media_ok ck s" and rel: "rel U K s a" and k: "running a k = Some t"
    and ip: "inplace_ids (t_ops t) = {}" and call: "pmb_tx_abort uc (Some s) k = (PMB_OK, Some s')"
  shows "media_ok ck s' \<and> conf_same s s'"
proof -
  note ready = abort_ready_rel [OF rel k ip]
  obtain s1 where run: "tx_slot_abort uc s k = (PMB_OK, s1)" and s': "s' = tx_log_free_slot s1 k"
    using call by (auto simp: pmb_tx_abort_def pmb_codes split: if_splits prod.splits)
  obtain ce: "conf_eq s s1" and kept: "slot_kept s k s1" and mt: "s_status (slot_at (mem s1) (tx_slot_ptr s k)) = status_code EMPTY"
      and gone: "\<forall>i\<in>written_ids (t_ops t). \<not> present s1 i"
      and same: "\<forall>j. block_ok (bck s) j \<longrightarrow> j \<notin> written_ids (t_ops t) \<longrightarrow> same_on (blk_ptr s j) (block_len (bck s) j) (mem s1) (mem s)"
    using abort_revert [OF ck ready] run by (elim exE conjE) simp
  have "obj_valid ck s1 j" if "j \<in> written_ids (t_ops t)" "store s1 j \<noteq> None" for j
    using gone that store_block [OF that(2)] by blast
  then have "\<forall>j\<in>written_ids (t_ops t). store s1 j \<noteq> None \<longrightarrow> obj_valid ck s1 j"
    by blast
  then show ?thesis
    unfolding s' by (rule media_ended [OF med rel k ce kept mt same])
qed

text \<open>Every call of a run keeps the pool ready for a restart.\<close>

lemma sys_step_media:
  assumes ck: "checksum_spec uc ck" and med: "media_ok ck s" and rel: "rel U K s a" and ok: "client_ok a e" and step: "sys_step uc s e s'"
  shows "media_ok ck s' \<and> conf_same s s'"
proof (rule sys_step_cases [OF rel ok step])
  show ?thesis if "pmb_tx_begin (Some s) (Some c) = (PMB_OK, Some k, Some s')" for c k
    by (rule media_begin [OF med rel that])
  show ?thesis if "opn a k t" "can_put s k (t_ops t) i kv" "p_blk_id kv = 0"
      "pmb_tput uc (Some s) k (Some kv) = (PMB_OK, Some kv', Some s')" "present s' i" for k t i kv kv'
    by (rule media_put [OF ck med rel that])
  show ?thesis if "opn a k t" "can_put_meta s k (t_ops t) i kv" "p_blk_id kv = 0"
      "pmb_tput_meta uc (Some s) k (Some kv) = (PMB_OK, Some kv', Some s')" "present s' i" for k t i kv kv'
    by (rule media_put_meta [OF ck med rel that(1,2) meta_new(1) [OF that(3)] that(4,5)])
  show ?thesis if "opn a k t" "can_put s k (t_ops t) i kv" "can_update s i j kv" "usable a k t j"
      "pmb_tput uc (Some s) k (Some kv) = (PMB_OK, Some kv', Some s')" "present s' i" for k t j i kv kv'
    by (rule media_update [OF ck med rel that])
  show ?thesis if "opn a k t" "can_put_meta s k (t_ops t) i kv" "j = p_blk_id kv" "\<not> j < total_objs_count s" "usable a k t j"
      "pmb_tput_meta uc (Some s) k (Some kv) = (PMB_OK, Some kv', Some s')" "present s' i" for k t j i kv kv'
    by (rule media_put_meta [OF ck med rel that(1,2) usable_meta_source [OF rel that(1,5,2,3,4)] that(6,7)])
  show ?thesis if "opn a k t" "slot_size s k + 24 \<le> slot_cap s" "pmb_tdel (Some s) k j = (PMB_OK, Some s')" for k t j
    using media_logged [OF med rel _ remove_call(2) [OF opn_holds(2) [OF rel that(1)] that(2,3)]] that(1) by (auto simp: opn_def)
  show ?thesis if "opn a k t" "can_patch s k j kv" "pmb_tput uc (Some s) k (Some kv) = (PMB_OK, Some kv', Some s')" for k t j kv kv'
    using media_logged [OF med rel _ patch_call(2) [OF opn_holds(2) [OF rel that(1)] that(2,3)]] that(1) by (auto simp: opn_def)
  show ?thesis if "opn a k t" "pmb_tx_commit uc (Some s) k = (PMB_OK, Some s')" for k t
    by (rule media_commit [OF ck med rel that])
  show ?thesis if "running a k = Some t" "t_done t" "pmb_tx_execute uc (Some s) k = Inr (PMB_OK, Some s')"
      "\<forall>j\<in>inplace_ids (t_ops t). present s' j" for k t
    by (rule media_execute [OF ck med rel that])
  show ?thesis if "running a k = Some t" "inplace_ids (t_ops t) = {}" "pmb_tx_abort uc (Some s) k = (PMB_OK, Some s')" for k t
    by (rule media_abort [OF ck med rel that])
  show ?thesis if "s' = s"
    using med that by (simp add: conf_same_def)
qed

text \<open>The logs of a run hold no record of an unknown type.\<close>

definition typed :: "spec_state \<Rightarrow> bool" where
  "typed a \<longleftrightarrow> (\<forall>k t. running a k = Some t \<longrightarrow> LOther \<notin> set (t_ops t))"

lemma typed_step: "typed a \<Longrightarrow> typed (spec_do e a)"
  by (cases e) (auto simp: typed_def append_op_def split: if_splits option.splits)

lemma sys_run_media:
  assumes run: "sys_run uc s0 es s a" and ck: "checksum_spec uc ck" and s0: "start_ok s0" "media_ok ck s0"
  shows "media_ok ck s \<and> typed a \<and> conf_same s0 s"
  using run
proof (induction rule: sys_run.induct)
  case start
  then show ?case
    using s0(2) by (simp add: typed_def conf_same_def)
next
  case (step es s a e s')
  have "rel (space s0) (slot_ids s0) s a"
    using sys_run_rel [OF step.hyps(1) ck s0(1)] by simp
  from sys_step_media [OF ck _ this step.hyps(2,3)] step.IH typed_step show ?case
    unfolding conf_same_def by metis
qed

end
