(* ===== verification/Restart.thy ===== *)
theory Restart
  imports Media
begin

text \<open>
  Opening a pool again after the process has ended, or the power was lost, between two calls: \<open>tx_log_check\<close> settles the log,
  \<open>recovery\<close> scans the blocks, and the store holds what was committed.
\<close>

section \<open>Settling the log after a crash\<close>

text \<open>
  \<open>image_of B s r\<close>: the handle \<open>r\<close>, not yet with its lists, is on a pool whose slots, and whose
  blocks in \<open>B\<close>, have the bytes of \<open>s\<close>.
\<close>

definition image_of :: "u64 set \<Rightarrow> pmb_handle \<Rightarrow> pmb_handle \<Rightarrow> bool" where
  "image_of B s r \<longleftrightarrow> conf_same s r \<and> tx_slots_count (op_log r) = b_tx_slots_count (bck s) \<and> slots_kept s {} r \<and>
     (\<forall>i\<in>B. block_ok (bck s) i \<longrightarrow> same_on (blk_ptr s i) (block_len (bck s) i) (mem r) (mem s))"

text \<open>What recovery can undo: no transaction is in the first slot, none is committed, none updates in place.\<close>

definition recoverable :: "spec_state \<Rightarrow> bool" where
  "recoverable a \<longleftrightarrow> running a 1 = None \<and> (\<forall>k t. running a k = Some t \<longrightarrow> \<not> t_done t \<and> inplace_ids (t_ops t) = {})"

definition unfinished :: "spec_state \<Rightarrow> u64 set" where
  "unfinished a = (\<Union>t\<in>ran (running a). dom (t_new t))"

definition slot_log :: "spec_state \<Rightarrow> u8 \<Rightarrow> log_rec list" where
  "slot_log a t = (case running a (ucast t + 1) of None \<Rightarrow> [] | Some u \<Rightarrow> t_ops u)"

lemma settle_undo: "set (settle_ids False rs) = written_ids rs"
proof (induction rs)
  case (Cons r rs)
  then show ?case
    by (cases r) auto
qed simp

lemma slot_number: "ucast ((ucast t + 1 :: u64) - 1) = t" for t :: u8
  by (simp, transfer, simp)

lemma image_slot:
  assumes "image_of B s r" and "slot_ok (bck s) t"
  shows "bck r = bck s" and "same_on (backend_tx_direct (Some (bck s)) t) (slot_cap s) (mem r) (mem s)"
    and "slot_at (mem r) (backend_tx_direct (Some (bck s)) t) = slot_at (mem s) (backend_tx_direct (Some (bck s)) t)"
proof -
  show "bck r = bck s"
    using assms(1) by (simp add: image_of_def conf_same_def)
  show same: "same_on (backend_tx_direct (Some (bck s)) t) (slot_cap s) (mem r) (mem s)"
    using assms by (simp add: image_of_def slots_kept_def)
  have "same_on (backend_tx_direct (Some (bck s)) t) 24 (mem r) (mem s)"
    by (rule same_on_sub [OF same]) (use bs.slot_extent_header [OF assms(2)] in auto)
  then show "slot_at (mem r) (backend_tx_direct (Some (bck s)) t) = slot_at (mem s) (backend_tx_direct (Some (bck s)) t)"
    by (rule slot_at_cong)
qed

text \<open>The slot of an open transaction is ready to be undone.\<close>

lemma running_slot_ready:
  assumes rel: "rel U K s a" and typed: "typed a" and rec: "recoverable a" and im: "image_of B s r" and sub: "unfinished a \<subseteq> B"
    and k: "running a k = Some u" and t: "t = ucast (k - 1)" "t \<noteq> 0"
  shows "slot_ready ck r t (t_ops u)" and "\<not> committed ck r t" and "\<not> slot_empty r t"
proof -
  let ?p = "backend_tx_direct (Some (bck s)) t" and ?rs = "t_ops u"
  have u: "\<not> t_done u" "inplace_ids ?rs = {}" "LOther \<notin> set ?rs"
    using rec typed k by (auto simp: recoverable_def typed_def)
  have tc: "tx_holds s k PROCESSING ?rs"
    using relD(9) [OF rel k] u(1) by (simp add: tx_conc_def)
  then have ok: "tx_ok s k" and sh: "slot_holds (mem s) ?p (slot_cap s) PROCESSING ?rs"
    by (simp_all add: tx_holds_def tx_slot_ptr_def t(1))
  note slot = tx_index(2) [OF ok, folded t(1)] note ims = image_slot [OF im slot]
  have st: "s_status (slot_at (mem r) ?p) = status_code PROCESSING"
    using sh ims(3) by (simp add: slot_holds_def)
  then show nc: "\<not> committed ck r t" and "\<not> slot_empty r t"
    by (simp_all add: committed_def ims(1) Let_def)
  have "slot_holds (mem r) ?p (slot_cap s) PROCESSING ?rs"
    using slot_holds_cong [OF sh same_on_sym [OF ims(2)]] .
  moreover have "unat (s_size (slot_at (mem s) ?p)) + 24 < 2 ^ 64"
  proof -
    obtain n where "unat t = Suc n"
      using t(2) by (metis unat_eq_0 not0_implies_Suc)
    then have "slot_cap s \<le> ?p"
      using backend_tx_direct_slot(1) [of "bck s" t] slot by (simp add: slot_ok_def)
    then show ?thesis
      using sh bs.slot_bound [OF slot] bs.slot_extent_header [OF slot] by (simp add: slot_holds_def)
  qed
  moreover have "clear_ok r i" if i: "i \<in> written_ids ?rs" for i
  proof -
    have d: "i \<in> dom (t_new u)"
      using tx_invD(1) [OF relD(13) [OF rel k]] i by simp
    then have "store s i \<noteq> None"
      using shownD(1) [OF relD(10) [OF rel] k d] by auto
    then have b: "block_ok (bck s) i" "clear_ok s i"
      using store_block [of s i] store_fits [OF relD(3) [OF rel], of i] by (simp_all add: clear_ok_def)
    moreover have "i \<in> B"
      using sub d k by (auto simp: unfinished_def ran_def)
    ultimately show ?thesis
      using im clear_ok_same(1) [OF ims(1) _ b(1)] by (simp add: image_of_def)
  qed
  moreover have "rec_valid x" if x: "x \<in> set ?rs" for x
  proof -
    have "i \<noteq> 0" if "i \<in> touched u" for i
      using touched_shown [OF rel k] that store_block [of s i] by auto
    moreover have "released x \<union> written x \<subseteq> touched u"
      using tx_invD(1) [OF relD(13) [OF rel k]] x by (auto simp: touched_def)
    ultimately show ?thesis
      using x u(2,3) by (cases x) (auto 0 3)
  qed
  ultimately show "slot_ready ck r t ?rs"
    unfolding slot_ready_def ims(1) using nc slot st ims(3) settle_undo by auto
qed

lemma image_log:
  assumes rel: "rel U K s a" and med: "media_ok ck s" and typed: "typed a" and rec: "recoverable a" and im: "image_of B s r"
    and sub: "unfinished a \<subseteq> B" and K: "K = {1..ucast (b_tx_slots_count (bck s))}" and n: "b_tx_slots_count (bck s) \<noteq> - 1" "b_tx_slots_count (bck s) \<noteq> 0"
  shows "log_ready ck r (slot_log a)"
    and "(\<Union>t\<in>{1..<b_tx_slots_count (bck s)}. log_clears ck r (slot_log a) t) = unfinished a"
    and "slot_empty r 0"
proof -
  let ?n = "b_tx_slots_count (bck s)" and ?k = "\<lambda>t :: u8. ucast t + 1 :: u64"
  have lay: "layout_ok (bck s)"
    using relD(2) [OF rel] by (simp add: slots_ok_def)
  have b: "bck r = bck s" "tx_slots_count (op_log r) = ?n"
    using im by (simp_all add: image_of_def conf_same_def)
  have inK: "?k t \<in> K" if "t < ?n" for t
  proof -
    have "unat (?k t) = Suc (unat t)"
      using unat_lt_8 [of t] by (simp add: unat_word_ariths)
    then show ?thesis
      using that unat_lt_8 [of ?n] by (simp add: K word_nat)
  qed
  have free: "slot_empty r t" if t: "t < ?n" "running a (?k t) = None" for t
  proof -
    have "?k t \<in> slot_ids s"
      using relD(8) [OF rel] inK [OF t(1)] t(2) by auto
    then have "slot_empty s t"
      using media_okD(3) [OF med, of "?k t"] by (simp only: slot_number)
    then show ?thesis
      using image_slot [OF im, of t] t(1) lay by (simp add: slot_ok_def)
  qed
  have used: "slot_ready ck r t (slot_log a t)" "log_clears ck r (slot_log a) t = dom (t_new u)"
    if t: "t \<noteq> 0" "running a (?k t) = Some u" for t u
  proof -
    note ready = running_slot_ready [OF rel typed rec im sub t(2) slot_number [symmetric] t(1)]
    show "slot_ready ck r t (slot_log a t)"
      using ready(1) t(2) by (simp add: slot_log_def)
    show "log_clears ck r (slot_log a) t = dom (t_new u)"
      using ready(2,3) t(2) tx_invD(1) [OF relD(13) [OF rel t(2)]] by (simp add: log_clears_def slot_log_def settle_undo)
  qed
  have "slot_empty r t \<or> slot_ready ck r t (slot_log a t)" if "0 < t \<and> t < ?n" for t
    using that free [of t] used(1) [of t] by (cases "running a (?k t)") auto
  then show "log_ready ck r (slot_log a)"
    using lay n unfolding log_ready_def b(2) unfolding b(1) by (simp add: word_neq_0_conv)
  show "slot_empty r 0"
    using free [of 0] rec n(2) by (simp add: recoverable_def word_neq_0_conv)
  show "(\<Union>t\<in>{1..<?n}. log_clears ck r (slot_log a) t) = unfinished a"
  proof (intro equalityI subsetI)
    fix i
    assume "i \<in> (\<Union>t\<in>{1..<?n}. log_clears ck r (slot_log a) t)"
    then obtain t where t: "1 \<le> t" "t < ?n" "i \<in> log_clears ck r (slot_log a) t"
      by auto
    then have t0: "t \<noteq> 0"
      by auto
    show "i \<in> unfinished a"
    proof (cases "running a (?k t)")
      case None
      then show ?thesis
        using free [OF t(2)] t(3) by (simp add: log_clears_def)
    next
      case (Some u)
      then show ?thesis
        using used(2) [OF t0] t(3) by (auto simp: unfinished_def ran_def)
    qed
  next
    fix i
    assume "i \<in> unfinished a"
    then obtain k u where k: "running a k = Some u" "i \<in> dom (t_new u)"
      by (auto simp: unfinished_def ran_def)
    let ?t = "ucast (k - 1) :: u8"
    have ok: "tx_ok s k" "k \<noteq> 1"
      using running_slot(1) [OF rel k(1)] rec k(1) by (auto simp: recoverable_def)
    note ti = tx_index [OF ok(1)]
    have kt: "?k ?t = k"
      using ti(1,3) unat_lt_8 [of ?t] by (simp add: word_eq_unat unat_word_ariths)
    have "unat k \<noteq> 1"
      using ok(2) by (simp add: word_eq_unat)
    then have "?t \<noteq> 0" "1 \<le> ?t"
      using ti(1,3) by (simp_all add: word_nat flip: unat_eq_0)
    moreover have "?t < ?n"
      using ti(2) by (simp add: slot_ok_def)
    moreover have "i \<in> log_clears ck r (slot_log a) ?t"
      using used(2) [OF \<open>?t \<noteq> 0\<close>, of u] k kt by simp
    ultimately show "i \<in> (\<Union>t\<in>{1..<?n}. log_clears ck r (slot_log a) t)"
      by auto
  qed
qed

text \<open>What the blocks in \<open>B\<close> hold once the log is settled: the committed objects.\<close>

definition settled_to :: "(u8 list \<Rightarrow> u64) \<Rightarrow> u64 set \<Rightarrow> spec_state \<Rightarrow> pmb_handle \<Rightarrow> bool" where
  "settled_to ck B a s \<longleftrightarrow> (\<forall>i\<in>B. store s i = c_map a i \<and> (block_ok (bck s) i \<longrightarrow> (obj_valid ck s i \<longleftrightarrow> c_map a i \<noteq> None)))"

lemma shown_settled:
  assumes rel: "rel U K s a"
  shows "i \<in> unfinished a \<Longrightarrow> c_map a i = None" and "i \<notin> unfinished a \<Longrightarrow> store s i = c_map a i"
proof -
  show "c_map a i = None" if "i \<in> unfinished a"
    using that tx_invD(2) [OF relD(13) [OF rel]] by (fastforce simp: unfinished_def ran_def)
  show "store s i = c_map a i" if "i \<notin> unfinished a"
    using that by (intro shownD(2) [OF relD(10) [OF rel]]) (auto simp: unfinished_def ran_def)
qed

lemma cleared_image:
  assumes rel: "rel U K s a" and med: "media_ok ck s" and im: "image_of B s r" and cl: "cleared r (unfinished a) s2"
  shows "settled_to ck B a s2"
  unfolding settled_to_def
proof (intro ballI conjI)
  fix i
  assume i: "i \<in> B"
  have c: "conf_same s s2" "bck s2 = bck s" "bck r = bck s"
    using im cl by (auto simp: image_of_def cleared_def conf_same_def conf_eq_def)
  note T = media_okD(1) [OF med]
  have T2: "0 < total_objs_count s2"
    using T c(1) by (simp add: conf_same_def)
  have "store s2 i = c_map a i \<and> (block_ok (bck s) i \<longrightarrow> (obj_valid ck s2 i \<longleftrightarrow> c_map a i \<noteq> None))"
  proof (cases "i \<in> unfinished a")
    case True
    then have "\<not> present s2 i"
      using cl by (simp add: cleared_def)
    then show ?thesis
      using shown_settled(1) [OF rel True] obj_valid_iff [OF T2, of i] c(2) by (simp add: store_def)
  next
    case False
    have same: "same_on (blk_ptr s i) (block_len (bck s) i) (mem s2) (mem s)" if b: "block_ok (bck s) i"
    proof (rule same_on_trans)
      show "same_on (blk_ptr s i) (block_len (bck s) i) (mem s2) (mem r)"
        using cl b False c(3) unfolding cleared_def by metis
      show "same_on (blk_ptr s i) (block_len (bck s) i) (mem r) (mem s)"
        using im i b by (simp add: image_of_def)
    qed
    have st: "store s2 i = c_map a i"
      using store_same [OF c(1) relD(3) [OF rel] same] shown_settled(2) [OF rel False] by simp
    moreover have "obj_valid ck s2 i \<longleftrightarrow> c_map a i \<noteq> None" if b: "block_ok (bck s) i"
    proof (cases "present s i")
      case True
      then have "store s i \<noteq> None"
        using b by (simp add: store_def)
      then show ?thesis
        using obj_valid_same [OF c(1) T b _ same [OF b]] store_fits [OF relD(3) [OF rel], of i] media_okD(4) [OF med, of i]
          shown_settled(2) [OF rel False] by simp
    next
      case pr: False
      then show ?thesis
        using block_same_obj(2) [OF c(1) b same [OF b]] obj_valid_iff [OF T2, of i] b c(2) st by (simp add: store_def)
    qed
    ultimately show ?thesis
      by blast
  qed
  then show "store s2 i = c_map a i" "block_ok (bck s2) i \<longrightarrow> (obj_valid ck s2 i \<longleftrightarrow> c_map a i \<noteq> None)"
    using c(2) by simp_all
qed

lemma log_check_image:
  assumes ck: "checksum_spec uc ck" and rel: "rel U K s a" and med: "media_ok ck s" and typed: "typed a" and rec: "recoverable a"
    and im: "image_of B s r" and sub: "unfinished a \<subseteq> B" and K: "K = {1..ucast (b_tx_slots_count (bck s))}"
    and n: "b_tx_slots_count (bck s) \<noteq> - 1" "b_tx_slots_count (bck s) \<noteq> 0"
  shows "\<exists>s2. tx_log_check uc r = Some (Inr s2) \<and> conf_eq r s2 \<and> op_log s2 = op_log r \<and> settled_to ck B a s2 \<and>
    (\<forall>t<b_tx_slots_count (bck s). slot_empty s2 t) \<and> (store_ok r \<longrightarrow> store_ok s2)"
proof -
  let ?n = "b_tx_slots_count (bck s)"
  have b: "bck r = bck s"
    using im by (simp add: image_of_def conf_same_def)
  note log = image_log [OF rel med typed rec im sub K n]
  obtain s2 where s2: "tx_log_check uc r = Some (Inr s2)" "checked_to ck r (slot_log a) ?n s2"
    using log_check_settles [OF ck log(1)] unfolding b by blast
  then have cl: "cleared r (unfinished a) s2" and kept: "slots_kept r {1..<?n} s2" and mt: "\<forall>t\<in>{1..<?n}. slot_empty s2 t"
    using log(2) unfolding checked_to_def by simp_all
  have b2: "bck s2 = bck s"
    using cleared_bck [OF cl] b by simp
  have "slot_empty s2 t" if t: "t < ?n" for t
  proof (cases "t = 0")
    case True
    have slot: "slot_ok (bck s) 0"
      using relD(2) [OF rel] t True by (simp add: slots_ok_def slot_ok_def)
    have "same_on (backend_tx_direct (Some (bck s)) 0) (slot_cap s) (mem s2) (mem r)"
      using kept slot by (simp add: slots_kept_def b)
    then have "same_on (backend_tx_direct (Some (bck s)) 0) 24 (mem s2) (mem r)"
      by (rule same_on_sub) (use bs.slot_extent_header [OF slot] in auto)
    from slot_at_cong [OF this] show ?thesis
      using log(3) True by (simp add: b b2)
  next
    case False
    then have "1 \<le> t"
      by (simp add: word_nat Suc_le_eq flip: unat_eq_0)
    then show ?thesis
      using mt t by simp
  qed
  then show ?thesis
    using s2(1) cl cleared_image [OF rel med im cl] cleared_store(2) [OF cl] unfolding cleared_def by blast
qed

section \<open>Opening the pool again\<close>

text \<open>An open store after whose end the pool can be opened again.\<close>

definition opened :: "(u8 list \<Rightarrow> u64) \<Rightarrow> pmb_handle \<Rightarrow> bool" where
  "opened ck s \<longleftrightarrow> start_ok s \<and> media_ok ck s \<and> slot_ids s = {1..ucast (b_tx_slots_count (bck s))}"

text \<open>The process is gone: the pool is mapped again, with the slots of \<open>s\<close> and its blocks in \<open>B\<close>.\<close>

definition remapped :: "nvml \<Rightarrow> pmb_opts \<Rightarrow> world \<Rightarrow> world \<Rightarrow> u64 set \<Rightarrow> pmb_handle \<Rightarrow> bool" where
  "remapped nv opts w w' B s \<longleftrightarrow> open_or_create nv opts w = Inr (False, Some (bck s), w') \<and>
     o_write_log_entries opts = b_tx_slots_count (bck s) \<and> b_tx_slots_count (bck s) \<noteq> - 1 \<and> o_max_key_len opts = max_key_len s \<and>
     (\<forall>t. slot_ok (bck s) t \<longrightarrow> same_on (backend_tx_direct (Some (bck s)) t) (slot_cap s) (mem w') (mem s)) \<and>
     (\<forall>i\<in>B. block_ok (bck s) i \<longrightarrow> same_on (blk_ptr s i) (block_len (bck s) i) (mem w') (mem s))"

lemma store_lists [simp]:
  "store (s\<lparr>free_list := f, meta_free_list := mf, objs_list := ob, meta_objs_list := mo\<rparr>) = store s"
  "store_ok (s\<lparr>free_list := f, meta_free_list := mf, objs_list := ob, meta_objs_list := mo\<rparr>) = store_ok s"
  by (simp_all add: fun_eq_iff store_def store_ok_def present_def obj_at_def val_start_def in_block_def)

text \<open>A store is open when its log is fresh, its slots are empty and its lists and the scan agree with the blocks.\<close>

lemma opened_fresh:
  assumes hp: "heap_ok hp" and lay: "layout_ok (bck s)" and lg: "fresh_log hp (b_tx_slots_count (bck s)) (op_log s)"
    and T: "0 < total_objs_count s" "total_objs_count s = b_data_nlba (bck s)"
    and wf: "list_wf (free_list s)" "list_wf (meta_free_list s)" and ok: "store_ok s"
    and free: "\<forall>i\<in>list_ids (free_list s) \<union> list_ids (meta_free_list s). store s i = None"
    and valid: "\<And>i. store s i \<noteq> None \<Longrightarrow> obj_valid ck s i" and slots: "\<forall>t<b_tx_slots_count (bck s). slot_empty s t"
  shows "opened ck s"
proof -
  have ids: "slot_ids s = {1..ucast (b_tx_slots_count (bck s))}"
    using lg by (simp add: fresh_log_def)
  have "pool_inv s"
    using lg lay wf ok free fresh_ml_rest [OF hp] by (auto simp: pool_inv_def slots_ok_def fresh_log_def)
  then have "start_ok s"
    using free by (simp add: start_ok_def)
  moreover have "media_ok ck s"
  proof (rule media_okI [OF T _ valid])
    fix k
    assume "k \<in> slot_ids s"
    then have "tx_ok s k"
      using lay lg by (auto simp: ids tx_ok_def fresh_log_def word_nat Suc_le_eq)
    then show "slot_empty s (ucast (k - 1))"
      using slots tx_index(2) [of s k] by (simp add: slot_ok_def)
  qed
  ultimately show ?thesis
    using ids by (simp add: opened_def)
qed

lemma image_store_ok:
  assumes rel: "rel U K s a" and im: "image_of UNIV s r"
  shows "store_ok r"
proof -
  have c: "conf_same s r" "bck r = bck s"
    using im by (simp_all add: image_of_def conf_same_def)
  have same: "same_on (blk_ptr s i) (block_len (bck s) i) (mem r) (mem s)" if "block_ok (bck s) i" for i
    using im that by (simp add: image_of_def)
  show ?thesis
    unfolding store_ok_def c(2) using relD(3) [OF rel] block_same_obj(2,3) [OF c(1) _ same] unfolding store_ok_def by blast
qed

text \<open>The state that \<open>pmb_open\<close> settles and scans.\<close>

lemma remapped_image:
  assumes pool: "remapped nv opts w w' B s" and med: "media_ok ck s" and lg: "fresh_log hp (b_tx_slots_count (bck s)) lg"
  shows "image_of B s ((found opts (bck s) w')\<lparr>op_log := lg\<rparr>)"
  using pool media_okD(2) [OF med] lg
  by (simp add: image_of_def remapped_def conf_same_def slots_kept_def fresh_log_def) (simp add: found_def new_handle_def)

lemma reopen_image:
  assumes ck: "checksum_spec uc ck" and hp: "heap_ok hp" and rel: "rel U {1..ucast (b_tx_slots_count (bck s))} s a" and med: "media_ok ck s"
    and typed: "typed a" and rec: "recoverable a" and pool: "remapped nv opts w w' B s" and sub: "unfinished a \<subseteq> B"
  shows "\<exists>s'. pmb_open nv uc hp sched (Some opts) w = Some (Inr (0, Inr s')) \<and> bck s' = bck s \<and> settled_to ck B a s' \<and>
    list_ids (objs_list s') = {i. 0 < i \<and> i < total_objs_count s \<and> obj_valid ck s' i} \<and> (B = UNIV \<longrightarrow> opened ck s')"
proof -
  let ?n = "b_tx_slots_count (bck s)"
  have p: "open_or_create nv opts w = Inr (False, Some (bck s), w')" "o_write_log_entries opts = ?n" "?n \<noteq> - 1"
    using pool by (simp_all add: remapped_def)
  have n0: "?n \<noteq> 0"
    using p(1,2) by (auto simp: open_or_create_def)
  have lay: "layout_ok (bck s)"
    using relD(2) [OF rel] by (simp add: slots_ok_def)
  note T = media_okD(1,2) [OF med]
  obtain lg where lg: "tx_log_init (oh_log hp) ?n (new_handle opts (bck s) w') = Inr ((new_handle opts (bck s) w')\<lparr>op_log := lg\<rparr>)"
      "fresh_log hp ?n lg"
    using fresh_log_init [OF hp n0 p(3)] by blast
  define r where "r = (found opts (bck s) w')\<lparr>op_log := lg\<rparr>"
  have im: "image_of B s r"
    unfolding r_def by (rule remapped_image [OF pool med lg(2)])
  obtain s2 where s2: "tx_log_check uc r = Some (Inr s2)" "conf_eq r s2" "op_log s2 = lg" "settled_to ck B a s2"
      "\<forall>t<?n. slot_empty s2 t" "store_ok r \<longrightarrow> store_ok s2"
    using log_check_image [OF ck rel med typed rec im sub refl p(3) n0] by (auto simp: r_def)
  have c: "bck s2 = bck s" "total_objs_count s2 = total_objs_count s" "meta_objs_count s2 = b_meta_nlba (bck s)"
    using s2(2) T(2) by (simp_all add: conf_eq_def r_def)
  have sum: "unat (total_objs_count s) + unat (b_meta_nlba (bck s)) < 2 ^ 64"
    using nlba_sum_no_wrap [OF lay] unat_lt_64 [of "b_data_nlba (bck s) + b_meta_nlba (bck s)"] T(2) by simp
  obtain f mf ob mo where o: "open_existing uc hp sched r = Some (Inr (s2\<lparr>free_list := f, meta_free_list := mf, objs_list := ob, meta_objs_list := mo\<rparr>))"
      "list_wf f" "list_ids f = {i \<in> store_ids s2. i < total_objs_count s \<and> \<not> obj_valid ck s2 i}"
      "list_wf mf" "list_ids mf = {i \<in> store_ids s2. total_objs_count s \<le> i \<and> \<not> obj_valid ck s2 i}"
      "list_ids ob = {i \<in> store_ids s2. i < total_objs_count s \<and> obj_valid ck s2 i}"
    using open_existing_checked [OF ck hp s2(1)] T(1) sum unfolding c by blast
  define s' where "s' = s2\<lparr>free_list := f, meta_free_list := mf, objs_list := ob, meta_objs_list := mo\<rparr>"
  have e: "bck s' = bck s" "mem s' = mem s2" "total_objs_count s' = total_objs_count s" "op_log s' = lg" "store s' = store s2"
      "obj_valid ck s' = obj_valid ck s2" "store_ok s' = store_ok s2" "free_list s' = f" "meta_free_list s' = mf" "objs_list s' = ob"
    using c s2(3) by (simp_all add: s'_def fun_eq_iff)
  have "pmb_open nv uc hp sched (Some opts) w = Some (Inr (0, Inr s'))"
    unfolding s'_def using pmb_open_found [OF p(1) hp _ o(1) [unfolded r_def]] lg(1) by (simp add: p(2))
  moreover have "settled_to ck B a s'"
    using s2(4) by (simp add: settled_to_def e c(1))
  moreover have "list_ids (objs_list s') = {i. 0 < i \<and> i < total_objs_count s \<and> obj_valid ck s' i}"
    using o(6) data_store_ids [OF lay, where P = "obj_valid ck s2" and opts = opts and w = w'] T(2) c by (simp add: e store_ids_def)
  moreover have "opened ck s'" if B: "B = UNIV"
  proof -
    have gone: "store s2 i = None" if "\<not> obj_valid ck s2 i" for i
      using s2(4) that store_block [of s2 i] unfolding settled_to_def B by fastforce
    have "store_ok s2"
      using s2(6) image_store_ok [OF rel] im B by simp
    moreover have "\<forall>i\<in>list_ids f \<union> list_ids mf. store s2 i = None"
      using gone o(3,5) by auto
    moreover have "obj_valid ck s2 i" if "store s2 i \<noteq> None" for i
      using that gone [of i] by (rule contrapos_np)
    ultimately show ?thesis
      using lay lg(2) T s2(5) o(2,4) by (intro opened_fresh [OF hp]) (simp_all add: e c(1))
  qed
  ultimately show ?thesis
    using e(1) by blast
qed

text \<open>What a run from an open store gives to a restart.\<close>

lemma sys_run_opened:
  assumes run: "sys_run uc s0 es s a" and ck: "checksum_spec uc ck" and s0: "opened ck s0"
  shows "rel (space s0) {1..ucast (b_tx_slots_count (bck s))} s a" and "media_ok ck s" and "typed a" and "conf_same s0 s"
proof -
  have s: "start_ok s0" "media_ok ck s0" "slot_ids s0 = {1..ucast (b_tx_slots_count (bck s0))}"
    using s0 by (simp_all add: opened_def)
  show "media_ok ck s" "typed a" "conf_same s0 s"
    using sys_run_media [OF run ck s(1,2)] by simp_all
  then show "rel (space s0) {1..ucast (b_tx_slots_count (bck s))} s a"
    using sys_run_rel [OF run ck s(1)] s(3) by (simp add: conf_same_def)
qed

lemma settled_objects:
  assumes st: "settled_to ck B a s'" and b: "bck s' = bck s" "layout_ok (bck s)" "total_objs_count s = b_data_nlba (bck s)"
    and i: "i \<in> B" "i < total_objs_count s"
  shows "0 < i \<and> obj_valid ck s' i \<longleftrightarrow> c_map a i \<noteq> None"
proof (cases "i = 0")
  case True
  have "store s' 0 = None"
    by (simp add: store_def present_def)
  then show ?thesis
    using st i(1) True by (simp add: settled_to_def)
next
  case False
  then show ?thesis
    using assms by (simp add: settled_to_def block_ok_def data_id_def word_neq_0_conv)
qed

lemma settled_opened:
  assumes ck: "checksum_spec uc ck" and hp: "heap_ok hp" and s0: "opened ck s0" and run: "sys_run uc s0 es s a"
    and rec: "recoverable a" and pool: "remapped nv opts w w' UNIV s"
  shows "\<exists>s'. pmb_open nv uc hp sched (Some opts) w = Some (Inr (0, Inr s')) \<and> bck s' = bck s \<and> settled_to ck UNIV a s' \<and>
    list_ids (objs_list s') = {i. 0 < i \<and> i < total_objs_count s \<and> obj_valid ck s' i} \<and> opened ck s' \<and> store s' = c_map a"
proof -
  note r = sys_run_opened [OF run ck s0]
  obtain s' where "pmb_open nv uc hp sched (Some opts) w = Some (Inr (0, Inr s'))" "bck s' = bck s" "settled_to ck UNIV a s'"
      "list_ids (objs_list s') = {i. 0 < i \<and> i < total_objs_count s \<and> obj_valid ck s' i}" "opened ck s'"
    using reopen_image [OF ck hp r(1-3) rec pool, of sched] by auto
  then show ?thesis
    by (intro exI [of _ s']) (simp add: settled_to_def fun_eq_iff)
qed

section \<open>Power loss\<close>

text \<open>With synchronous durability the last thing that execution and abort do to the pool is \<open>backend_persist_all\<close>.\<close>

abbreviation reach :: "backend \<Rightarrow> nat" where
  "reach b \<equiv> unat (b_datasize b + b_metasize b)"

definition all_durable :: "pmb_handle \<Rightarrow> bool" where
  "all_durable s \<longleftrightarrow> (\<exists>l. plog s = l @ [Durable (b_tx_log (bck s)) (reach (bck s))])"

definition sync_pool :: "backend \<Rightarrow> bool" where
  "sync_pool b \<longleftrightarrow> b_sync_type b = 0 \<and> (b_persist b = Pmem_persist \<or> b_persist b = Pmem_msync)"

lemma tx_set_zero_durable:
  assumes "s1 = snd (backend_tx_set_zero (Some (bck s2)) p s2)" and "p \<noteq> NULL" and "sync_pool (bck s1)"
  shows "all_durable (tx_log_free_slot s1 k)"
proof -
  have b: "bck s1 = bck s2"
    using backend_tx_set_zero_mem [OF assms(2), of "bck s2" s2] assms(1) by auto
  then have "\<exists>l. plog s1 = l @ [Durable (b_tx_log (bck s1)) (reach (bck s1))]"
    using assms(2,3) unfolding assms(1)
    by (auto simp: sync_pool_def backend_tx_set_zero_def backend_persist_all_def call_persist_def Let_def)
  then show ?thesis
    by (simp add: all_durable_def tx_log_free_slot_def)
qed

lemma execute_durable:
  assumes "pmb_tx_execute uc (Some s) k = Inr (PMB_OK, Some s')" and "sync_pool (bck s')"
  shows "all_durable s'"
proof -
  let ?p = "backend_tx_direct (Some (bck s)) (ucast (k - 1))"
  obtain s1 where s1: "tx_slot_execute uc s k = Inr (PMB_OK, s1)" "s' = tx_log_free_slot s1 k"
    using assms(1) by (auto simp: pmb_tx_execute_def bindR_eq_Inr_iff pmb_codes split: if_splits)
  then obtain s2 where "?p \<noteq> NULL" "s1 = snd (backend_tx_set_zero (Some (bck s2)) ?p s2)"
    by (auto simp: tx_slot_execute_def bindR_eq_Inr_iff pmb_codes Let_def split: if_splits)
  then show ?thesis
    using tx_set_zero_durable [of s1 s2 ?p k] s1(2) assms(2) by (simp add: tx_log_free_slot_def)
qed

lemma abort_durable:
  assumes "pmb_tx_abort uc (Some s) k = (PMB_OK, Some s')" and "sync_pool (bck s')"
  shows "all_durable s'"
proof -
  let ?p = "backend_tx_direct (Some (bck s)) (ucast (k - 1))"
  obtain s1 where s1: "tx_slot_abort uc s k = (PMB_OK, s1)" "s' = tx_log_free_slot s1 k"
    using assms(1) by (auto simp: pmb_tx_abort_def pmb_codes split: if_splits prod.splits)
  then obtain s2 where "?p \<noteq> NULL" "s1 = snd (backend_tx_set_zero (Some (bck s2)) ?p s2)"
    by (auto simp: tx_slot_abort_def pmb_codes Let_def split: if_splits)
  then show ?thesis
    using tx_set_zero_durable [of s1 s2 ?p k] s1(2) assms(2) by (simp add: tx_log_free_slot_def)
qed

inductive_cases run_lastE: "sys_run uc s0 (es @ [e]) s a"
inductive_cases executeE: "sys_step uc s (EExecute k) s'"
inductive_cases abortE: "sys_step uc s (EAbort k) s'"

lemma run_last_durable:
  assumes "sys_run uc s0 (es @ [e]) s a" and "e = EExecute k \<or> e = EAbort k" and "sync_pool (bck s)"
  shows "all_durable s"
proof -
  obtain s1 where "sys_step uc s1 e s"
    using assms(1) by (auto elim: run_lastE)
  then show ?thesis
    using assms(2,3) execute_durable abort_durable by (auto elim: executeE abortE)
qed

text \<open>The blocks that \<open>backend_persist_all\<close> reaches.\<close>

definition durable_blocks :: "backend \<Rightarrow> u64 set" where
  "durable_blocks b = {i. block_ok b i \<longrightarrow> backend_direct (Some b) i + block_len b i \<le> b_tx_log b + reach b}"

lemma remapped_durable:
  assumes pool: "open_or_create nv opts w = Inr (False, Some (bck s), w')" "o_write_log_entries opts = b_tx_slots_count (bck s)"
      "b_tx_slots_count (bck s) \<noteq> - 1" "o_max_key_len opts = max_key_len s"
    and same: "same_on (b_tx_log (bck s)) (reach (bck s)) (mem w') (mem s)" and log: "b_data (bck s) \<le> b_tx_log (bck s) + reach (bck s)"
  shows "remapped nv opts w w' (durable_blocks (bck s)) s"
proof -
  have "same_on (backend_tx_direct (Some (bck s)) t) (slot_cap s) (mem w') (mem s)" if "slot_ok (bck s) t" for t
    using that backend_tx_direct_slot [of "bck s" t] log by (intro same_on_sub [OF same]) (auto simp: slot_ok_def)
  moreover have "same_on (blk_ptr s i) (block_len (bck s) i) (mem w') (mem s)" if "i \<in> durable_blocks (bck s)" "block_ok (bck s) i" for i
  proof (rule same_on_sub [OF same])
    show "blk_ptr s i + block_len (bck s) i \<le> b_tx_log (bck s) + reach (bck s)"
      using that by (simp add: durable_blocks_def)
    show "b_tx_log (bck s) \<le> blk_ptr s i"
      using that(2) backend_direct_data(1) [of "bck s" i] backend_direct_meta(1) [of "bck s" i]
      by (auto simp: block_ok_def layout_ok_def)
  qed
  ultimately show ?thesis
    using pool by (simp add: remapped_def)
qed

section \<open>Properties\<close>

text \<open>The sample pool, mapped with the bytes \<open>m\<close>.\<close>

definition sample_reopen :: "memory \<Rightarrow> nvml" where
  "sample_reopen m = sample_nvml\<lparr>util_pool_open := \<lambda>_. Some (sample_mapping\<lparr>mp_hdr := sample_backend,
     mp_bytes := \<lambda>a. m (0x10000000 + a)\<rparr>)\<rparr>"

lemma sample_reopen_open:
  "\<exists>w'. open_or_create (sample_reopen m) sample_opts sample_world = Inr (False, Some sample_backend, w') \<and>
     (\<forall>a. 0x10000000 \<le> a \<and> a < 0x21000000 \<longrightarrow> mem w' a = m a)"
proof -
  have "backend_runtime_info 4352 0x10000000 False 0x10000000 0x1000000 16 0x800000 0 sample_backend = sample_backend"
    by (simp add: sample_backend_def backend_runtime_info_def blank_backend_def Let_def ptr_add_def roundup_def PMB_FORMAT_DATA_ALIGN_def)
  then show ?thesis
    by (simp add: open_or_create_def sample_opts_def backend_open_def sample_reopen_def sample_nvml_def backend_map_common_def
      map_bytes_def sample_mapping_def sample_world_def backend_check_header_def TX_LOG_SIZE_def Let_def roundup_def
      PMB_FORMAT_DATA_ALIGN_def sizeof_pmb_data_hdr_def sample_backend_fields)
qed

lemma sample_remapped:
  assumes "bck s = sample_backend" and "max_key_len s = 64"
  obtains w' where "remapped (sample_reopen (mem s)) sample_opts sample_world w' B s"
    "open_or_create (sample_reopen (mem s)) sample_opts sample_world = Inr (False, Some sample_backend, w')"
    "same_on 0x10002000 0x8FFE000 (mem w') (mem s)"
proof -
  obtain w' where w': "open_or_create (sample_reopen (mem s)) sample_opts sample_world = Inr (False, Some sample_backend, w')"
      "\<forall>a. 0x10000000 \<le> a \<and> a < 0x21000000 \<longrightarrow> mem w' a = mem s a"
    using sample_reopen_open by blast
  have pool: "same_on 0x10002000 0x10FFE000 (mem w') (mem s)"
    using w'(2) by (simp add: same_on_def)
  have "same_on (backend_tx_direct (Some sample_backend) t) (unat (b_tx_slot_size sample_backend)) (mem w') (mem s)" if "slot_ok sample_backend t" for t
    using that backend_tx_direct_slot [OF sample_layout, of t]
    by (intro same_on_sub [OF pool]) (simp_all add: slot_ok_def sample_backend_fields)
  moreover have "same_on (backend_direct (Some sample_backend) i) (block_len sample_backend i) (mem w') (mem s)" if "block_ok sample_backend i" for i
    using that backend_direct_data [OF sample_layout, of i] backend_direct_meta [OF sample_layout, of i]
    by (intro same_on_sub [OF pool]) (auto simp: block_ok_def block_len_def pool_end_def sample_backend_fields)
  ultimately have "remapped (sample_reopen (mem s)) sample_opts sample_world w' B s"
    using w'(1) assms by (simp add: remapped_def) (simp add: sample_opts_def sample_backend_fields)
  moreover have "same_on 0x10002000 0x8FFE000 (mem w') (mem s)"
    by (rule same_on_sub [OF pool]) simp_all
  ultimately show ?thesis
    using that w'(1) by blast
qed

lemma sample_opened: "opened sample_ck sample_store"
proof -
  have ids: "slot_ids sample_store = {1..16}"
    by (simp add: sample_store_def list_ids_def caslist_eval caslist_ids_def)
  have f: "bck sample_store = sample_backend" "mem sample_store = (\<lambda>_. 0)" "total_objs_count sample_store = 32766"
    by (simp_all add: sample_store_def)
  have "media_ok sample_ck sample_store"
    by (rule media_okI) (simp_all add: f sample_backend_fields slot_at_def sample_store_empty)
  then show ?thesis
    using sample_start_ok by (simp add: opened_def ids f sample_backend_fields)
qed

text \<open>Transaction 1 is executed while transaction 2 is open.\<close>

lemma sample_executed:
  obtains es s a where "sys_run sample_uc sample_store (es @ [EExecute 1]) s a" "c_map a = [1 \<mapsto> sample_obj]"
    "running a = [2 \<mapsto> \<lparr>t_done = False, t_ops = [], t_new = Map.empty\<rparr>]" "bck s = sample_backend" "max_key_len s = 64"
proof -
  let ?t = "\<lparr>t_done = False, t_ops = [LWrite 1], t_new = [1 \<mapsto> sample_obj]\<rparr>"
  obtain s a where r: "sys_run sample_uc sample_store sample_events s a" "dom (running a) = {1, 2}" "running a 1 = Some ?t"
      "running a 2 = Some \<lparr>t_done = False, t_ops = [], t_new = Map.empty\<rparr>" "c_map a = Map.empty"
    by (rule sample_sys_run)
  note rel = sys_run_opened(1) [OF r(1) sample_checksum sample_opened]
  have o: "opn a 1 ?t"
    using r(3) by (simp add: opn_def)
  obtain s1 where "pmb_tx_commit sample_uc (Some s) 1 = (PMB_OK, Some s1)"
    using rel_commit [OF sample_checksum rel o] by blast
  then have r1: "sys_run sample_uc sample_store (sample_events @ [ECommit 1]) s1 (spec_do (ECommit 1) a)"
    using o by (intro sys_run.step [OF r(1)] sys_step.commit) auto
  note rel1 = sys_run_opened(1) [OF r1 sample_checksum sample_opened]
  have fin: "running (spec_do (ECommit 1) a) 1 = Some (?t\<lparr>t_done := True\<rparr>)" "t_done (?t\<lparr>t_done := True\<rparr>)"
    by (simp_all add: r(3))
  obtain s2 where "sys_step sample_uc s1 (EExecute 1) s2"
    using execute_step [OF sample_checksum rel1 fin] by auto
  then have r2: "sys_run sample_uc sample_store ((sample_events @ [ECommit 1]) @ [EExecute 1]) s2 (spec_do (EExecute 1) (spec_do (ECommit 1) a))"
    using fin by (intro sys_run.step [OF r1]) auto
  show ?thesis
  proof (rule that [OF r2])
    show "c_map (spec_do (EExecute 1) (spec_do (ECommit 1) a)) = [1 \<mapsto> sample_obj]"
      using r(3,5) by simp
    show "running (spec_do (EExecute 1) (spec_do (ECommit 1) a)) = [2 \<mapsto> \<lparr>t_done = False, t_ops = [], t_new = Map.empty\<rparr>]"
    proof
      fix k
      show "running (spec_do (EExecute 1) (spec_do (ECommit 1) a)) k = [2 \<mapsto> \<lparr>t_done = False, t_ops = [], t_new = Map.empty\<rparr>] k"
        using r(2-4) by (cases "k = 1"; cases "k = 2") auto
    qed
    show "bck s2 = sample_backend" "max_key_len s2 = 64"
      using sys_run_opened(4) [OF r2 sample_checksum sample_opened] by (simp_all add: conf_same_def sample_store_def)
  qed
qed





end
