(* ===== verification/Lifetime.thy ===== *)
theory Lifetime
  imports Restart
begin

text \<open>
  A store from its creation through calls and restarts in any order.
\<close>

section \<open>The life of a store\<close>

text \<open>
  From its creation, through any calls, and through restarts: the process ends in any state that
  recovery can undo, and the pool is opened again.
\<close>

definition blank_pool :: "backend \<Rightarrow> world \<Rightarrow> bool" where
  "blank_pool b w \<longleftrightarrow> (\<forall>i. block_ok b i \<longrightarrow> ld_u64 (mem w) (backend_direct (Some b) i) = 0) \<and>
     (\<forall>t. slot_ok b t \<longrightarrow> s_status (slot_at (mem w) (backend_tx_direct (Some b) t)) = status_code EMPTY)"

inductive lifetime :: "checksum_fn \<Rightarrow> pmb_handle \<Rightarrow> spec_state \<Rightarrow> bool" for uc :: checksum_fn where
  created: "heap_ok hp \<Longrightarrow> open_or_create nv opts w = Inr (True, Some b, w') \<Longrightarrow> layout_ok b \<Longrightarrow>
    b_tx_slots_count b = o_write_log_entries opts \<Longrightarrow> o_write_log_entries opts \<noteq> - 1 \<Longrightarrow> 0 < b_data_nlba b \<Longrightarrow> 0 < b_meta_nlba b \<Longrightarrow>
    blank_pool b w' \<Longrightarrow> pmb_open nv uc hp sched (Some opts) w = Some (Inr (0, Inr s)) \<Longrightarrow>
    lifetime uc s \<lparr>c_map = Map.empty, running = Map.empty\<rparr>"
| call: "lifetime uc s a \<Longrightarrow> client_ok a e \<Longrightarrow> sys_step uc s e s' \<Longrightarrow> lifetime uc s' (spec_do e a)"
| restart: "lifetime uc s a \<Longrightarrow> recoverable a \<Longrightarrow> heap_ok hp \<Longrightarrow> remapped nv opts w w' UNIV s \<Longrightarrow>
    pmb_open nv uc hp sched (Some opts) w = Some (Inr (0, Inr s')) \<Longrightarrow> lifetime uc s' \<lparr>c_map = c_map a, running = Map.empty\<rparr>"

lemma new_store_opened:
  assumes hp: "heap_ok hp" and new: "open_or_create nv opts w = Inr (True, Some b, w')" "layout_ok b"
      "b_tx_slots_count b = o_write_log_entries opts" "o_write_log_entries opts \<noteq> - 1" "0 < b_data_nlba b" "0 < b_meta_nlba b"
    and blank: "blank_pool b w'" and call: "pmb_open nv uc hp sched (Some opts) w = Some (Inr (0, Inr s))"
  shows "opened ck s" and "store s = Map.empty"
proof -
  have zero: "\<forall>i. block_ok b i \<longrightarrow> ld_u64 (mem w') (backend_direct (Some b) i) = 0"
    using blank by (simp add: blank_pool_def)
  have f: "pool_inv s" "store s = Map.empty" "bck s = b" "slot_ids s = {1..ucast (b_tx_slots_count b)}"
      "total_objs_count s = b_data_nlba b" "mem s = mem w'"
    using open_new [OF hp new(1,2,3,5,6,4) zero, of uc sched] call new(3) by auto
  show "store s = Map.empty"
    by (rule f(2))
  have "media_ok ck s"
  proof (rule media_okI)
    fix k
    assume "k \<in> slot_ids s"
    then have "tx_ok s k"
      using f(1) by (auto simp: f(3,4) tx_ok_def pool_inv_def slots_ok_def word_nat Suc_le_eq)
    then show "slot_empty s (ucast (k - 1))"
      using blank tx_index(2) [of s k] by (simp add: blank_pool_def f(3,6))
  qed (use new(5) in \<open>simp_all add: f(2,3,5)\<close>)
  then show "opened ck s"
    using f(1) by (simp add: opened_def start_ok_def f(2,3,4))
qed

text \<open>At any time the store is in a run that began with an open store.\<close>

lemma lifetime_run:
  assumes "lifetime uc s a" and ck: "checksum_spec uc ck"
  shows "\<exists>s0 es. opened ck s0 \<and> sys_run uc s0 es s a"
  using assms(1)
proof (induction rule: lifetime.induct)
  case (created hp nv opts w b w' sched s)
  note new = new_store_opened [OF created]
  show ?case
    using new(1) sys_run.start [of uc s] by (intro exI [of _ s] exI [of _ "[]"]) (simp add: new(2))
next
  case (call s a e s')
  then show ?case
    using sys_run.step by blast
next
  case (restart s a hp nv opts w w' sched s')
  then obtain s0 es where run: "opened ck s0" "sys_run uc s0 es s a"
    by blast
  from settled_opened [OF ck restart(3) run restart(2,4), of sched] restart(5) have "opened ck s'" "store s' = c_map a"
    by auto
  then show ?case
    using sys_run.start [of uc s'] by (intro exI [of _ s'] exI [of _ "[]"]) simp
qed

lemma lifetime_sys_run:
  assumes "sys_run uc s0 es s a" and "lifetime uc s0 \<lparr>c_map = store s0, running = Map.empty\<rparr>"
  shows "lifetime uc s a"
  using assms by induction (auto intro: lifetime.call)

text \<open>A transaction that puts one object, in a store of the layout of the sample store.\<close>

lemma put_possible:
  assumes ck: "checksum_spec uc ck" and nz: "\<And>b. ck b \<noteq> 0" and rel: "rel U K s a" and o: "opn a k t"
    and i: "i \<in> list_ids (free_list s)" "\<forall>j\<in>list_ids (free_list s). i \<le> j"
    and c: "put_client s k i kv" "\<not> tput_bad_args s k kv" "p_blk_id kv = 0"
  obtains ob s' where "sys_step uc s (EPut k i ob) s'"
proof -
  have a: "put_args s i kv" "client_bufs s k kv" "i < total_objs_count s" and ready: "put_ready s k (t_ops t) i"
    using c(1) opn_holds(2) [OF rel o] relD(4) [OF rel] i by (simp_all add: put_client_def put_ready_def)
  obtain s' where s': "pmb_tput uc (Some s) k (Some kv) = (PMB_OK, Some (kv\<lparr>p_blk_id := i\<rparr>), Some s')" "sealed uc s' i"
    using tput_new_effect [OF ck ready a(1,2) c(3,2) a(3)] by blast
  have "i \<noteq> 0"
    using list_ids_nonzero [OF relD(4) [OF rel]] i(1) by metis
  then have "present s' i"
    using s'(2) nz by (auto simp: sealed_def checksum_verify [OF ck] present_def hdr_at_def)
  from sys_step.put [OF s'(1) c(3) _ c(1) this] show ?thesis
    using that by simp
qed

lemma put_transaction:
  assumes op: "opened sample_ck s" and b: "bck s = sample_backend\<lparr>b_sync_type := x\<rparr>" and len: "max_key_len s = 64" "max_val_len s = 1024"
    and one: "1 \<in> list_ids (free_list s)"
  obtains k ob s' a where "sys_run sample_uc s [EBegin k, EPut k 1 ob, ECommit k, EExecute k] s' a" "running a = Map.empty"
    "c_map a = (store s)(1 \<mapsto> ob)"
proof -
  have lay: "layout_ok (bck s)" "b_tx_log (bck s) = 0x10002000" "b_tx_slots_count (bck s) = 16" "b_tx_slot_size (bck s) = 0x800000"
    using sample_layout by (simp_all add: b layout_ok_def pool_end_def sample_backend_fields)
  have st: "start_ok s" "total_objs_count s = 32766" "slot_ids s = {1..16}"
    using op by (simp_all add: opened_def media_ok_def b sample_backend_fields)
  have inv: "pool_inv s"
    using st(1) by (simp add: start_ok_def)
  let ?a0 = "\<lparr>c_map = store s, running = Map.empty\<rparr>"
  have "slot_ids s \<noteq> {}"
    by (simp add: st(3))
  then obtain k s1 where k: "pmb_tx_begin (Some s) (Some 0) = (PMB_OK, Some k, Some s1)" "tx_holds s1 k PROCESSING []" "slot_size s1 k = 24"
      "\<exists>l m p. s1 = s\<lparr>op_log := (op_log s)\<lparr>tx_slots_list := l\<rparr>, mem := m, plog := p\<rparr>"
    by (rule begin_facts [OF inv, where c = 0])
  have f: "bck s1 = bck s" "free_list s1 = free_list s" "max_key_len s1 = 64" "max_val_len s1 = 1024" "total_objs_count s1 = 32766"
      "tx_slots_count (op_log s1) = tx_slots_count (op_log s)"
    using k(4) st(2) len by auto
  have r1: "sys_run sample_uc s ([] @ [EBegin k]) s1 (spec_do (EBegin k) ?a0)"
    by (rule sys_run.step [OF sys_run.start _ sys_step.begin_tx [OF k(1)]]) simp
  have rel1: "rel (space s) (slot_ids s) s1 (spec_do (EBegin k) ?a0)"
    using sys_run_rel [OF r1 sample_checksum st(1)] by simp
  let ?t = "\<lparr>t_done = False, t_ops = [], t_new = Map.empty\<rparr>"
  have o: "opn (spec_do (EBegin k) ?a0) k ?t"
    by (simp add: opn_def)
  have ok: "tx_ok s1 k"
    using k(2) by (simp add: tx_holds_def)
  have "ucast (k - 1) < b_tx_slots_count (bck s1)"
    using tx_index(2) [OF ok] by (simp add: slot_ok_def)
  from backend_tx_direct_slot(1) [OF _ this] have slot: "0x10002000 \<le> tx_slot_ptr s1 k"
    using lay f(1) by (simp add: tx_slot_ptr_def)
  let ?kv = "sample_pair 0 0 5"
  have blk: "block_ok (bck s) 1" "block_len (bck s) 1 = 4096" "blk_ptr s 1 = 0x18003000"
    using lay(1) by (simp_all add: backend_direct_def b sample_backend_fields ptr_add_def block_ok_def data_id_def block_len_def)
  have "put_client s1 k 1 ?kv"
    using slot k(3) lay(4) by (simp add: put_client_def put_args_def client_bufs_def f blk sample_pair_def apart_def)
  moreover have "\<not> tput_bad_args s1 k ?kv"
    using ok by (auto simp: tput_bad_args_def sample_pair_def f tx_ok_def NULL_def)
  moreover have "\<forall>j\<in>list_ids (free_list s1). 1 \<le> j"
  proof
    fix j
    assume "j \<in> list_ids (free_list s1)"
    then have "j \<noteq> 0"
      using list_ids_nonzero [OF relD(4) [OF rel1]] by metis
    then show "1 \<le> j"
      by (simp add: word_le_nat_alt Suc_le_eq unat_gt_0)
  qed
  moreover have "1 \<in> list_ids (free_list s1)" "p_blk_id ?kv = 0"
    using one by (simp_all add: f(2) sample_pair_def)
  ultimately obtain ob s2 where s2: "sys_step sample_uc s1 (EPut k 1 ob) s2"
    using put_possible [OF sample_checksum sample_ck_nonzero rel1 o, of 1 ?kv] by blast
  let ?a2 = "spec_do (EPut k 1 ob) (spec_do (EBegin k) ?a0)"
  have "client_ok (spec_do (EBegin k) ?a0) (EPut k 1 ob)"
    unfolding client_ok.simps using o by (rule exI)
  from sys_run.step [OF r1 this s2] have r2: "sys_run sample_uc s [EBegin k, EPut k 1 ob] s2 ?a2"
    by (simp only: append.simps)
  have run: "running ?a2 = [k \<mapsto> \<lparr>t_done = False, t_ops = [LWrite 1], t_new = [1 \<mapsto> ob]\<rparr>]" "c_map ?a2 = store s"
    by (simp_all add: append_op_def)
  then have k2: "running ?a2 k = Some \<lparr>t_done = False, t_ops = [LWrite 1], t_new = [1 \<mapsto> ob]\<rparr>"
    by simp
  have o2: "opn ?a2 k \<lparr>t_done = False, t_ops = [LWrite 1], t_new = [1 \<mapsto> ob]\<rparr>"
    using k2 by (simp add: opn_def)
  have rel2: "rel (space s) (slot_ids s) s2 ?a2"
    using sys_run_rel [OF r2 sample_checksum st(1)] by simp
  obtain s3 where s3: "pmb_tx_commit sample_uc (Some s2) k = (PMB_OK, Some s3)" "rel (space s) (slot_ids s) s3 (spec_do (ECommit k) ?a2)"
    using rel_commit [OF sample_checksum rel2 o2] by blast
  have "client_ok ?a2 (ECommit k)"
    unfolding client_ok.simps using o2 by (rule exI)
  from sys_run.step [OF r2 this sys_step.commit [OF s3(1)]]
  have r3: "sys_run sample_uc s [EBegin k, EPut k 1 ob, ECommit k] s3 (spec_do (ECommit k) ?a2)"
    by (simp only: append.simps)
  let ?u = "\<lparr>t_done = True, t_ops = [LWrite 1], t_new = [1 \<mapsto> ob]\<rparr>"
  have u: "running (spec_do (ECommit k) ?a2) k = Some ?u" "t_done ?u" "inplace_ids (t_ops ?u) = {}"
    using k2 by simp_all
  obtain s4 where "sys_step sample_uc s3 (EExecute k) s4"
    by (rule execute_step [OF sample_checksum s3(2) u])
  moreover have "client_ok (spec_do (ECommit k) ?a2) (EExecute k)"
    unfolding client_ok.simps using u(1,2) by blast
  ultimately have "sys_run sample_uc s ([EBegin k, EPut k 1 ob, ECommit k] @ [EExecute k]) s4 (spec_do (EExecute k) (spec_do (ECommit k) ?a2))"
    using sys_run.step [OF r3] by blast
  then have "sys_run sample_uc s [EBegin k, EPut k 1 ob, ECommit k, EExecute k] s4 (spec_do (EExecute k) (spec_do (ECommit k) ?a2))"
    by (simp only: append.simps)
  from that [OF this] show ?thesis
    by (simp add: append_op_def)
qed



end
