(* ===== verification/Durability.thy ===== *)
theory Durability
  imports Lifetime
begin

text \<open>
  Which parts of the pool a transaction makes durable, by the durability option of the store.
\<close>

section \<open>Ranges made durable by a call\<close>

definition persists :: "(ptr \<Rightarrow> nat \<Rightarrow> bool) \<Rightarrow> pmb_handle \<Rightarrow> pmb_handle \<Rightarrow> bool" where
  "persists P s s' \<longleftrightarrow> bck s' = bck s \<and> (\<exists>l. plog s' = plog s @ l \<and> (\<forall>p n. Durable p n \<in> set l \<longrightarrow> P p n))"

lemma persists_none: "bck s' = bck s \<Longrightarrow> plog s' = plog s \<Longrightarrow> persists P s s'"
  by (simp add: persists_def)

lemma persists_trans:
  assumes "persists P s s'" and "persists P s' s''"
  shows "persists P s s''"
proof -
  obtain l l' where "plog s' = plog s @ l" "plog s'' = plog s' @ l'"
      "\<forall>p n. Durable p n \<in> set l \<longrightarrow> P p n" "\<forall>p n. Durable p n \<in> set l' \<longrightarrow> P p n"
    using assms unfolding persists_def by blast
  then have "plog s'' = plog s @ (l @ l') \<and> (\<forall>p n. Durable p n \<in> set (l @ l') \<longrightarrow> P p n)"
    by auto
  then show ?thesis
    using assms unfolding persists_def by metis
qed

text \<open>Calls that log nothing when \<open>backend_memcpy\<close> is a plain \<open>memcpy\<close>.\<close>

abbreviation volatile :: "backend \<Rightarrow> bool" where
  "volatile b \<equiv> b_memcpy b = Libc_memcpy"

lemma memcpy_volatile [simp]:
  "volatile b \<Longrightarrow> plog (backend_memcpy b d p n w) = plog w"
  "bck (backend_memcpy b d p n s) = bck s"
  by (simp_all add: backend_memcpy_def Let_def split: copy_fn.split)

lemma set_zero_plog [simp]: "plog (snd (backend_set_zero bo p w)) = plog w" "bck (snd (backend_set_zero bo p s)) = bck s"
  by (simp_all add: backend_set_zero_def Let_def)

lemma push_free_plog [simp]: "plog (push_free i s) = plog s" "bck (push_free i s) = bck s"
  by (simp_all add: push_free_def)

lemma keep_old_plog:
  "volatile (bck s) \<Longrightarrow> plog (snd (tput_keep_old kv obj old_obj n z s)) = plog s"
  "bck (snd (tput_keep_old kv obj old_obj n z s)) = bck s"
  by (simp_all add: tput_keep_old_def Let_def)

lemma fill_plog:
  "volatile (bck s) \<Longrightarrow> plog (tput_fill uc kv obj old_obj s) = plog s" "bck (tput_fill uc kv obj old_obj s) = bck s"
  by (simp_all add: tput_fill_def Let_def keep_old_plog case_prod_beta)

lemma meta_fill_plog:
  "volatile (bck s) \<Longrightarrow> plog (tput_meta_fill uc kv obj old_obj s) = plog s" "bck (tput_meta_fill uc kv obj old_obj s) = bck s"
  by (simp_all add: tput_meta_fill_def Let_def)

lemma register_plog:
  "plog (snd (tx_slot_op_write s k i n)) = plog s" "bck (snd (tx_slot_op_write s k i n)) = bck s"
  "plog (snd (tx_slot_op_update s k i j n)) = plog s" "bck (snd (tx_slot_op_update s k i j n)) = bck s"
  "plog (snd (tx_slot_op_remove s k i)) = plog s" "bck (snd (tx_slot_op_remove s k i)) = bck s"
  "volatile (bck s) \<Longrightarrow> plog (snd (tx_slot_op_small_update s k i d z n)) = plog s" "bck (snd (tx_slot_op_small_update s k i d z n)) = bck s"
  by (simp_all add: tx_slot_op_write_def tx_slot_op_update_def tx_slot_op_remove_def tx_slot_op_small_update_def Let_def)

lemma new_block_plog:
  "volatile (bck s) \<Longrightarrow> plog (snd (snd (tput_new_block uc s k kv obj))) = plog s"
  "bck (snd (snd (tput_new_block uc s k kv obj))) = bck s"
  "volatile (bck s) \<Longrightarrow> plog (snd (snd (tput_meta_new_block uc s k kv obj))) = plog s"
  "bck (snd (snd (tput_meta_new_block uc s k kv obj))) = bck s"
  by (simp_all add: tput_new_block_def tput_meta_new_block_def Let_def case_prod_beta register_plog fill_plog meta_fill_plog)

lemma tput_persists:
  assumes v: "volatile (bck s)"
  shows "pmb_tput uc (Some s) k (Some kv) = (r, kv', Some s') \<Longrightarrow> persists P s s'"
    and "pmb_tput_meta uc (Some s) k (Some kv) = (r, kv', Some s') \<Longrightarrow> persists P s s'"
    and "pmb_tdel (Some s) k j = (r, Some s') \<Longrightarrow> persists P s s'"
    and "pmb_tx_begin (Some s) (Some c) = (r, c', Some s') \<Longrightarrow> persists P s s'"
proof -
  show "pmb_tput uc (Some s) k (Some kv) = (r, kv', Some s') \<Longrightarrow> persists P s s'"
    by (rule persists_none)
      (auto simp: pmb_tput_def Let_def case_prod_beta new_block_plog register_plog v split: if_splits)
  show "pmb_tput_meta uc (Some s) k (Some kv) = (r, kv', Some s') \<Longrightarrow> persists P s s'"
    by (rule persists_none)
      (auto simp: pmb_tput_meta_def Let_def case_prod_beta new_block_plog v split: if_splits)
  show "pmb_tdel (Some s) k j = (r, Some s') \<Longrightarrow> persists P s s'"
    by (rule persists_none) (auto simp: pmb_tdel_def case_prod_beta register_plog split: if_splits)
  show "pmb_tx_begin (Some s) (Some c) = (r, c', Some s') \<Longrightarrow> persists P s s'"
    by (rule persists_none)
      (auto simp: pmb_tx_begin_def tx_log_get_slot_def tx_slot_init_def Let_def case_prod_beta split: if_splits)
qed

lemma update_block_plog:
  assumes "tx_update_block t i d z n s = Inr s'" and "volatile (bck s)"
  shows "plog s' = plog s" and "bck s' = bck s"
  using assms by (auto simp: tx_update_block_def tx_slot_meta_upd_add_def Let_def bindR_eq_Inr_iff split: if_splits)

lemma execute_entry_plog:
  assumes "tx_execute_entry t pos s = Inr (p, s')" and "volatile (bck s)"
  shows "plog s' = plog s" and "bck s' = bck s"
  using assms update_block_plog by (auto simp: tx_execute_entry_def Let_def bindR_eq_Inr_iff split: if_splits)

lemma execute_loop_plog:
  "tx_execute_loop t e pos s = Inr s' \<Longrightarrow> volatile (bck s) \<Longrightarrow> plog s' = plog s \<and> bck s' = bck s"
proof (induction t e pos s rule: tx_execute_loop.induct)
  case (1 t e pos s)
  show ?case
  proof (cases "pos < e")
    case True
    then obtain p s1 where s1: "tx_execute_entry t pos s = Inr (p, s1)" "tx_execute_loop t e p s1 = Inr s'"
      using 1(2) by (subst (asm) tx_execute_loop.simps) (auto simp: bindR_eq_Inr_iff)
    then show ?thesis
      using 1(1) [OF True s1(1) refl s1(2)] 1(3) execute_entry_plog [OF s1(1)] by simp
  next
    case False
    then show ?thesis
      using 1(2) by (simp add: tx_execute_loop.simps)
  qed
qed

lemma upd_apply_all_plog: "meta_upd_apply_all uc ms s = Inr s' \<Longrightarrow> plog s' = plog s \<and> bck s' = bck s"
proof (induction ms arbitrary: s)
  case (Cons m ms)
  then obtain s1 where "meta_upd_apply uc m s = Inr s1" "meta_upd_apply_all uc ms s1 = Inr s'"
    by (auto simp: bindR_eq_Inr_iff)
  moreover from this have "plog s1 = plog s" "bck s1 = bck s"
    by (auto simp: meta_upd_apply_def Let_def split: if_splits)
  ultimately show ?case
    using Cons.IH by simp
qed simp

lemma upd_process_plog:
  assumes "tx_slot_meta_upd_process uc t s = Inr s'"
  shows "plog s' = plog s" and "bck s' = bck s"
  using assms upd_apply_all_plog by (fastforce simp: tx_slot_meta_upd_process_def Let_def bindR_eq_Inr_iff split: if_splits)+

lemma abort_loop_plog: "plog (tx_abort_loop e pos s) = plog s"
proof (induction e pos s rule: tx_abort_loop.induct)
  case (1 e pos s)
  have "plog (tx_abort_entry pos s) = plog s"
    by (simp add: tx_abort_entry_def Let_def split: option.split tx_op.split)
  then show ?case
    using 1 by (subst tx_abort_loop.simps) simp
qed

section \<open>Commit, execution and abort\<close>

text \<open>A range inside one transaction slot.\<close>

definition in_slot :: "backend \<Rightarrow> ptr \<Rightarrow> nat \<Rightarrow> bool" where
  "in_slot b p n \<longleftrightarrow> (\<exists>t. slot_ok b t \<and> p = backend_tx_direct (Some b) t \<and> n \<le> unat (b_tx_slot_size b))"

lemma call_persist_persists:
  assumes "P p (unat n)"
  shows "persists P s (call_persist f p n s)"
  using assms by (cases f) (auto simp: persists_def call_persist_def empty_weak_persist_def msync_weak_def Let_def)

lemma persist_in_slot:
  assumes "b_sync_type (bck s) \<noteq> 0" and "slot_ok (bck s) t" and "unat n \<le> slot_cap s"
  shows "persists (in_slot (bck s)) s (snd (backend_persist (Some (bck s)) (backend_tx_direct (Some (bck s)) t) n s))"
    and "persists (in_slot (bck s)) s (snd (backend_tx_persist (Some (bck s)) t n s))"
proof -
  have "in_slot (bck s) (backend_tx_direct (Some (bck s)) t) (unat n)"
    using assms(2,3) unfolding in_slot_def by blast
  then have "persists (in_slot (bck s)) s (call_persist f (backend_tx_direct (Some (bck s)) t) n s)" for f
    by (rule call_persist_persists)
  then show 1: "persists (in_slot (bck s)) s (snd (backend_persist (Some (bck s)) (backend_tx_direct (Some (bck s)) t) n s))"
    by (simp add: backend_persist_def persists_none)
  then show "persists (in_slot (bck s)) s (snd (backend_tx_persist (Some (bck s)) t n s))"
    using assms(1) by (simp add: backend_tx_persist_def Let_def persists_none)
qed

lemma persists_mem: "persists P (s\<lparr>mem := m\<rparr>) s' = persists P s s'"
  by (simp add: persists_def)

lemma checksum_in_slot:
  assumes ck: "checksum_spec uc ck" and "b_sync_type (bck s) \<noteq> 0" and t: "slot_ok (bck s) t" "p = backend_tx_direct (Some (bck s)) t"
    and "unat (s_size (slot_at (mem s) p)) \<le> slot_cap s"
  shows "persists (in_slot (bck s)) s (tx_slot_checksum uc p t s)"
proof -
  let ?m = "set_slot_flch64 (mem s) p (ck (range_without (mem s) p (unat (s_size (slot_at (mem s) p))) p))"
  have "s_size (slot_at ?m p) = s_size (slot_at (mem s) p)"
    by (simp add: slot_defs)
  then show ?thesis
    using persist_in_slot(2) [of "s\<lparr>mem := ?m\<rparr>" t "s_size (slot_at (mem s) p)"] assms(2,3,5)
    by (simp add: tx_slot_checksum_def checksum_insert [OF ck] set_slot_flch64_def persists_mem)
qed

lemma zero_in_slot:
  assumes "b_sync_type (bck s) \<noteq> 0" and t: "slot_ok (bck s) t" "p = backend_tx_direct (Some (bck s)) t"
  shows "persists (in_slot (bck s)) s (snd (backend_tx_set_zero (Some (bck s)) p s))"
  using persist_in_slot(1) [of "s\<lparr>mem := memset (mem s) p 0 12\<rparr>" t 12] assms bs.slot_extent_header [OF t(1)] bs.slot_not_null [OF t(1)]
  by (simp add: backend_tx_set_zero_def Let_def persists_mem)

lemma free_slot_persists: "persists P s (tx_log_free_slot s' k) = persists P s s'"
  by (simp add: persists_def tx_log_free_slot_def)

lemma commit_in_slot:
  assumes ck: "checksum_spec uc ck" and sync: "b_sync_type (bck s) \<noteq> 0" and h: "tx_holds s k st rs"
    and call: "pmb_tx_commit uc (Some s) k = (PMB_OK, Some s')"
  shows "persists (in_slot (bck s)) s s'"
proof -
  let ?p = "tx_slot_ptr s k" and ?s = "s\<lparr>mem := set_slot_status (mem s) (tx_slot_ptr s k) COMMITED\<rparr>"
  have ok: "tx_ok s k" and sz: "slot_size s k \<le> slot_cap s"
    using h by (simp_all add: tx_holds_def slot_holds_def)
  have "s' = tx_slot_checksum uc ?p (ucast (k - 1)) ?s"
    using call by (auto simp: pmb_tx_commit_def tx_slot_commit_def pmb_codes Let_def split: if_splits)
  moreover have "unat (s_size (slot_at (mem ?s) ?p)) \<le> slot_cap s"
    using sz by (simp add: slot_defs)
  ultimately show ?thesis
    using checksum_in_slot [OF ck, of ?s "ucast (k - 1)" ?p] sync tx_index(2) [OF ok]
    by (simp add: persists_mem tx_slot_ptr_def)
qed

lemma execute_in_slot:
  assumes sync: "b_sync_type (bck s) \<noteq> 0" and v: "volatile (bck s)" and ok: "tx_ok s k"
    and call: "pmb_tx_execute uc (Some s) k = Inr (PMB_OK, Some s')"
  shows "persists (in_slot (bck s)) s s'"
proof -
  let ?t = "ucast (k - 1) :: u8" and ?p = "backend_tx_direct (Some (bck s)) (ucast (k - 1))"
  obtain s1 where s1: "tx_slot_execute uc s k = Inr (PMB_OK, s1)" "s' = tx_log_free_slot s1 k"
    using call by (auto simp: pmb_tx_execute_def bindR_eq_Inr_iff pmb_codes split: if_splits)
  then obtain s2 s3 where s3: "tx_execute_loop ?t (ptr_add ?p (s_size (slot_at (mem s) ?p))) (?p + sizeof_tx_slot) s = Inr s2"
      "tx_slot_meta_upd_process uc ?t s2 = Inr s3" "s1 = snd (backend_tx_set_zero (Some (bck s3)) ?p s3)"
    by (auto simp: tx_slot_execute_def bindR_eq_Inr_iff pmb_codes Let_def split: if_splits)
  have q: "plog s3 = plog s" "bck s3 = bck s"
    using execute_loop_plog [OF s3(1) v] upd_process_plog [OF s3(2)] by simp_all
  then have "persists (in_slot (bck s)) s s3"
    by (intro persists_none)
  moreover have "persists (in_slot (bck s)) s3 s1"
    unfolding s3(3) using zero_in_slot [of s3 ?t ?p] sync tx_index(2) [OF ok] q(2) by simp
  ultimately show ?thesis
    using persists_trans s1(2) free_slot_persists by metis
qed

lemma abort_in_slot:
  assumes ck: "checksum_spec uc ck" and sync: "b_sync_type (bck s) \<noteq> 0" and h: "tx_holds s k st rs"
    and call: "pmb_tx_abort uc (Some s) k = (PMB_OK, Some s')"
  shows "persists (in_slot (bck s)) s s'"
proof -
  let ?t = "ucast (k - 1) :: u8" and ?p = "tx_slot_ptr s k" and ?P = "in_slot (bck s)"
  have ok: "tx_ok s k" and sz: "slot_size s k \<le> slot_cap s"
    using h by (simp_all add: tx_holds_def slot_holds_def)
  have t: "slot_ok (bck s) ?t" "?p = backend_tx_direct (Some (bck s)) ?t"
    using tx_index(2) [OF ok] by (simp_all add: tx_slot_ptr_def)
  let ?s1 = "s\<lparr>mem := set_slot_status (mem s) ?p ABORTED\<rparr>"
  define s2 where "s2 = tx_slot_checksum uc ?p ?t ?s1"
  define s3 where "s3 = tx_abort_loop (ptr_add ?p (s_size (slot_at (mem s2) ?p))) (?p + sizeof_tx_slot) s2"
  let ?s4 = "s3\<lparr>mem := set_slot_size (set_slot_status (mem s3) ?p EMPTY) ?p 0\<rparr>"
  define s5 where "s5 = tx_slot_checksum uc ?p ?t ?s4"
  have s': "s' = tx_log_free_slot (snd (backend_tx_set_zero (Some (bck s5)) ?p s5)) k"
    using call unfolding s2_def s3_def s5_def t(2)
    by (auto simp: pmb_tx_abort_def tx_slot_abort_def pmb_codes Let_def split: if_splits prod.splits)
  have "unat (s_size (slot_at (mem ?s1) ?p)) \<le> slot_cap s"
    using sz by (simp add: slot_defs)
  then have p2: "persists ?P s s2"
    using checksum_in_slot [OF ck, of ?s1 ?t ?p] sync t by (simp add: persists_mem s2_def)
  then have b2: "bck s2 = bck s"
    by (simp add: persists_def)
  then have p3: "persists ?P s2 s3" and b3: "bck s3 = bck s"
    using abort_loop_plog tx_abort_loop_bck(1) by (simp_all add: s3_def persists_none)
  have "s_size (slot_at (mem ?s4) ?p) = 0"
    by (simp add: slot_defs)
  then have p5: "persists ?P s3 s5"
    using checksum_in_slot [OF ck, of ?s4 ?t ?p] sync t b3 by (simp add: persists_mem s5_def)
  then have b5: "bck s5 = bck s"
    using b3 by (simp add: persists_def)
  have "persists ?P s5 (snd (backend_tx_set_zero (Some (bck s5)) ?p s5))"
    using zero_in_slot [of s5 ?t ?p] sync t b5 by simp
  then show ?thesis
    unfolding s' free_slot_persists using p2 p3 p5 persists_trans by blast
qed

section \<open>Runs\<close>

lemma sys_step_in_slot:
  assumes ck: "checksum_spec uc ck" and rel: "rel U K s a" and ok: "client_ok a e" and sync: "b_sync_type (bck s) \<noteq> 0" and v: "volatile (bck s)"
    and step: "sys_step uc s e s'"
  shows "persists (in_slot (bck s)) s s'"
proof (rule sys_step_cases [OF rel ok step])
  show ?thesis if "opn a k t" "pmb_tx_commit uc (Some s) k = (PMB_OK, Some s')" for k t
    by (rule commit_in_slot [OF ck sync opn_holds(2) [OF rel that(1)] that(2)])
  show ?thesis if "tx_holds s k COMMITED (t_ops t)" "pmb_tx_execute uc (Some s) k = Inr (PMB_OK, Some s')" for k t
    using execute_in_slot [OF sync v _ that(2)] that(1) by (simp add: tx_holds_def)
  show ?thesis if k: "running a k = Some t" and "pmb_tx_abort uc (Some s) k = (PMB_OK, Some s')" for k t
    using abort_in_slot [OF ck sync _ that(2)] relD(9) [OF rel k] by (auto simp: tx_conc_def)
qed (use persists_none in \<open>auto elim: tput_persists [OF v]\<close>)

section \<open>Properties\<close>

text \<open>
  C15: with \<open>PMB_SELSYNC\<close> and \<open>PMB_NOSYNC\<close> no object is made durable. On a pool that is not persistent memory, so
  that \<open>backend_memcpy\<close> is a plain copy, and with any durability option but \<open>PMB_SYNC\<close> and
  \<open>PMB_THSYNC\<close> (whose thread writes the pool back from time to time), every range that the calls of
  a run (as in C1) make durable
  is apart from every block: commit, execution and abort make bytes of their slot durable
  at most, never an object that the transaction wrote.
\<close>

theorem unsynced_objects_stay_volatile:
  assumes ck: "checksum_spec uc ck" and s0: "opened ck s0" and run: "sys_run uc s0 es s a"
    and sync: "b_sync_type (bck s0) \<notin> {PMB_SYNC, PMB_THSYNC}" and v: "volatile (bck s0)"
  shows "\<exists>l. plog s = plog s0 @ l \<and> (\<forall>p n i. Durable p n \<in> set l \<longrightarrow> block_ok (bck s0) i \<longrightarrow>
    apart p n (blk_ptr s0 i) (block_len (bck s0) i))"
proof -
  have "persists (in_slot (bck s0)) s0 s"
    using run
  proof (induction rule: sys_run.induct)
    case start
    then show ?case
      by (simp add: persists_none)
  next
    case (step es s a e s')
    note rel = sys_run_opened(1) [OF step.hyps(1) ck s0]
    have b: "bck s = bck s0"
      using step.IH by (simp add: persists_def)
    have "persists (in_slot (bck s)) s s'"
      using sync v b unfolding PMB_SYNC_def by (intro sys_step_in_slot [OF ck rel step.hyps(2) _ _ step.hyps(3)]) simp_all
    then show ?case
      using step.IH persists_trans unfolding b by blast
  qed
  then obtain l where l: "plog s = plog s0 @ l" "\<forall>p n. Durable p n \<in> set l \<longrightarrow> in_slot (bck s0) p n"
    unfolding persists_def by blast
  moreover have "apart p n (blk_ptr s0 i) (block_len (bck s0) i)" if "in_slot (bck s0) p n" "block_ok (bck s0) i" for p n i
    using that bs.slot_block_apart unfolding in_slot_def apart_def by fastforce
  ultimately show ?thesis
    by blast
qed

text \<open>The sample store with the durability option \<open>PMB_SELSYNC\<close>.\<close>

definition selsync_store :: pmb_handle where
  "selsync_store = sample_store\<lparr>bck := sample_backend\<lparr>b_sync_type := 2\<rparr>\<rparr>"

lemma selsync_backend:
  "layout_ok (b\<lparr>b_sync_type := x\<rparr>) = layout_ok b" "block_ok (b\<lparr>b_sync_type := x\<rparr>) = block_ok b"
  "backend_direct (Some (b\<lparr>b_sync_type := x\<rparr>)) = backend_direct (Some b)"
  "backend_tx_direct (Some (b\<lparr>b_sync_type := x\<rparr>)) = backend_tx_direct (Some b)"
  by (simp_all add: layout_ok_def pool_end_def fun_eq_iff block_ok_def data_id_def meta_id_def backend_direct_def backend_tx_direct_def)

lemma selsync_opened: "opened sample_ck selsync_store"
proof -
  have f: "bck sample_store = sample_backend" "mem selsync_store = mem sample_store" "op_log selsync_store = op_log sample_store"
      "bck selsync_store = sample_backend\<lparr>b_sync_type := 2\<rparr>" "free_list selsync_store = free_list sample_store"
      "meta_free_list selsync_store = meta_free_list sample_store" "total_objs_count selsync_store = total_objs_count sample_store"
    by (simp_all add: selsync_store_def sample_store_def)
  have none: "store selsync_store = Map.empty"
    by (simp add: store_def present_def f selsync_backend fun_eq_iff) (simp add: sample_store_def hdr_at_def)
  have "store_ok selsync_store"
    by (simp add: store_ok_def present_def f selsync_backend) (simp add: sample_store_def hdr_at_def)
  then show ?thesis
    using sample_opened
    by (simp add: opened_def start_ok_def pool_inv_def slots_ok_def media_ok_def none f selsync_backend sample_backend_fields)
qed

theorem unsynced_objects_stay_volatile_witness:
  "\<exists>k ob s a. sys_run sample_uc selsync_store [EBegin k, EPut k 1 ob, ECommit k, EExecute k] s a \<and> store s 1 = Some ob \<and>
    (\<exists>l. plog s = l \<and> (\<forall>p n. Durable p n \<in> set l \<longrightarrow> apart p n 0x18003000 4096))"
proof -
  note op = selsync_opened
  have f: "bck selsync_store = sample_backend\<lparr>b_sync_type := 2\<rparr>" "max_key_len selsync_store = 64" "max_val_len selsync_store = 1024"
      "1 \<in> list_ids (free_list selsync_store)"
    by (simp_all add: selsync_store_def sample_store_def list_ids_def caslist_eval caslist_ids_def)
  obtain k ob s a where r: "sys_run sample_uc selsync_store [EBegin k, EPut k 1 ob, ECommit k, EExecute k] s a" "running a = Map.empty"
      "c_map a = (store selsync_store)(1 \<mapsto> ob)"
    by (rule put_transaction [OF op f])
  have "store s = c_map a"
    using relD(10) [OF sys_run_opened(1) [OF r(1) sample_checksum op]] r(2) by (rule shown_idle)
  then have st: "store s 1 = Some ob"
    by (simp add: r(3))
  have b: "b_sync_type (bck selsync_store) \<notin> {PMB_SYNC, PMB_THSYNC}" "volatile (bck selsync_store)" "plog selsync_store = []"
    by (simp_all add: selsync_store_def sample_backend_fields sample_store_def PMB_SYNC_def PMB_THSYNC_def)
  have "block_ok (bck selsync_store) 1" "blk_ptr selsync_store 1 = 0x18003000" "block_len (bck selsync_store) 1 = 4096"
    using sample_layout by (simp_all add: selsync_store_def sample_store_def selsync_backend block_ok_def data_id_def block_len_def sample_backend_fields
        backend_direct_def ptr_add_def)
  then have "\<forall>p n. Durable p n \<in> set (plog s) \<longrightarrow> apart p n 0x18003000 4096"
    using unsynced_objects_stay_volatile [OF sample_checksum op r(1) b(1,2)] b(3) by (metis append_Nil)
  then show ?thesis
    using r(1) st by blast
qed

end
