(* ===== verification/Spec2Isabelle.thy ===== *)
theory Spec2Isabelle
  imports Durability
begin

text \<open>
  Verification of PMbackend, a transactional object store on a memory-mapped pool of
  persistent memory (\<open>src/src\<close> and \<open>src/include\<close>), and of its example programs
  (\<open>src/example\<close>). This theory imports the whole
  development; the properties stand in the theories of the parts they are about.

  \<^bold>\<open>The program.\<close> A pool file holds a header, the slots of a transaction log, an array of data
  blocks and an array of meta blocks. \<open>backend.c\<close> maps the file, computes the addresses
  of blocks and slots and makes ranges durable. \<open>caslist.c\<close> keeps sets of 64-bit
  identifiers as chains of ranges; the store has such a list for its free data blocks,
  its free meta blocks, the objects found in each region and the free slots. \<open>tx_log.c\<close>
  writes the operations of a transaction into its slot, executes or aborts them, and scans
  the log after a crash. \<open>pmbackend.c\<close> is the API: opening (with recovery by eight
  threads), transactions, put, get, delete, iteration.

  \<^bold>\<open>How it is modelled.\<close> Memory is a function from addresses to bytes; structures in the pool are
  read and written as little-endian fields at their C offsets. Integers are words of their
  C width, so every sum and product wraps as in the code. Pointers are natural numbers, 0 is
  NULL, and pointer sums that the code relies on wrap at 64 bits. A handle is the
  record \<open>pmb_handle\<close>, which extends the memory and the log of durability calls. Every function
  takes the handle and returns it; the cells behind pointer arguments are returned too. A
  fault (a NULL access, an index out of bounds, a division by zero) is \<open>Inl\<close> of a \<open>crash\<close>;
  status codes are those of the code. Functions of NVML (pool files, \<open>pmem_\<close> functions,
  \<open>util_checksum\<close>), \<open>malloc\<close> and the size of the pool header are parameters;
  \<open>checksum_spec\<close> states what \<open>util_checksum\<close> documents.

  \<^bold>\<open>Theories.\<close>

  \<^item> \<open>Prelude\<close>: word types, faults, arithmetic of words and intervals of words.
  \<^item> \<open>Cmem\<close>, \<open>Kv\<close>: bytes, fields (locale \<open>field_access\<close>), and the structures of \<open>kv.h\<close>.
  \<^item> \<open>Caslist\<close>: \<open>caslist.c\<close>; the invariant \<open>caslist_wf\<close>, the set \<open>caslist_ids\<close>, the contract
    \<open>id_pool\<close> (push adds, pop takes the least, the representation is canonical).
  \<^item> \<open>Backend\<close>: \<open>backend.c\<close>; the layout \<open>layout_ok\<close> and the contract \<open>block_store\<close> (blocks
    and slots are disjoint ranges).
  \<^item> \<open>Handle\<close>: the run-time structures and status codes, the contract of the checksum.
  \<^item> \<open>Tx_Log\<close>: every function of \<open>tx_log.c\<close>. \<open>Slot_Log\<close>: a slot as a list of records
    (\<open>log_rec\<close>); registering appends, commit seals. \<open>Tx_Exec\<close>, \<open>Tx_Pend\<close>, \<open>Tx_Execute\<close>: executing
    record by record, the pending header updates, the effect on blocks and free lists.
    \<open>Tx_Abort\<close>: aborting.
  \<^item> \<open>Pmbackend\<close>: the API on an open store. \<open>Put\<close>, \<open>Put_Update\<close>: what a put stores and reads
    back, copy-on-write updates. \<open>Api\<close>: failing calls, conflict resolution, the size check, executing a
    transaction that has not committed.
  \<^item> \<open>Refine\<close>: the store as a map from identifiers to objects (\<open>store\<close>) and execution as a fold
    of map updates. \<open>Txn\<close>: whole transactions, the step relation \<open>tx_run\<close> of the
    client's calls, the invariant \<open>pool_inv\<close>, commit and abort end to end.
  \<^item> \<open>Recovery\<close>, \<open>Recover\<close>: \<open>recovery_thread\<close>, \<open>recovery\<close> and \<open>populate_free_list\<close>; the scan
    classifies every block, independently of the interleaving.
  \<^item> \<open>Iterator\<close>, \<open>Open\<close>: iterators, \<open>pmb_open\<close>, \<open>pmb_close\<close> and the background thread.
    \<open>Log_Check\<close>: what \<open>tx_log_check\<close> does with the log after a crash. \<open>Reopen\<close>: opening a new
    store, reopening after a crash, iteration.
  \<^item> \<open>Spec_Tx\<close>: the abstract store of transactions that interleave: a committed map and the open
    transactions, each with its log and the objects it has created; events, their effect
    (\<open>spec_do\<close>), what a client may ask for (\<open>client_ok\<close>) and what the store may hand out
    (\<open>store_grants\<close>). \<open>Sys\<close>: the calls of the API as steps (\<open>sys_step\<close>, \<open>sys_run\<close>), the calls that are
    \<open>refused\<close>, and the relation
    \<open>rel\<close> between a handle and the abstract store. \<open>Sim\<close>: every step is simulated; refinement,
    conservation of blocks and slots, progress.
  \<^item> \<open>Clash\<close>: data and meta puts on a new store.
  \<^item> \<open>Examples\<close>: the programs \<open>kvtest\<close>, \<open>kvtest_updinpl\<close>, \<open>pool_list\<close> and \<open>pool_inspect\<close> with
    the functions of the C library they use. \<open>Programs\<close>: what \<open>kvtest\<close> prints on a new pool and
    \<open>pool_list\<close> on an existing one, from the opening of the pool to the last line.
  \<^item> \<open>Media\<close>: what the pool itself satisfies between two calls (\<open>media_ok\<close>). \<open>Restart\<close>: opening the
    pool again from the bytes that the end of the process, or a loss of power, leaves. \<open>Lifetime\<close>: a store
    from its creation through calls and restarts (\<open>lifetime\<close>). \<open>Durability\<close>: the ranges that the
    calls of a run make durable.
  \<^item> \<open>Sample\<close>: a concrete store and checksum for the witnesses.

  \<^bold>\<open>What is shown.\<close> On the intended paths: the lists are sets with a canonical form; the areas of
  a created pool do not overlap; a transaction that is committed and executed leaves the map
  the client built and one that is aborted leaves the map as it was; an object put is read
  back; any number of transactions may interleave, the store behaves as if each took effect
  at once when it is executed, and every transaction can be committed and executed; in a store whose free lists
  name blocks of their own region (as after recovery, not in a new store) no block or slot is lost or handed out twice;
  a failing put changes no object; recovery finds exactly the valid objects; the log
  scan settles what it looks at; a new store satisfies the invariant that the theorems on
  transactions assume; when the process ends between two calls, opening the pool again gives
  exactly the committed objects and undoes the open transactions, and so on through any number
  of restarts; with \<open>PMB_SYNC\<close> the same holds after a loss of power for the blocks that
  \<open>backend_persist_all\<close> reaches. These theorems on restarts need the first slot to be free, no
  transaction committed but not executed and none with an update in place; the theorems on
  \<open>tx_log_check\<close> show what happens to such transactions. Where the code departs from its intention there is a theorem too:
  the alias of the first meta block, the short range of \<open>backend_persist_all\<close>, the objects that are
  never made durable without \<open>PMB_SYNC\<close>, the misread
  payloads in \<open>tx_slot_abort\<close>, the block that \<open>pmb_tput\<close> loses, the sum that wraps in its size
  check, the slot that executing gives back although the transaction has not committed, the free lists of a new store that share blocks (and the data object that a meta
  put then overwrites), the slot that \<open>tx_log_check\<close>
  never looks at, the range it verifies, and the counters that fail with 255 slots.

  \<^bold>\<open>What the theorems on runs ask of the calls.\<close> The steps of \<open>sys_run\<close> are the calls that succeed and those that are
  refused with an error; not a put that fails with the generic error (it can lose a block) nor an
  execution or abort that fails (both give the slot back). Of a call that succeeds they ask what
  the code does not check: the client's lengths and buffers (\<open>put_client\<close>, \<open>meta_client\<close>, \<open>can_patch\<close>), that it touches
  only objects it sees and no other open transaction touches, at most 128 of them in place (\<open>client_ok\<close>: the array of pending
  updates has 128 entries), and aborts no transaction with updates in place, whose log \<open>tx_slot_abort\<close> misreads; room
  in the slot (\<open>tx_slot_capacity\<close> is never read); a pending list that is zeroed, for updates in place; a put that returns
  a block of its own region other than the first meta identifier; and a checksum that is not 0
  (an object whose checksum is 0 counts as absent). \<open>Clash\<close>, \<open>Backend\<close> and \<open>Tx_Abort\<close> show what
  happens outside of these conditions. On a store as \<open>pmb_open\<close> delivers it the first put of a new meta object is outside: it
  returns a data block in a new store and the first meta identifier after recovery, unless that block holds an object.

  \<^bold>\<open>Allocation.\<close> \<open>heap_ok\<close> says that the allocations of \<open>pmb_open\<close> succeed; of the entries of the pending lists, which
  \<open>tx_log_init\<close> does not clear, it says nothing. The links that \<open>caslist_push\<close> allocates are assumed to be there
  (the code would use a NULL pointer).

  \<^bold>\<open>Loops and bounds.\<close> Every loop is a total function with a measure, except the outer loop of
  \<open>tx_log_check\<close>, which does not end with 255 slots: it is a partial function whose value
  \<open>None\<close> means that it does not return, and it is proved to return for every other number of
  slots. The loop of the example programs over an iterator and the reading of a C string are
  partial functions too; the theorems on the programs show that they return. The endless loop of \<open>_sync_thread\<close> is modelled by any number of its rounds. The
  threads of \<open>recovery\<close> are interleaved by an arbitrary list of thread numbers, one block per
  step; what the list leaves over is done when the threads are joined, so every complete
  run of the threads is such a list.

  \<^bold>\<open>Example programs.\<close> A program is a function of its arguments, of the variables it reads before
  it sets them (options that \<open>pool_list\<close>, \<open>pool_inspect\<close> and \<open>kvtest_updinpl\<close> leave unset, among
  others) and of the addresses of its buffers. A line that it prints is a value of \<open>out_line\<close>.

  \<^bold>\<open>Not modelled.\<close> Trace points, log messages and the characters that \<open>printf\<close> puts out; \<open>pmb_init\<close>,
  which only calls \<open>util_init\<close>; NVML itself. The calls of several transactions
  interleave, but each call of the API is one step: the interleaving of client threads
  inside a call is not considered (each list operation is atomic under its mutex). The reordering of stores before a durability call
  is not modelled, so the process and the power end between two calls only, the power right after an
  execution or abort; the pool is mapped at the same address again. The theorem on pools
  without \<open>PMB_SYNC\<close> leaves out the background thread of \<open>PMB_THSYNC\<close>, whose rounds are \<open>sync_thread\<close>. The tests are left out.
\<close>

end
